(* ===== verification/Tide_Prelude.thy ===== *)
theory Tide_Prelude
  imports Main "HOL-Library.Product_Lexorder"
begin

text \<open>
  Shared vocabulary of the development: the machine arithmetic of Rust's unsigned
  integers on natural numbers, ordered sets in the way \<open>BTreeSet\<close> iterates over them,
  and the contract of a guarded state machine, on which the components build.
\<close>

named_theorems machine_simps \<open>unfolding rules for the saturating and truncating operations\<close>
named_theorems bset_simps \<open>what the ordered-set operations do to the set of elements\<close>

section \<open>Unsigned machine integers on natural numbers\<close>

text \<open>
  A \<open>u64\<close> or \<open>u32\<close> value is a natural number. Addition that saturates and casts that
  truncate are written out, and so is the wrap-around of an unchecked addition in a release build;
  \<open>saturating_sub\<close> is subtraction of natural numbers.
\<close>

definition u64_max :: nat where
  "u64_max = 2 ^ 64 - 1"

definition u32_max :: nat where
  "u32_max = 2 ^ 32 - 1"

definition sat_add64 :: "nat \<Rightarrow> nat \<Rightarrow> nat" where
  "sat_add64 a b = min (a + b) u64_max"

definition wrap_add64 :: "nat \<Rightarrow> nat \<Rightarrow> nat" where
  "wrap_add64 a b = (a + b) mod 2 ^ 64"

definition sat_add32 :: "nat \<Rightarrow> nat \<Rightarrow> nat" where
  "sat_add32 a b = min (a + b) u32_max"

definition as_u32 :: "nat \<Rightarrow> nat" where
  "as_u32 n = n mod 2 ^ 32"

definition div_ceil :: "nat \<Rightarrow> nat \<Rightarrow> nat" where
  "div_ceil a b = (if a mod b = 0 then a div b else a div b + 1)"

lemma u64_max_pos [simp]: "0 < u64_max" "Suc 0 \<le> u64_max"
  by (simp_all add: u64_max_def)

lemma sat_add64_exact [machine_simps]: "a + b \<le> u64_max \<Longrightarrow> sat_add64 a b = a + b"
  by (simp add: sat_add64_def)

lemma sat_add64_le [simp]: "sat_add64 a b \<le> u64_max"
  by (simp add: sat_add64_def)

lemma wrap_add64_exact [machine_simps]: "a + b \<le> u64_max \<Longrightarrow> wrap_add64 a b = a + b"
  by (simp add: wrap_add64_def u64_max_def)

lemma sat_add32_exact [machine_simps]: "a + b \<le> u32_max \<Longrightarrow> sat_add32 a b = a + b"
  by (simp add: sat_add32_def)

lemma u32_max_le_u64_max: "u32_max \<le> u64_max"
  by (simp add: u32_max_def u64_max_def)

lemma as_u32_small [machine_simps]: "n \<le> u32_max \<Longrightarrow> as_u32 n = n"
  by (simp add: as_u32_def u32_max_def)

lemma div_ceil_bounds:
  assumes "0 < b"
  shows "a \<le> div_ceil a b * b" and "div_ceil a b * b < a + b"
proof -
  have a: "a = a div b * b + a mod b" by simp
  have m: "a mod b < b" using assms by simp
  show "a \<le> div_ceil a b * b"
  proof (cases "a mod b = 0")
    case False
    have "a \<le> a div b * b + b" using a m by linarith
    with False show ?thesis by (simp add: div_ceil_def algebra_simps)
  qed (auto simp: div_ceil_def)
  show "div_ceil a b * b < a + b"
  proof (cases "a mod b = 0")
    case False
    then have "a div b * b + b < a + b" using a by linarith
    with False show ?thesis by (simp add: div_ceil_def algebra_simps)
  qed (use assms in \<open>auto simp: div_ceil_def\<close>)
qed

lemma less_div_ceil:
  assumes "0 < b" and "x < a"
  shows "x div b < div_ceil a b"
proof -
  have "x < div_ceil a b * b"
    using assms div_ceil_bounds(1)[of b a] by simp
  then show ?thesis
    using assms(1) by (simp add: less_mult_imp_div_less)
qed

section \<open>Ordered sets\<close>

text \<open>
  A \<open>BTreeSet\<close> is modelled by the strictly ascending list of its elements, which is the
  order its iterator visits. Pairs are ordered lexicographically, as Rust's tuples are.
\<close>

fun bset_insert :: "'a::linorder \<Rightarrow> 'a list \<Rightarrow> 'a list" where
  "bset_insert x [] = [x]"
| "bset_insert x (y # ys) =
     (if x < y then x # y # ys else if x = y then y # ys else y # bset_insert x ys)"

definition bset_remove :: "'a \<Rightarrow> 'a list \<Rightarrow> 'a list" where
  "bset_remove x ys = filter (\<lambda>y. y \<noteq> x) ys"

definition bset_first :: "'a list \<Rightarrow> 'a option" where
  "bset_first xs = (case xs of [] \<Rightarrow> None | x # _ \<Rightarrow> Some x)"

abbreviation bset :: "'a::linorder list \<Rightarrow> bool" where
  "bset xs \<equiv> sorted_wrt (<) xs"

lemma set_bset_insert [simp, bset_simps]: "set (bset_insert x ys) = insert x (set ys)"
  by (induction ys) auto

lemma set_bset_remove [simp, bset_simps]: "set (bset_remove x ys) = set ys - {x}"
  by (auto simp: bset_remove_def)

lemma bset_bset_insert [simp]: "bset ys \<Longrightarrow> bset (bset_insert x ys)"
  by (induction ys) auto

lemma bset_bset_remove [simp]: "bset ys \<Longrightarrow> bset (bset_remove x ys)"
  by (simp add: bset_remove_def sorted_wrt_filter)

lemma bset_distinct: "bset xs \<Longrightarrow> distinct xs"
  by (induction xs) auto

lemma bset_ext: "bset xs \<Longrightarrow> bset ys \<Longrightarrow> set xs = set ys \<Longrightarrow> xs = ys"
  by (simp add: strict_sorted_equal)

lemma bset_remove_notin [simp]: "x \<notin> set ys \<Longrightarrow> bset_remove x ys = ys"
  by (auto simp: bset_remove_def intro: filter_True)

lemma bset_insert_in [simp]: "bset ys \<Longrightarrow> x \<in> set ys \<Longrightarrow> bset_insert x ys = ys"
  by (rule bset_ext) auto

lemma bset_first_None [simp]: "bset_first xs = None \<longleftrightarrow> xs = []"
  by (simp add: bset_first_def split: list.splits)

lemma bset_first_SomeD: "bset_first xs = Some x \<Longrightarrow> x \<in> set xs"
  by (auto simp: bset_first_def split: list.splits)

lemma length_filter_mono:
  "(\<And>x. P x \<Longrightarrow> Q x) \<Longrightarrow> length (filter P xs) \<le> length (filter Q xs)"
  by (induction xs) (auto intro: le_SucI)

lemma find_SomeD: "find P xs = Some x \<Longrightarrow> x \<in> set xs \<and> P x"
  by (auto simp: find_Some_iff)

lemma fold_update_upto:
  "n \<le> length h \<Longrightarrow>
     fold (\<lambda>c h. h[c := f (h ! c)]) [0..<n] h = map f (take n h) @ drop n h"
proof (induction n)
  case (Suc n)
  then have "fold (\<lambda>c h. h[c := f (h ! c)]) [0..<Suc n] h
      = (map f (take n h) @ drop n h)[n := f ((map f (take n h) @ drop n h) ! n)]"
    by simp
  also have "\<dots> = map f (take n h) @ (drop n h)[0 := f (h ! n)]"
    using Suc.prems by (simp add: nth_append list_update_append)
  also have "\<dots> = map f (take (Suc n) h) @ drop (Suc n) h"
    using Suc.prems by (simp add: take_Suc_conv_app_nth flip: Cons_nth_drop_Suc)
  finally show ?case .
qed simp

section \<open>Ordered maps\<close>

text \<open>
  A \<open>BTreeMap\<close> is the association list of its entries with strictly ascending keys, the
  order its iterators visit; \<open>map_of\<close> is its \<open>get\<close>.
\<close>

fun bmap_put :: "'k::linorder \<Rightarrow> 'v \<Rightarrow> ('k \<times> 'v) list \<Rightarrow> ('k \<times> 'v) list" where
  "bmap_put k v [] = [(k, v)]"
| "bmap_put k v ((k', v') # m) =
     (if k < k' then (k, v) # (k', v') # m
      else if k = k' then (k, v) # m
      else (k', v') # bmap_put k v m)"

definition bmap_del :: "'k \<Rightarrow> ('k \<times> 'v) list \<Rightarrow> ('k \<times> 'v) list" where
  "bmap_del k m = filter (\<lambda>e. fst e \<noteq> k) m"

abbreviation bmap :: "('k::linorder \<times> 'v) list \<Rightarrow> bool" where
  "bmap m \<equiv> sorted_wrt (<) (map fst m)"

lemma map_of_bmap_put [simp]: "map_of (bmap_put k v m) = (map_of m)(k \<mapsto> v)"
  by (induction m) (auto simp: fun_eq_iff)

lemma map_of_bmap_del [simp]: "map_of (bmap_del k m) = (map_of m)(k := None)"
  by (induction m) (auto simp: bmap_del_def fun_eq_iff)

lemma keys_bmap_put [simp]: "fst ` set (bmap_put k v m) = insert k (fst ` set m)"
  by (simp flip: dom_map_of_conv_image_fst)

lemma bmap_bmap_put [simp]: "bmap m \<Longrightarrow> bmap (bmap_put k v m)"
proof (induction m)
  case (Cons e m)
  obtain k' v' where e: "e = (k', v')" by force
  have "bmap (bmap_put k v m)" using Cons by simp
  moreover have "\<forall>x \<in> set (map fst (bmap_put k v m)). k' < x" if "k' < k"
    using Cons.prems that by (auto simp: e)
  ultimately show ?case using Cons.prems by (auto simp: e)
qed simp

lemma bmap_bmap_del [simp]: "bmap m \<Longrightarrow> bmap (bmap_del k m)"
  by (induction m) (auto simp: bmap_del_def)

lemma bmap_in_iff: "bmap m \<Longrightarrow> (k, v) \<in> set m \<longleftrightarrow> map_of m k = Some v"
  by (simp add: map_of_eq_Some_iff bset_distinct)

section \<open>Guarded state machines\<close>

text \<open>
  Every mutating method of the code takes \<open>&mut self\<close> and returns a value or an error,
  and may have changed the state in either case. Its model is a function from a command and a
  state to a pair of result and new state. The contract below is what the clients of such a
  component rely on: the initial states are well formed and no command breaks the invariant.
\<close>

fun run_commands :: "('c \<Rightarrow> 's \<Rightarrow> 'r \<times> 's) \<Rightarrow> 'c list \<Rightarrow> 's \<Rightarrow> 'r list \<times> 's" where
  "run_commands step [] s = ([], s)"
| "run_commands step (c # cs) s =
     (let (r, s') = step c s; (rs, s'') = run_commands step cs s' in (r # rs, s''))"

lemma run_commands_append:
  "run_commands step (cs @ ds) s =
     (let (rs, s') = run_commands step cs s; (rs', s'') = run_commands step ds s'
      in (rs @ rs', s''))"
  by (induction cs arbitrary: s) (auto simp: Let_def split: prod.splits)

lemma run_commands_snoc:
  "snd (run_commands step (cs @ [c]) s) = snd (step c (snd (run_commands step cs s)))"
  by (simp add: run_commands_append Let_def case_prod_beta)

locale guarded_machine =
  fixes step :: "'c \<Rightarrow> 's \<Rightarrow> 'r \<times> 's"
    and inv :: "'s \<Rightarrow> bool"
  assumes step_inv: "inv s \<Longrightarrow> inv (snd (step c s))"
begin

lemma run_inv: "inv s \<Longrightarrow> inv (snd (run_commands step cs s))"
proof (induction cs arbitrary: s)
  case (Cons c cs)
  have "inv (snd (step c s))" using Cons.prems by (rule step_inv)
  then have "inv (snd (run_commands step cs (snd (step c s))))" by (rule Cons.IH)
  then show ?case by (simp add: Let_def case_prod_beta)
qed simp

end

text \<open>
  A machine that implements an abstract one: every step keeps the invariant, gives the answer of the
  abstract step and leaves a state that stands for the abstract state after it.
\<close>

locale refined_machine = guarded_machine cstep inv
  for cstep :: "'c \<Rightarrow> 's \<Rightarrow> 'r \<times> 's" and inv :: "'s \<Rightarrow> bool" +
  fixes astep :: "'c \<Rightarrow> 'a \<Rightarrow> 'r \<times> 'a" and abs :: "'s \<Rightarrow> 'a"
  assumes step_answer: "inv s \<Longrightarrow> fst (cstep c s) = fst (astep c (abs s))"
    and step_abs: "inv s \<Longrightarrow> abs (snd (cstep c s)) = snd (astep c (abs s))"
begin

lemma run_refines:
  "inv s \<Longrightarrow> fst (run_commands cstep cs s) = fst (run_commands astep cs (abs s)) \<and>
     abs (snd (run_commands cstep cs s)) = snd (run_commands astep cs (abs s))"
proof (induction cs arbitrary: s)
  case (Cons c cs)
  then show ?case
    using Cons.IH [OF step_inv [OF Cons.prems, of c]] step_answer [OF Cons.prems, of c] step_abs [OF Cons.prems, of c]
    by (simp add: Let_def case_prod_beta)
qed simp

end

end
