(* ===== verification/Size_Classes.thy ===== *)
theory Size_Classes
  imports Tide_Prelude
begin

text \<open>
  The size-class hints of the segment allocator: \<open>SIZE_CLASS_BOUNDARIES\<close>,
  \<open>size_class_for\<close> and \<open>SizeClassHints\<close> of the spacemap-allocator crate. A hint table has
  one ordered set of free runs per size class; a run is kept in every class whose boundary it
  reaches. The main facts: \<open>rebuild\<close> computes exactly the table that the free runs determine,
  and what the two searches guarantee of the run they return.
\<close>

type_synonym run = "nat \<times> nat"

section \<open>Definitions\<close>

definition size_class_count :: nat where
  "size_class_count = 14"

definition size_class_boundaries :: "nat list" where
  "size_class_boundaries =
     [1, 2, 4, 8, 16, 32, 64, 128, 256, 512, 1024, 2048, 4096, 8192]"

definition size_class_for :: "nat \<Rightarrow> nat" where
  "size_class_for len =
     (case find (\<lambda>(i, b). b \<le> len) (rev (enumerate 0 size_class_boundaries)) of
        None \<Rightarrow> 0
      | Some (i, b) \<Rightarrow> i)"

type_synonym size_class_hints = "run list list"

definition hints_new :: size_class_hints where
  "hints_new = replicate size_class_count []"

definition hints_insert_run :: "nat \<Rightarrow> nat \<Rightarrow> size_class_hints \<Rightarrow> size_class_hints" where
  "hints_insert_run start end' h =
     fold (\<lambda>c h. h[c := bset_insert (start, end') (h ! c)])
       [0..<Suc (size_class_for (end' - start))] h"

definition hints_rebuild :: "run list \<Rightarrow> size_class_hints \<Rightarrow> size_class_hints" where
  "hints_rebuild runs h =
     fold (\<lambda>(start, end') h. hints_insert_run start end' h) runs (map (\<lambda>_. []) h)"

definition hints_remove_run :: "nat \<Rightarrow> nat \<Rightarrow> size_class_hints \<Rightarrow> size_class_hints" where
  "hints_remove_run start end' h = map (bset_remove (start, end')) h"

fun first_hint :: "(run list \<Rightarrow> run option) \<Rightarrow> size_class_hints \<Rightarrow> nat list \<Rightarrow> run option" where
  "first_hint pick h [] = None"
| "first_hint pick h (c # cs) =
     (case pick (h ! c) of Some r \<Rightarrow> Some r | None \<Rightarrow> first_hint pick h cs)"

definition find_for_size :: "size_class_hints \<Rightarrow> nat \<Rightarrow> run option" where
  "find_for_size h min_len =
     (if min_len = 0 then None
      else first_hint bset_first h
             [size_class_for min_len..<size_class_count])"

definition find_for_size_ge :: "size_class_hints \<Rightarrow> nat \<Rightarrow> nat \<Rightarrow> run option" where
  "find_for_size_ge h min_len cursor =
     (if min_len = 0 then None
      else first_hint (find (\<lambda>r. (cursor, 0) \<le> r)) h
             [size_class_for min_len..<size_class_count])"

text \<open>The table that a set of runs determines, one filter per class.\<close>

definition hints_for :: "run list \<Rightarrow> size_class_hints" where
  "hints_for runs =
     map (\<lambda>c. filter (\<lambda>r. c \<le> size_class_for (snd r - fst r)) runs) [0..<size_class_count]"

section \<open>The size class of a length\<close>

lemma size_class_boundary_0 [simp]: "size_class_boundaries ! 0 = 1"
  by (simp add: size_class_boundaries_def)

lemma length_size_class_boundaries [simp]: "length size_class_boundaries = size_class_count"
  by (simp add: size_class_boundaries_def size_class_count_def)

lemma size_class_for_cases:
  "size_class_for len =
     (if 8192 \<le> len then 13 else if 4096 \<le> len then 12 else if 2048 \<le> len then 11
      else if 1024 \<le> len then 10 else if 512 \<le> len then 9 else if 256 \<le> len then 8
      else if 128 \<le> len then 7 else if 64 \<le> len then 6 else if 32 \<le> len then 5
      else if 16 \<le> len then 4 else if 8 \<le> len then 3 else if 4 \<le> len then 2
      else if 2 \<le> len then 1 else 0)"
  by (simp add: size_class_for_def size_class_boundaries_def)

lemma size_class_for_less [simp]: "size_class_for len < size_class_count"
  by (simp add: size_class_for_cases size_class_count_def)

lemma size_class_for_counts:
  "size_class_for len = length (filter (\<lambda>b. b \<le> len) (tl size_class_boundaries))"
  by (simp add: size_class_for_cases size_class_boundaries_def)

lemma size_class_for_mono: "a \<le> b \<Longrightarrow> size_class_for a \<le> size_class_for b"
  unfolding size_class_for_counts by (rule length_filter_mono) simp

lemma size_class_for_double:
  "1 \<le> len \<Longrightarrow> len < 8192 \<Longrightarrow> size_class_for (2 * len) = Suc (size_class_for len)"
  by (simp add: size_class_for_cases)

lemma same_class_half:
  assumes "size_class_for m \<le> size_class_for len" and "1 \<le> len" and "m < 16384"
  shows "m < 2 * len"
proof (rule ccontr)
  assume "\<not> m < 2 * len"
  then have le: "2 * len \<le> m" by simp
  then have "len < 8192" using assms(3) by simp
  then have "Suc (size_class_for len) \<le> size_class_for m"
    using size_class_for_double [OF assms(2)] size_class_for_mono [OF le] by simp
  with assms(1) show False by simp
qed

section \<open>The table is determined by the free runs\<close>

lemma length_hints_for [simp]: "length (hints_for runs) = size_class_count"
  by (simp add: hints_for_def)

lemma length_hints_new [simp]: "length hints_new = size_class_count"
  by (simp add: hints_new_def)

lemma nth_hints_for [simp]:
  "c < size_class_count \<Longrightarrow>
     hints_for runs ! c = filter (\<lambda>r. c \<le> size_class_for (snd r - fst r)) runs"
  by (simp add: hints_for_def)

lemma hints_insert_run_eq:
  assumes "length h = size_class_count"
  shows "hints_insert_run s e h =
     map (\<lambda>c. if c \<le> size_class_for (e - s) then bset_insert (s, e) (h ! c) else h ! c)
       [0..<size_class_count]"
proof -
  let ?n = "Suc (size_class_for (e - s))"
  have n: "?n \<le> length h"
    unfolding assms by (rule Suc_leI [OF size_class_for_less])
  have "hints_insert_run s e h = map (bset_insert (s, e)) (take ?n h) @ drop ?n h"
    unfolding hints_insert_run_def by (rule fold_update_upto [OF n])
  then show ?thesis
    using n assms by (auto intro!: nth_equalityI simp: nth_append)
qed

lemma length_hints_insert_run [simp]:
  "length h = size_class_count \<Longrightarrow> length (hints_insert_run s e h) = size_class_count"
  by (simp add: hints_insert_run_eq)

lemma fold_hints_insert_run:
  fixes runs :: "run list"
  assumes "length h = size_class_count" and "\<And>c. c < size_class_count \<Longrightarrow> bset (h ! c)"
  defines "g \<equiv> fold (\<lambda>(s, e) h. hints_insert_run s e h) runs h"
  shows "length g = size_class_count \<and> (\<forall>c < size_class_count. bset (g ! c) \<and>
     set (g ! c) = set (h ! c) \<union> {r \<in> set runs. c \<le> size_class_for (snd r - fst r)})"
  unfolding g_def using assms(1,2)
proof (induction runs arbitrary: h)
  case (Cons r runs)
  obtain s e where r: "r = (s, e)" by force
  let ?h = "hints_insert_run s e h"
  have len: "length ?h = size_class_count" using Cons.prems(1) by simp
  have nth: "?h ! c = (if c \<le> size_class_for (e - s) then bset_insert (s, e) (h ! c) else h ! c)"
    if "c < size_class_count" for c
    using that Cons.prems(1) by (simp add: hints_insert_run_eq)
  have sorted: "bset (?h ! c)" if "c < size_class_count" for c
    using that Cons.prems(2) by (simp add: nth)
  from Cons.IH [OF len sorted] show ?case
    by (auto simp: r nth split: if_splits)
qed simp

theorem hints_rebuild_eq:
  assumes "length h = size_class_count" and "bset runs"
  shows "hints_rebuild runs h = hints_for runs"
proof -
  let ?h = "map (\<lambda>_. []) h :: size_class_hints"
  have h: "length ?h = size_class_count" "\<And>c. c < size_class_count \<Longrightarrow> bset (?h ! c)"
    using assms(1) by simp_all
  note built = fold_hints_insert_run [OF h, of runs, folded hints_rebuild_def]
  show ?thesis
  proof (rule nth_equalityI)
    show "length (hints_rebuild runs h) = length (hints_for runs)" using built by simp
    fix c assume c: "c < length (hints_rebuild runs h)"
    with built have c: "c < size_class_count" by simp
    show "hints_rebuild runs h ! c = hints_for runs ! c"
    proof (rule bset_ext)
      show "bset (hints_rebuild runs h ! c)" using built c by blast
      show "bset (hints_for runs ! c)" using assms(2) c by (simp add: sorted_wrt_filter)
      show "set (hints_rebuild runs h ! c) = set (hints_for runs ! c)"
        using built c assms(1) by auto
    qed
  qed
qed

section \<open>What the searches return\<close>

lemma first_hint_Some:
  "first_hint pick h cs = Some r \<Longrightarrow> \<exists>c \<in> set cs. pick (h ! c) = Some r"
  by (induction cs) (auto split: option.splits)

lemma first_hint_None:
  "first_hint pick h cs = None \<longleftrightarrow> (\<forall>c \<in> set cs. pick (h ! c) = None)"
  by (induction cs) (auto split: option.splits)

lemma find_for_size_sound:
  assumes "find_for_size (hints_for runs) m = Some r"
  shows "r \<in> set runs \<and> size_class_for m \<le> size_class_for (snd r - fst r)"
proof -
  from assms obtain c where c: "size_class_for m \<le> c" "c < size_class_count"
    and "bset_first (hints_for runs ! c) = Some r"
    by (auto simp del: nth_hints_for simp: find_for_size_def split: if_splits dest!: first_hint_Some)
  then have "r \<in> set (hints_for runs ! c)" by (blast dest: bset_first_SomeD)
  with c show ?thesis by auto
qed

lemma find_for_size_ge_sound:
  assumes "find_for_size_ge (hints_for runs) m cursor = Some r"
  shows "r \<in> set runs \<and> size_class_for m \<le> size_class_for (snd r - fst r) \<and> cursor \<le> fst r"
proof -
  from assms obtain c where c: "size_class_for m \<le> c" "c < size_class_count"
    and "find (\<lambda>r. (cursor, 0) \<le> r) (hints_for runs ! c) = Some r"
    by (auto simp del: nth_hints_for simp: find_for_size_ge_def split: if_splits dest!: first_hint_Some)
  then have "r \<in> set (hints_for runs ! c)" and "(cursor, 0) \<le> r"
    by (blast dest: find_SomeD)+
  with c show ?thesis by (cases r) (auto simp: less_eq_prod_def)
qed

lemma find_for_size_complete:
  assumes "1 \<le> m" and "r \<in> set runs" and "size_class_for m \<le> size_class_for (snd r - fst r)"
  shows "find_for_size (hints_for runs) m \<noteq> None"
proof
  assume "find_for_size (hints_for runs) m = None"
  then have "\<forall>c \<in> {size_class_for m..<size_class_count}. hints_for runs ! c = []"
    using assms(1) by (auto simp del: nth_hints_for simp: find_for_size_def first_hint_None)
  moreover have "size_class_for m \<in> {size_class_for m..<size_class_count}" by simp
  ultimately have "hints_for runs ! size_class_for m = []" by blast
  with assms(2,3) show False by (simp add: filter_empty_conv)
qed

end
