(* ===== verification/Space_Map.thy ===== *)
theory Space_Map
  imports Size_Classes
begin

text \<open>
  The segment free map of the spacemap-allocator crate (\<open>SegmentFreeMap\<close>): the free
  segments of a pool as sorted, disjoint, non-adjacent half-open runs, with the cached free
  count, the dirty segment groups and the size-class hints kept beside them. Every method is a
  definition on the record of the source's fields; a method that mutates returns its result
  together with the new record, also on its error paths. A division by a zero
  \<open>segment_group_segments\<close> panics in Rust and is the error \<open>DivideByZero\<close> here. The
  floating-point statistics are left out.
\<close>

section \<open>Definitions\<close>

datatype free_map_error =
    NoFreeSegments
  | SegmentOutOfRange nat
  | AlreadyUsed nat
  | InvalidRun nat nat
  | CorruptCheckpoint
  | DivideByZero

record segment_free_map =
  segment_count :: nat
  free_runs :: "run list"
  generation :: nat
  segment_group_segments :: nat
  dirty_segment_groups :: "nat list"
  size_class_hints :: size_class_hints
  size_class_hit_count :: nat
  size_class_miss_count :: nat
  cached_free :: nat

definition default_segment_group_segments :: nat where
  "default_segment_group_segments = 4096"

definition run_total :: "run list \<Rightarrow> nat" where
  "run_total runs = sum_list (map (\<lambda>(s, e). e - s) runs)"

definition segment_group_index :: "nat \<Rightarrow> segment_free_map \<Rightarrow> free_map_error + nat" where
  "segment_group_index seg fm =
     (if segment_group_segments fm = 0 then Inl DivideByZero
      else Inr (as_u32 (seg div segment_group_segments fm)))"

definition mark_dirty :: "nat \<Rightarrow> segment_free_map \<Rightarrow> free_map_error + segment_free_map" where
  "mark_dirty seg fm =
     (case segment_group_index seg fm of
        Inl e \<Rightarrow> Inl e
      | Inr ms \<Rightarrow> Inr (fm\<lparr>dirty_segment_groups := bset_insert ms (dirty_segment_groups fm)\<rparr>))"

fun mark_dirty_all :: "nat list \<Rightarrow> segment_free_map \<Rightarrow> free_map_error + segment_free_map" where
  "mark_dirty_all [] fm = Inr fm"
| "mark_dirty_all (seg # segs) fm =
     (case mark_dirty seg fm of Inl e \<Rightarrow> Inl e | Inr fm' \<Rightarrow> mark_dirty_all segs fm')"

definition validate_run :: "nat \<Rightarrow> nat \<Rightarrow> segment_free_map \<Rightarrow> free_map_error + unit" where
  "validate_run start end' fm =
     (if start \<ge> end' \<or> end' > segment_count fm then Inl (InvalidRun start end') else Inr ())"

fun find_first_free_ge :: "run list \<Rightarrow> nat \<Rightarrow> nat option" where
  "find_first_free_ge [] m = None"
| "find_first_free_ge ((start, end') # rs) m =
     (if start \<ge> m then Some start
      else if end' > m then Some m
      else find_first_free_ge rs m)"

text \<open>The runs up to and including \<open>(seg, u64::MAX)\<close>, last first.\<close>

definition runs_upto_rev :: "nat \<Rightarrow> run list \<Rightarrow> run list" where
  "runs_upto_rev seg runs = rev (filter (\<lambda>r. r \<le> (seg, u64_max)) runs)"

fun is_free_loop :: "nat \<Rightarrow> run list \<Rightarrow> bool" where
  "is_free_loop seg [] = False"
| "is_free_loop seg ((start, end') # rs) =
     (if start \<le> seg \<and> seg < end' then True
      else if end' \<le> seg then False
      else is_free_loop seg rs)"

definition is_free :: "nat \<Rightarrow> segment_free_map \<Rightarrow> bool" where
  "is_free seg fm = is_free_loop seg (runs_upto_rev seg (free_runs fm))"

definition insert_run_merge :: "nat \<Rightarrow> nat \<Rightarrow> segment_free_map \<Rightarrow> segment_free_map" where
  "insert_run_merge start end' fm =
     (let to_remove = filter (\<lambda>(rs, re). rs \<le> end' \<and> re \<ge> start) (free_runs fm);
          (new_start, new_end, kept) =
            fold (\<lambda>(rs, re) (ns, ne, runs). (min ns rs, max ne re, bset_remove (rs, re) runs))
              to_remove (start, end', free_runs fm);
          runs = bset_insert (new_start, new_end) kept
      in fm\<lparr>free_runs := runs, cached_free := run_total runs\<rparr>)"

definition remove_from_free_runs ::
    "nat \<Rightarrow> segment_free_map \<Rightarrow> (free_map_error + unit) \<times> segment_free_map" where
  "remove_from_free_runs seg fm =
     (case find (\<lambda>(s, e). s \<le> seg \<and> seg < e) (runs_upto_rev seg (free_runs fm)) of
        None \<Rightarrow> (Inl (AlreadyUsed seg), fm)
      | Some (start, end') \<Rightarrow>
          let kept = bset_remove (start, end') (free_runs fm);
              runs =
                (if seg = start then
                   if start + 1 < end' then bset_insert (start + 1, end') kept else kept
                 else if seg = end' - 1 then
                   if start < end' - 1 then bset_insert (start, end' - 1) kept else kept
                 else bset_insert (seg + 1, end') (bset_insert (start, seg) kept))
          in (Inr (), fm\<lparr>free_runs := runs, cached_free := cached_free fm - 1\<rparr>))"

fun insert_all_runs :: "run list \<Rightarrow> segment_free_map \<Rightarrow> free_map_error + segment_free_map" where
  "insert_all_runs [] fm = Inr fm"
| "insert_all_runs ((start, end') # rs) fm =
     (case validate_run start end' fm of
        Inl e \<Rightarrow> Inl e
      | Inr _ \<Rightarrow> insert_all_runs rs (insert_run_merge start end' fm))"

definition rebuild_hints :: "segment_free_map \<Rightarrow> segment_free_map" where
  "rebuild_hints fm =
     fm\<lparr>size_class_hints := hints_rebuild (free_runs fm) (size_class_hints fm)\<rparr>"

definition fm_new :: "nat \<Rightarrow> run list \<Rightarrow> free_map_error + segment_free_map" where
  "fm_new count initial_free =
     (case insert_all_runs initial_free
        \<lparr>segment_count = count, free_runs = [], generation = 1,
         segment_group_segments = default_segment_group_segments,
         dirty_segment_groups = [], size_class_hints = hints_new,
         size_class_hit_count = 0, size_class_miss_count = 0, cached_free = 0\<rparr> of
        Inl e \<Rightarrow> Inl e
      | Inr fm \<Rightarrow> (let fm' = rebuild_hints fm in Inr (fm'\<lparr>cached_free := run_total (free_runs fm')\<rparr>)))"

definition bump_generation :: "segment_free_map \<Rightarrow> segment_free_map" where
  "bump_generation fm = fm\<lparr>generation := max (sat_add64 (generation fm) 1) 1\<rparr>"

definition do_allocate ::
    "nat \<Rightarrow> segment_free_map \<Rightarrow> (free_map_error + nat) \<times> segment_free_map" where
  "do_allocate seg fm =
     (case remove_from_free_runs seg fm of
        (Inl e, fm') \<Rightarrow> (Inl e, fm')
      | (Inr _, fm') \<Rightarrow>
          (case mark_dirty seg fm' of
             Inl e \<Rightarrow> (Inl e, fm')
           | Inr fm'' \<Rightarrow> (Inr seg, bump_generation fm'')))"

definition alloc_after ::
    "nat \<Rightarrow> segment_free_map \<Rightarrow> (free_map_error + nat) \<times> segment_free_map" where
  "alloc_after cursor fm =
     (if segment_count fm = 0 then (Inl NoFreeSegments, fm)
      else case find_first_free_ge (free_runs fm) cursor of
        Some seg \<Rightarrow> do_allocate seg fm
      | None \<Rightarrow>
          if cursor > 0 then
            (case find_first_free_ge (free_runs fm) 0 of
               Some seg \<Rightarrow> if seg < cursor then do_allocate seg fm else (Inl NoFreeSegments, fm)
             | None \<Rightarrow> (Inl NoFreeSegments, fm))
          else (Inl NoFreeSegments, fm))"

definition add_free ::
    "nat \<Rightarrow> segment_free_map \<Rightarrow> (free_map_error + unit) \<times> segment_free_map" where
  "add_free seg fm =
     (if seg \<ge> segment_count fm then (Inl (SegmentOutOfRange seg), fm)
      else if is_free seg fm then (Inr (), fm)
      else let fm' = insert_run_merge seg (sat_add64 seg 1) fm
           in case mark_dirty seg fm' of Inl e \<Rightarrow> (Inl e, fm') | Inr fm'' \<Rightarrow> (Inr (), fm''))"

definition remove_free ::
    "nat \<Rightarrow> segment_free_map \<Rightarrow> (free_map_error + unit) \<times> segment_free_map" where
  "remove_free seg fm =
     (if seg \<ge> segment_count fm then (Inl (SegmentOutOfRange seg), fm)
      else if \<not> is_free seg fm then (Inl (AlreadyUsed seg), fm)
      else case remove_from_free_runs seg fm of
        (Inl e, fm') \<Rightarrow> (Inl e, fm')
      | (Inr _, fm') \<Rightarrow>
          (case mark_dirty seg fm' of Inl e \<Rightarrow> (Inl e, fm') | Inr fm'' \<Rightarrow> (Inr (), fm'')))"

definition free_count :: "segment_free_map \<Rightarrow> nat" where
  "free_count fm = run_total (free_runs fm)"

definition free_segments :: "segment_free_map \<Rightarrow> nat" where
  "free_segments fm = cached_free fm"

definition used_segments :: "segment_free_map \<Rightarrow> nat" where
  "used_segments fm = segment_count fm - cached_free fm"

definition clear_dirty_segment_groups :: "segment_free_map \<Rightarrow> segment_free_map" where
  "clear_dirty_segment_groups fm = fm\<lparr>dirty_segment_groups := []\<rparr>"

definition free_range ::
    "nat \<Rightarrow> nat \<Rightarrow> segment_free_map \<Rightarrow> (free_map_error + unit) \<times> segment_free_map" where
  "free_range start end' fm =
     (case validate_run start end' fm of
        Inl e \<Rightarrow> (Inl e, fm)
      | Inr _ \<Rightarrow>
          let fm' = rebuild_hints (insert_run_merge start end' fm)
          in case mark_dirty_all [start..<end'] fm' of
               Inl e \<Rightarrow> (Inl e, fm')
             | Inr fm'' \<Rightarrow> (Inr (), fm''))"

definition push_run :: "run list \<Rightarrow> run \<Rightarrow> run list" where
  "push_run merged r =
     (if snd (last merged) = fst r then butlast merged @ [(fst (last merged), snd r)]
      else merged @ [r])"

definition merge_adjacent_runs :: "run list \<Rightarrow> run list" where
  "merge_adjacent_runs runs =
     (case runs of [] \<Rightarrow> [] | r # rs \<Rightarrow> foldl push_run [r] rs)"

definition coalesce :: "segment_free_map \<Rightarrow> segment_free_map" where
  "coalesce fm =
     (if length (free_runs fm) < 2 then fm
      else rebuild_hints
             (fm\<lparr>free_runs := fold bset_insert (merge_adjacent_runs (free_runs fm)) []\<rparr>))"

definition allocate ::
    "nat \<Rightarrow> nat \<Rightarrow> segment_free_map \<Rightarrow> (free_map_error + nat) \<times> segment_free_map" where
  "allocate min_size cursor fm =
     (if segment_count fm = 0 \<or> free_runs fm = [] then (Inl NoFreeSegments, fm)
      else case find_for_size_ge (size_class_hints fm) min_size cursor of
        Some (run_start, run_end) \<Rightarrow>
          let fm1 = fm\<lparr>size_class_hit_count := sat_add64 (size_class_hit_count fm) 1\<rparr>;
              seg = max run_start cursor
          in (case remove_from_free_runs seg fm1 of
                (Inl e, fm2) \<Rightarrow> (Inl e, fm2)
              | (Inr _, fm2) \<Rightarrow>
                  let fm3 = rebuild_hints fm2
                  in (case mark_dirty seg fm3 of
                        Inl e \<Rightarrow> (Inl e, fm3)
                      | Inr fm4 \<Rightarrow> (Inr seg, coalesce (bump_generation fm4))))
      | None \<Rightarrow>
          let fm1 = fm\<lparr>size_class_miss_count := sat_add64 (size_class_miss_count fm) 1\<rparr>
          in (case alloc_after cursor fm1 of
                (Inl e, fm2) \<Rightarrow> (Inl e, fm2)
              | (Inr seg, fm2) \<Rightarrow> (Inr seg, coalesce (rebuild_hints fm2))))"

definition find_free_run :: "segment_free_map \<Rightarrow> nat \<Rightarrow> run option" where
  "find_free_run fm min_len = find_for_size (size_class_hints fm) min_len"

definition find_free_run_ge :: "segment_free_map \<Rightarrow> nat \<Rightarrow> nat \<Rightarrow> run option" where
  "find_free_run_ge fm min_len cursor = find_for_size_ge (size_class_hints fm) min_len cursor"

definition remove_run_from_hints :: "nat \<Rightarrow> nat \<Rightarrow> segment_free_map \<Rightarrow> segment_free_map" where
  "remove_run_from_hints start end' fm =
     fm\<lparr>size_class_hints := hints_remove_run start end' (size_class_hints fm)\<rparr>"

section \<open>Free sets and well-formed runs\<close>

definition free_set :: "run list \<Rightarrow> nat set" where
  "free_set runs = (\<Union>(s, e) \<in> set runs. {s..<e})"

definition wf_runs :: "nat \<Rightarrow> run list \<Rightarrow> bool" where
  "wf_runs n runs \<longleftrightarrow> bset runs \<and> (\<forall>(s, e) \<in> set runs. s < e \<and> e \<le> n) \<and>
     (\<forall>r \<in> set runs. \<forall>r' \<in> set runs. r \<noteq> r' \<longrightarrow> snd r < fst r' \<or> snd r' < fst r)"

definition fm_inv :: "segment_free_map \<Rightarrow> bool" where
  "fm_inv fm \<longleftrightarrow> wf_runs (segment_count fm) (free_runs fm) \<and>
     cached_free fm = run_total (free_runs fm) \<and>
     segment_count fm \<le> u64_max \<and> 0 < segment_group_segments fm \<and>
     bset (dirty_segment_groups fm) \<and> length (size_class_hints fm) = size_class_count"

definition hints_fresh :: "segment_free_map \<Rightarrow> bool" where
  "hints_fresh fm \<longleftrightarrow> size_class_hints fm = hints_for (free_runs fm)"

lemma wf_runsD:
  assumes "wf_runs n runs" and "(s, e) \<in> set runs"
  shows "s < e" and "e \<le> n"
  using assms by (auto simp: wf_runs_def)

lemma wf_runs_gap:
  "wf_runs n runs \<Longrightarrow> r \<in> set runs \<Longrightarrow> r' \<in> set runs \<Longrightarrow> r \<noteq> r' \<Longrightarrow>
     snd r < fst r' \<or> snd r' < fst r"
  by (auto simp: wf_runs_def)

lemma wf_runs_bset: "wf_runs n runs \<Longrightarrow> bset runs"
  by (simp add: wf_runs_def)

lemma wf_runs_less:
  assumes "wf_runs n runs" and "r \<in> set runs" and "r' \<in> set runs" and "r < r'"
  shows "snd r < fst r'"
proof -
  obtain s e s' e' where r: "r = (s, e)" "r' = (s', e')" by (cases r, cases r')
  have "s' < e'" using assms(1,3) r by (auto dest: wf_runsD)
  moreover have "s \<le> s'" using assms(4) r by (auto simp: less_prod_def)
  ultimately show ?thesis using wf_runs_gap [OF assms(1-3)] assms(4) r by auto
qed

lemma wf_runs_Nil [simp]: "wf_runs n []"
  by (simp add: wf_runs_def)

lemma wf_runs_ConsD:
  assumes "wf_runs n (r # rs)"
  shows "wf_runs n rs" and "\<forall>r' \<in> set rs. snd r < fst r'" and "fst r < snd r"
proof -
  show "wf_runs n rs" using assms by (auto simp: wf_runs_def)
  show "fst r < snd r" using assms by (auto simp: wf_runs_def)
  show "\<forall>r' \<in> set rs. snd r < fst r'"
  proof
    fix r' assume "r' \<in> set rs"
    moreover from this assms have "r < r'" by (auto simp: wf_runs_def)
    ultimately show "snd r < fst r'" using wf_runs_less [OF assms] by simp
  qed
qed

lemma in_free_set: "x \<in> free_set runs \<longleftrightarrow> (\<exists>s e. (s, e) \<in> set runs \<and> s \<le> x \<and> x < e)"
  by (force simp: free_set_def)

lemma free_set_simps [simp]:
  "free_set [] = {}" "free_set (r # rs) = {fst r..<snd r} \<union> free_set rs"
  by (auto simp: free_set_def)

lemma free_set_below: "wf_runs n runs \<Longrightarrow> free_set runs \<subseteq> {..<n}"
  by (auto simp: free_set_def dest!: wf_runsD)

lemma finite_free_set [simp]: "finite (free_set runs)"
  by (induction runs) auto

lemma run_total_card: "wf_runs n runs \<Longrightarrow> run_total runs = card (free_set runs)"
proof (induction runs)
  case (Cons r rs)
  have "\<forall>r' \<in> set rs. snd r < fst r'" and "wf_runs n rs"
    using Cons.prems by (blast dest: wf_runs_ConsD)+
  then have "{fst r..<snd r} \<inter> free_set rs = {}"
    by (force simp: in_free_set)
  then have "card (free_set (r # rs)) = card {fst r..<snd r} + card (free_set rs)"
    by (simp add: card_Un_disjoint)
  with Cons.IH \<open>wf_runs n rs\<close> show ?case by (simp add: run_total_def case_prod_beta)
qed (simp add: run_total_def)

lemma run_total_le: "wf_runs n runs \<Longrightarrow> run_total runs \<le> n"
  using card_mono [OF _ free_set_below, of n runs] by (simp add: run_total_card)

section \<open>Searching the runs\<close>

lemma find_first_free_ge_Some:
  assumes "wf_runs n runs" and "find_first_free_ge runs m = Some x"
  shows "x \<in> free_set runs" and "m \<le> x" and "\<And>y. y \<in> free_set runs \<Longrightarrow> m \<le> y \<Longrightarrow> x \<le> y"
proof -
  have "x \<in> free_set runs \<and> m \<le> x \<and> (\<forall>y \<in> free_set runs. m \<le> y \<longrightarrow> x \<le> y)"
    using assms
  proof (induction runs)
    case (Cons r rs)
    obtain s e where r: "r = (s, e)" by force
    have later: "\<forall>y \<in> free_set rs. e < y"
      using wf_runs_ConsD(2) [OF Cons.prems(1)] by (force simp: in_free_set r)
    have rs: "wf_runs n rs" and se: "s < e"
      using wf_runs_ConsD [OF Cons.prems(1)] by (simp_all add: r)
    show ?case
    proof (cases "m \<le> s \<or> m < e")
      case True
      with Cons.prems(2) have x: "x = max s m" and "m < e \<or> m \<le> s"
        by (auto simp: r split: if_splits)
      with se have "x \<in> {s..<e}" by auto
      with x later show ?thesis by (auto simp: r dest: less_imp_le)
    next
      case False
      with Cons.prems(2) have "find_first_free_ge rs m = Some x" by (simp add: r)
      from Cons.IH [OF rs this] False later show ?thesis by (auto simp: r)
    qed
  qed simp
  then show "x \<in> free_set runs" and "m \<le> x"
    and "\<And>y. y \<in> free_set runs \<Longrightarrow> m \<le> y \<Longrightarrow> x \<le> y" by auto
qed

lemma find_first_free_ge_None:
  "wf_runs n runs \<Longrightarrow> find_first_free_ge runs m = None \<longleftrightarrow> (\<forall>y \<in> free_set runs. y < m)"
proof (induction runs)
  case (Cons r rs)
  obtain s e where r: "r = (s, e)" by force
  have "wf_runs n rs" and "s < e"
    using wf_runs_ConsD [OF Cons.prems] by (simp_all add: r)
  show ?case
  proof (cases "m \<le> s \<or> m < e")
    case True
    with \<open>s < e\<close> have "max s m \<in> free_set (r # rs)" by (auto simp: r)
    then have "\<not> (\<forall>y \<in> free_set (r # rs). y < m)" by (meson max.cobounded2 not_le)
    with True show ?thesis by (auto simp: r)
  next
    case False
    with Cons.IH [OF \<open>wf_runs n rs\<close>] show ?thesis by (auto simp: r)
  qed
qed simp

lemma set_runs_upto_rev:
  assumes "wf_runs n runs" and "n \<le> u64_max"
  shows "set (runs_upto_rev seg runs) = {r \<in> set runs. fst r \<le> seg}"
  using assms by (fastforce simp: runs_upto_rev_def less_eq_prod_def dest: wf_runsD(2))

lemma find_upto_rev_None:
  assumes "wf_runs n runs" and "n \<le> u64_max"
  shows "find (\<lambda>(s, e). s \<le> seg \<and> seg < e) (runs_upto_rev seg runs) = None \<longleftrightarrow>
    seg \<notin> free_set runs"
  by (auto simp: find_None_iff set_runs_upto_rev [OF assms] in_free_set)

lemma is_free_iff:
  assumes "wf_runs n runs" and "n \<le> u64_max"
  shows "is_free_loop seg (runs_upto_rev seg runs) \<longleftrightarrow> seg \<in> free_set runs"
proof (cases "runs_upto_rev seg runs")
  case Nil
  then have "\<forall>r \<in> set runs. \<not> fst r \<le> seg"
    using set_runs_upto_rev [OF assms, of seg] by auto
  with Nil show ?thesis by (force simp: in_free_set)
next
  case (Cons r rest)
  obtain s e where r: "r = (s, e)" by force
  have "r \<in> {r \<in> set runs. fst r \<le> seg}"
    unfolding set_runs_upto_rev [OF assms, symmetric] Cons by simp
  then have mem: "r \<in> set runs" "s \<le> seg" using r by auto
  have biggest: "r' \<le> r" if "r' \<in> set runs" "fst r' \<le> seg" for r'
  proof -
    have "r' \<in> set (r # rest)"
      using that set_runs_upto_rev [OF assms, of seg] Cons by auto
    moreover have "bset (rev (r # rest))"
      using Cons assms(1) by (simp add: runs_upto_rev_def sorted_wrt_filter wf_runs_bset flip: Cons)
    ultimately show ?thesis by (auto simp: sorted_wrt_append)
  qed
  have "seg < e" if "seg \<in> free_set runs"
  proof -
    from that obtain s' e' where r': "(s', e') \<in> set runs" "s' \<le> seg" "seg < e'"
      by (auto simp: in_free_set)
    show ?thesis
    proof (cases "(s', e') = r")
      case False
      with biggest [of "(s', e')"] r' have "(s', e') < r" by auto
      from wf_runs_less [OF assms(1) r'(1) mem(1) this] r' mem r show ?thesis by simp
    qed (use r r' in auto)
  qed
  then show ?thesis using Cons mem by (auto simp: r in_free_set)
qed

section \<open>Removing and inserting runs\<close>

text \<open>
  One run of a well-formed set may be replaced by pieces of itself as long as the pieces keep a
  gap between them.
\<close>

lemma wf_runs_replace:
  assumes wf: "wf_runs n runs" and r: "(s, e) \<in> set runs"
    and sorted: "bset runs'" and runs': "set runs' = (set runs - {(s, e)}) \<union> P"
    and within: "\<And>a b. (a, b) \<in> P \<Longrightarrow> s \<le> a \<and> a < b \<and> b \<le> e"
    and gaps: "\<And>p q. p \<in> P \<Longrightarrow> q \<in> P \<Longrightarrow> p \<noteq> q \<Longrightarrow> snd p < fst q \<or> snd q < fst p"
  shows "wf_runs n runs'"
proof -
  have bounds: "a < b \<and> b \<le> n" if "(a, b) \<in> set runs'" for a b
    using that wf r within [of a b] by (auto simp: runs' dest: wf_runsD)
  have gap: "snd p < fst q \<or> snd q < fst p"
    if "p \<in> set runs" "p \<noteq> (s, e)" "q \<in> P" for p q
    using wf_runs_gap [OF wf that(1) r that(2)] within [of "fst q" "snd q"] that(3) by auto
  have "snd p < fst q \<or> snd q < fst p" if "p \<in> set runs'" "q \<in> set runs'" "p \<noteq> q" for p q
    using that wf_runs_gap [OF wf _ _ that(3)] gap [of p q] gap [of q p] gaps [of p q]
    by (auto simp: runs')
  with bounds sorted show ?thesis by (auto simp: wf_runs_def)
qed

lemma free_set_replace:
  assumes wf: "wf_runs n runs" and r: "(s, e) \<in> set runs"
    and runs': "set runs' = (set runs - {(s, e)}) \<union> P"
    and P: "(\<Union>(a, b) \<in> P. {a..<b}) = {s..<e} - {seg}" and seg: "s \<le> seg" "seg < e"
  shows "free_set runs' = free_set runs - {seg}"
proof -
  have others: "seg \<notin> {fst p..<snd p}" if "p \<in> set runs - {(s, e)}" for p
    using wf_runs_gap [OF wf, of p "(s, e)"] that r seg by auto
  have "free_set runs' = (\<Union>p \<in> set runs - {(s, e)}. {fst p..<snd p}) \<union> ({s..<e} - {seg})"
    unfolding P [symmetric] by (simp add: free_set_def runs' case_prod_beta)
  also have "\<dots> = (\<Union>p \<in> insert (s, e) (set runs - {(s, e)}). {fst p..<snd p}) - {seg}"
    using others by (simp only: UN_insert fst_conv snd_conv) blast
  also have "\<dots> = free_set runs - {seg}"
    unfolding insert_Diff [OF r] by (simp add: free_set_def case_prod_beta)
  finally show ?thesis .
qed

lemma remove_from_free_runs_used:
  assumes "fm_inv fm" and "seg \<notin> free_set (free_runs fm)"
  shows "remove_from_free_runs seg fm = (Inl (AlreadyUsed seg), fm)"
proof -
  have "find (\<lambda>(s, e). s \<le> seg \<and> seg < e) (runs_upto_rev seg (free_runs fm)) = None"
    using assms find_upto_rev_None by (auto simp: fm_inv_def)
  then show ?thesis by (simp add: remove_from_free_runs_def)
qed

lemma remove_from_free_runs_free:
  assumes inv: "fm_inv fm" and free: "seg \<in> free_set (free_runs fm)"
  obtains runs where "remove_from_free_runs seg fm =
      (Inr (), fm\<lparr>free_runs := runs, cached_free := cached_free fm - 1\<rparr>)"
    and "wf_runs (segment_count fm) runs" and "free_set runs = free_set (free_runs fm) - {seg}"
proof -
  let ?R = "free_runs fm"
  have wf: "wf_runs (segment_count fm) ?R" using inv by (simp add: fm_inv_def)
  then have sorted: "bset ?R" by (rule wf_runs_bset)
  obtain s e where found: "find (\<lambda>(s, e). s \<le> seg \<and> seg < e) (runs_upto_rev seg ?R) = Some (s, e)"
    using find_upto_rev_None [OF wf, of seg] free inv
    by (cases "find (\<lambda>(s, e). s \<le> seg \<and> seg < e) (runs_upto_rev seg ?R)") (auto simp: fm_inv_def)
  then have r: "(s, e) \<in> set ?R" and seg: "s \<le> seg" "seg < e"
    by (auto simp: runs_upto_rev_def dest!: find_SomeD)
  define P where "P = (if s < seg then {(s, seg)} else {}) \<union> (if seg + 1 < e then {(seg + 1, e)} else {})"
  define kept where "kept = bset_remove (s, e) ?R"
  define runs where "runs =
      (if seg = s then if s + 1 < e then bset_insert (s + 1, e) kept else kept
       else if seg = e - 1 then if s < e - 1 then bset_insert (s, e - 1) kept else kept
       else bset_insert (seg + 1, e) (bset_insert (s, seg) kept))"
  have runs: "bset runs" "set runs = (set ?R - {(s, e)}) \<union> P"
    using seg sorted by (auto simp: runs_def kept_def P_def)
  have "(\<Union>(a, b) \<in> P. {a..<b}) = {s..<e} - {seg}"
    using seg by (auto simp: P_def)
  then have "free_set runs = free_set ?R - {seg}"
    by (rule free_set_replace [OF wf r runs(2) _ seg])
  moreover have "wf_runs (segment_count fm) runs"
    by (rule wf_runs_replace [OF wf r runs]) (use seg in \<open>auto simp: P_def split: if_splits\<close>)
  moreover have "remove_from_free_runs seg fm =
      (Inr (), fm\<lparr>free_runs := runs, cached_free := cached_free fm - 1\<rparr>)"
    by (simp add: remove_from_free_runs_def found runs_def kept_def Let_def)
  ultimately show ?thesis using that by blast
qed

lemma fold_absorb:
  "fold (\<lambda>(rs, re) (ns, ne, runs). (min ns rs, max ne re, bset_remove (rs, re) runs))
     ts (ns :: nat, ne :: nat, runs) =
   (Min (insert ns (fst ` set ts)), Max (insert ne (snd ` set ts)), filter (\<lambda>r. r \<notin> set ts) runs)"
proof (induction ts arbitrary: ns ne runs)
  case (Cons t ts)
  obtain a b where t: "t = (a, b)" by force
  have *: "filter (\<lambda>r. r \<notin> set ts) (bset_remove t runs) = filter (\<lambda>r. r \<notin> set (t # ts)) runs"
    by (auto simp: bset_remove_def intro: filter_cong)
  have "Min (insert (min ns a) (fst ` set ts)) = Min (insert ns (insert a (fst ` set ts)))"
    "Max (insert (max ne b) (snd ` set ts)) = Max (insert ne (insert b (snd ` set ts)))"
    by (cases "ts = []"; simp add: min.assoc max.assoc)+
  with Cons.IH [of "min ns a" "max ne b" "bset_remove t runs"] * show ?case
    by (simp add: t)
qed simp

text \<open>
  The hull of a run \<open>[a, b)\<close> and the runs \<open>T\<close> that touch it: its bounds, its elements, and
  its distance to a run that touches neither.
\<close>

lemma hull_start:
  fixes a :: nat
  assumes "finite T"
  defines "ns \<equiv> Min (insert a (fst ` T))"
  shows "ns \<le> a" and "\<And>r. r \<in> T \<Longrightarrow> ns \<le> fst r" and "ns = a \<or> (\<exists>r \<in> T. ns = fst r)"
  using assms(1) Min_in [of "insert a (fst ` T)"] by (auto simp: ns_def)

lemma hull_end:
  fixes b :: nat
  assumes "finite T"
  defines "ne \<equiv> Max (insert b (snd ` T))"
  shows "b \<le> ne" and "\<And>r. r \<in> T \<Longrightarrow> snd r \<le> ne" and "ne = b \<or> (\<exists>r \<in> T. ne = snd r)"
  using assms(1) Max_in [of "insert b (snd ` T)"] by (auto simp: ne_def)

lemma hull_union:
  fixes a b :: nat
  assumes T: "finite T" and touch: "\<And>r. r \<in> T \<Longrightarrow> fst r \<le> b \<and> a \<le> snd r"
  shows "{Min (insert a (fst ` T))..<Max (insert b (snd ` T))} = {a..<b} \<union> (\<Union>r \<in> T. {fst r..<snd r})"
    (is "{?ns..<?ne} = ?U")
proof
  note ns = hull_start [OF T, where a = a] and ne = hull_end [OF T, where b = b]
  show "?U \<subseteq> {?ns..<?ne}"
    using ns(1,2) ne(1,2) by (intro Un_least UN_least) (simp_all del: Min_le_iff Max_ge_iff)
  show "{?ns..<?ne} \<subseteq> ?U"
  proof
    fix x assume x: "x \<in> {?ns..<?ne}"
    consider "x < a" | "x \<in> {a..<b}" | "b \<le> x" by fastforce
    then show "x \<in> ?U"
    proof cases
      case 1
      with x ns(3) obtain r where r: "r \<in> T" "?ns = fst r" by auto
      with 1 x touch have "x \<in> {fst r..<snd r}" by fastforce
      with r(1) show ?thesis by blast
    next
      case 3
      with x ne(3) obtain r where r: "r \<in> T" "?ne = snd r" by auto
      with 3 x touch have "x \<in> {fst r..<snd r}" by fastforce
      with r(1) show ?thesis by blast
    qed blast
  qed
qed

lemma hull_apart:
  fixes a b :: nat and p :: run
  assumes T: "finite T" and touch: "\<And>r. r \<in> T \<Longrightarrow> fst r \<le> b \<and> a \<le> snd r"
    and p: "fst p < snd p" "snd p < a \<or> b < fst p"
    and gap: "\<And>r. r \<in> T \<Longrightarrow> snd p < fst r \<or> snd r < fst p"
  shows "snd p < Min (insert a (fst ` T)) \<or> Max (insert b (snd ` T)) < fst p"
  using p(2)
proof
  assume low: "snd p < a"
  have "snd p < fst r" if "r \<in> T" for r
    using gap [OF that] touch [OF that] p(1) low by linarith
  with low hull_start(3) [OF T, where a = a] show ?thesis by auto
next
  assume high: "b < fst p"
  have "snd r < fst p" if "r \<in> T" for r
    using gap [OF that] touch [OF that] p(1) high by linarith
  with high hull_end(3) [OF T, where b = b] show ?thesis by auto
qed

lemma insert_run_merge_spec:
  assumes wf: "wf_runs n (free_runs fm)" and valid: "start < end'" "end' \<le> n"
  obtains runs where
      "insert_run_merge start end' fm = fm\<lparr>free_runs := runs, cached_free := run_total runs\<rparr>"
    and "wf_runs n runs" and "free_set runs = free_set (free_runs fm) \<union> {start..<end'}"
proof -
  let ?R = "free_runs fm"
  define T where "T = set (filter (\<lambda>(rs, re). rs \<le> end' \<and> start \<le> re) ?R)"
  define ns where "ns = Min (insert start (fst ` T))"
  define ne where "ne = Max (insert end' (snd ` T))"
  define runs where "runs = bset_insert (ns, ne) (filter (\<lambda>r. r \<notin> T) ?R)"
  have fin: "finite T" and sub: "T \<subseteq> set ?R" and touch: "\<And>r. r \<in> T \<Longrightarrow> fst r \<le> end' \<and> start \<le> snd r"
    by (auto simp: T_def)
  have runs: "bset runs" "set runs = insert (ns, ne) (set ?R - T)"
    using wf by (auto simp: runs_def wf_runs_bset sorted_wrt_filter)
  have apart: "snd p < ns \<or> ne < fst p" if p: "p \<in> set ?R - T" for p
    unfolding ns_def ne_def
  proof (rule hull_apart [OF fin touch])
    show "fst p < snd p" using p wf by (cases p) (auto dest: wf_runsD)
    show "snd p < start \<or> end' < fst p" using p by (cases p) (auto simp: T_def)
    show "snd p < fst r \<or> snd r < fst p" if "r \<in> T" for r
      using wf_runs_gap [OF wf, of p r] p that sub by auto
  qed
  have "ne \<le> n"
    using hull_end(3) [OF fin, where b = end'] valid(2) wf sub unfolding ne_def [symmetric]
    by (auto dest: wf_runsD)
  moreover have "ns < ne"
    using hull_start(1) [OF fin, where a = start] hull_end(1) [OF fin, where b = end'] valid(1)
    unfolding ns_def [symmetric] ne_def [symmetric] by linarith
  ultimately have bounds: "\<forall>(s, e) \<in> set runs. s < e \<and> e \<le> n"
    using wf by (auto simp: runs(2) dest: wf_runsD)
  have gaps: "snd r < fst r' \<or> snd r' < fst r" if "r \<in> set runs" "r' \<in> set runs" "r \<noteq> r'" for r r'
    using that apart [of r] apart [of r'] wf_runs_gap [OF wf _ _ that(3)] by (auto simp: runs(2))
  have all: "set ?R = (set ?R - T) \<union> T" using sub by blast
  have split: "free_set ?R = (\<Union>r \<in> set ?R - T. {fst r..<snd r}) \<union> (\<Union>r \<in> T. {fst r..<snd r})"
    unfolding UN_Un [symmetric] all [symmetric] by (simp add: free_set_def case_prod_beta)
  have "free_set runs = {ns..<ne} \<union> (\<Union>r \<in> set ?R - T. {fst r..<snd r})"
    by (simp add: free_set_def runs(2) case_prod_beta)
  then have "free_set runs = free_set ?R \<union> {start..<end'}"
    using hull_union [OF fin touch] unfolding split ns_def ne_def by (simp only: Un_ac)
  moreover have "wf_runs n runs"
    unfolding wf_runs_def by (intro conjI runs(1) bounds ballI impI gaps)
  moreover have "insert_run_merge start end' fm = fm\<lparr>free_runs := runs, cached_free := run_total runs\<rparr>"
    unfolding insert_run_merge_def fold_absorb Let_def prod.case T_def [symmetric]
    by (simp only: runs_def ns_def ne_def)
  ultimately show ?thesis using that by blast
qed

text \<open>The runs are a canonical form: a free set has one well-formed list of runs.\<close>

lemma wf_runs_head:
  assumes "wf_runs n (r # rs)"
  shows "fst r \<in> free_set (r # rs)" and "\<And>x. x \<in> free_set (r # rs) \<Longrightarrow> fst r \<le> x"
    and "snd r \<notin> free_set (r # rs)" and "{fst r..<snd r} \<subseteq> free_set (r # rs)"
    and "free_set rs = free_set (r # rs) - {..snd r}"
proof -
  have later: "snd r < x" if "x \<in> free_set rs" for x
    using wf_runs_ConsD(2) [OF assms] that by (force simp: in_free_set)
  note r = wf_runs_ConsD(3) [OF assms]
  show "fst r \<in> free_set (r # rs)" using r by simp
  show "fst r \<le> x" if "x \<in> free_set (r # rs)" for x
    using that later r by (auto dest!: later)
  show "snd r \<notin> free_set (r # rs)" using later by auto
  show "{fst r..<snd r} \<subseteq> free_set (r # rs)" by simp
  show "free_set rs = free_set (r # rs) - {..snd r}" using later by (auto dest: later)
qed

lemma wf_runs_canonical:
  "wf_runs n xs \<Longrightarrow> wf_runs m ys \<Longrightarrow> free_set xs = free_set ys \<Longrightarrow> xs = ys"
proof (induction xs arbitrary: ys)
  case Nil
  then show ?case by (cases ys) (auto dest: wf_runs_ConsD)
next
  case (Cons x xs)
  note x = wf_runs_head [OF Cons.prems(1)]
  obtain y ys' where ys: "ys = y # ys'"
    using Cons.prems(3) x(1) by (cases ys) auto
  note y = wf_runs_head [OF Cons.prems(2) [unfolded ys]]
  have eq: "free_set (x # xs) = free_set (y # ys')" using Cons.prems(3) ys by simp
  have "fst x \<le> fst y" using x(2) [of "fst y"] y(1) by (simp only: eq)
  moreover have "fst y \<le> fst x" using y(2) [of "fst x"] x(1) by (simp only: eq)
  ultimately have fst: "fst x = fst y" by simp
  have "\<not> snd x < snd y" using x(3) y(4) wf_runs_ConsD(3) [OF Cons.prems(1)] fst eq by auto
  moreover have "\<not> snd y < snd x"
    using y(3) x(4) wf_runs_ConsD(3) [OF Cons.prems(2) [unfolded ys]] fst eq by auto
  ultimately have "x = y" using fst by (simp add: prod_eq_iff)
  moreover have "xs = ys'"
  proof (rule Cons.IH)
    show "wf_runs n xs" "wf_runs m ys'"
      using wf_runs_ConsD(1) Cons.prems(1,2) ys by blast+
    have "free_set xs = free_set (y # ys') - {..snd y}"
      by (rule trans [OF x(5)]) (simp only: eq \<open>x = y\<close> [symmetric])
    then show "free_set xs = free_set ys'" using y(5) by (rule trans [OF _ sym])
  qed
  ultimately show ?case by (simp add: ys)
qed

end
