(* ===== verification/Space_Alloc.thy ===== *)
theory Space_Alloc
  imports Space_Map
begin

text \<open>
  What the operations of the segment free map do to the set of free segments, stated over the
  definitions of \<open>Space_Map\<close>: allocation takes the next free segment after the cursor and never
  one that is in use, freeing returns exactly the given segments, every operation keeps the
  invariant, and the cached count is the number of free segments. The interface
  \<open>segment_allocator\<close> is what the rest of the system relies on; it is interpreted on both
  allocation paths of the code.
\<close>

abbreviation fm_free :: "segment_free_map \<Rightarrow> nat set" where
  "fm_free fm \<equiv> free_set (free_runs fm)"

section \<open>Frame lemmas\<close>

lemma mark_dirty_ok:
  assumes "0 < segment_group_segments fm"
  shows "mark_dirty seg fm = Inr (fm\<lparr>dirty_segment_groups :=
     bset_insert (as_u32 (seg div segment_group_segments fm)) (dirty_segment_groups fm)\<rparr>)"
  using assms by (simp add: mark_dirty_def segment_group_index_def)

lemma mark_dirty_all_ok:
  "0 < segment_group_segments fm \<Longrightarrow>
     mark_dirty_all segs fm = Inr (fm\<lparr>dirty_segment_groups :=
       fold (\<lambda>seg. bset_insert (as_u32 (seg div segment_group_segments fm))) segs
         (dirty_segment_groups fm)\<rparr>)"
  by (induction segs arbitrary: fm) (simp_all add: mark_dirty_ok)

lemma bset_fold_insert: "bset ys \<Longrightarrow> bset (fold (\<lambda>x. bset_insert (f x)) xs ys)"
  by (induction xs arbitrary: ys) simp_all

lemma fm_inv_dirty [simp]:
  "fm_inv fm \<Longrightarrow> bset d \<Longrightarrow> fm_inv (fm\<lparr>dirty_segment_groups := d\<rparr>)"
  by (simp add: fm_inv_def)

lemma fm_inv_bump [simp]: "fm_inv (bump_generation fm) = fm_inv fm"
  by (simp add: fm_inv_def bump_generation_def)

lemma bump_generation_simps [simp]:
  "free_runs (bump_generation fm) = free_runs fm"
  "segment_count (bump_generation fm) = segment_count fm"
  "size_class_hints (bump_generation fm) = size_class_hints fm"
  "cached_free (bump_generation fm) = cached_free fm"
  "dirty_segment_groups (bump_generation fm) = dirty_segment_groups fm"
  "segment_group_segments (bump_generation fm) = segment_group_segments fm"
  by (simp_all add: bump_generation_def)

lemma fm_invD:
  assumes "fm_inv fm"
  shows "wf_runs (segment_count fm) (free_runs fm)" and "segment_count fm \<le> u64_max"
    and "0 < segment_group_segments fm" and "bset (dirty_segment_groups fm)"
    and "length (size_class_hints fm) = size_class_count"
    and "cached_free fm = run_total (free_runs fm)"
  using assms by (simp_all add: fm_inv_def)

lemma rebuild_hints_eq:
  "fm_inv fm \<Longrightarrow> rebuild_hints fm = fm\<lparr>size_class_hints := hints_for (free_runs fm)\<rparr>"
  unfolding rebuild_hints_def by (simp add: hints_rebuild_eq [OF fm_invD(5) wf_runs_bset [OF fm_invD(1)]])

lemma fm_inv_rebuild [simp]: "fm_inv fm \<Longrightarrow> fm_inv (rebuild_hints fm)"
  by (simp add: rebuild_hints_eq) (simp add: fm_inv_def)

lemma hints_fresh_rebuild [simp]: "fm_inv fm \<Longrightarrow> hints_fresh (rebuild_hints fm)"
  by (simp add: rebuild_hints_eq hints_fresh_def)

lemma rebuild_hints_simps [simp]:
  "free_runs (rebuild_hints fm) = free_runs fm"
  "segment_count (rebuild_hints fm) = segment_count fm"
  "cached_free (rebuild_hints fm) = cached_free fm"
  "generation (rebuild_hints fm) = generation fm"
  "dirty_segment_groups (rebuild_hints fm) = dirty_segment_groups fm"
  "segment_group_segments (rebuild_hints fm) = segment_group_segments fm"
  by (simp_all add: rebuild_hints_def)

lemma cached_free_card: "fm_inv fm \<Longrightarrow> cached_free fm = card (fm_free fm)"
  by (simp add: fm_invD(6) run_total_card [OF fm_invD(1)])

lemma is_free_correct: "fm_inv fm \<Longrightarrow> is_free seg fm \<longleftrightarrow> seg \<in> fm_free fm"
  by (simp add: is_free_def is_free_iff [OF fm_invD(1,2)])

text \<open>Removing one free segment keeps the invariant, hints aside.\<close>

lemma remove_inv:
  assumes inv: "fm_inv fm" and free: "seg \<in> fm_free fm"
  obtains runs where "remove_from_free_runs seg fm =
      (Inr (), fm\<lparr>free_runs := runs, cached_free := cached_free fm - 1\<rparr>)"
    and "fm_inv (fm\<lparr>free_runs := runs, cached_free := cached_free fm - 1\<rparr>)"
    and "free_set runs = fm_free fm - {seg}"
proof -
  obtain runs where r: "remove_from_free_runs seg fm =
      (Inr (), fm\<lparr>free_runs := runs, cached_free := cached_free fm - 1\<rparr>)"
    "wf_runs (segment_count fm) runs" "free_set runs = fm_free fm - {seg}"
    using remove_from_free_runs_free [OF inv free] by blast
  have "run_total runs = cached_free fm - 1"
    using free by (simp add: run_total_card [OF r(2)] r(3) cached_free_card [OF inv])
  with r(2) inv have "fm_inv (fm\<lparr>free_runs := runs, cached_free := cached_free fm - 1\<rparr>)"
    by (simp add: fm_inv_def)
  with r that show ?thesis by blast
qed

lemma insert_inv:
  assumes inv: "fm_inv fm" and valid: "start < end'" "end' \<le> segment_count fm"
  obtains runs where "insert_run_merge start end' fm =
      fm\<lparr>free_runs := runs, cached_free := run_total runs\<rparr>"
    and "fm_inv (fm\<lparr>free_runs := runs, cached_free := run_total runs\<rparr>)"
    and "free_set runs = fm_free fm \<union> {start..<end'}"
proof -
  obtain runs where "insert_run_merge start end' fm =
      fm\<lparr>free_runs := runs, cached_free := run_total runs\<rparr>"
    "wf_runs (segment_count fm) runs" "free_set runs = fm_free fm \<union> {start..<end'}"
    using insert_run_merge_spec [OF fm_invD(1) [OF inv] valid] by blast
  with inv that show ?thesis by (simp add: fm_inv_def)
qed

section \<open>Allocation\<close>

lemma do_allocate_ok:
  assumes inv: "fm_inv fm" and free: "seg \<in> fm_free fm"
  obtains fm' where "do_allocate seg fm = (Inr seg, fm')" and "fm_inv fm'"
    and "fm_free fm' = fm_free fm - {seg}" and "segment_count fm' = segment_count fm"
proof -
  obtain runs where r: "remove_from_free_runs seg fm =
      (Inr (), fm\<lparr>free_runs := runs, cached_free := cached_free fm - 1\<rparr>)"
    "fm_inv (fm\<lparr>free_runs := runs, cached_free := cached_free fm - 1\<rparr>)"
    "free_set runs = fm_free fm - {seg}"
    using remove_inv [OF inv free] by blast
  let ?fm = "fm\<lparr>free_runs := runs, cached_free := cached_free fm - 1\<rparr>"
  have "do_allocate seg fm = (Inr seg, bump_generation (?fm\<lparr>dirty_segment_groups :=
      bset_insert (as_u32 (seg div segment_group_segments fm)) (dirty_segment_groups fm)\<rparr>))"
    using fm_invD(3) [OF inv] by (simp add: do_allocate_def r(1) mark_dirty_ok)
  moreover have "fm_inv (?fm\<lparr>dirty_segment_groups :=
      bset_insert (as_u32 (seg div segment_group_segments fm)) (dirty_segment_groups fm)\<rparr>)"
    by (rule fm_inv_dirty [OF r(2)]) (simp add: fm_invD(4) [OF inv])
  ultimately show ?thesis using that r(3) by simp
qed

text \<open>The segment an allocation with cursor \<open>c\<close> must return: the next one, wrapping around.\<close>

definition next_free :: "nat set \<Rightarrow> nat \<Rightarrow> nat \<Rightarrow> bool" where
  "next_free F c seg \<longleftrightarrow> seg \<in> F \<and>
     (if \<exists>y \<in> F. c \<le> y then c \<le> seg \<and> (\<forall>y \<in> F. c \<le> y \<longrightarrow> seg \<le> y) else (\<forall>y \<in> F. seg \<le> y))"

lemma alloc_after_full:
  assumes "fm_inv fm" and "fm_free fm = {}"
  shows "alloc_after cursor fm = (Inl NoFreeSegments, fm)"
  using assms find_first_free_ge_None [OF fm_invD(1) [OF assms(1)]]
  by (simp add: alloc_after_def)

lemma alloc_after_free:
  assumes inv: "fm_inv fm" and "fm_free fm \<noteq> {}"
  obtains seg fm' where "alloc_after cursor fm = (Inr seg, fm')" and "fm_inv fm'"
    and "next_free (fm_free fm) cursor seg" and "fm_free fm' = fm_free fm - {seg}"
    and "segment_count fm' = segment_count fm"
proof -
  note wf = fm_invD(1) [OF inv]
  have count: "segment_count fm \<noteq> 0" using assms(2) free_set_below [OF wf] by auto
  have "\<exists>seg. next_free (fm_free fm) cursor seg \<and> alloc_after cursor fm = do_allocate seg fm"
  proof (cases "find_first_free_ge (free_runs fm) cursor")
    case (Some seg)
    note seg = find_first_free_ge_Some [OF wf Some]
    then have "next_free (fm_free fm) cursor seg" by (auto simp: next_free_def)
    with Some count show ?thesis by (auto simp: alloc_after_def)
  next
    case None
    then have below: "\<forall>y \<in> fm_free fm. y < cursor" by (simp add: find_first_free_ge_None [OF wf])
    then have "find_first_free_ge (free_runs fm) 0 \<noteq> None" and pos: "0 < cursor"
      using assms(2) by (auto simp: find_first_free_ge_None [OF wf])
    then obtain seg where seg: "find_first_free_ge (free_runs fm) 0 = Some seg" by blast
    note least = find_first_free_ge_Some [OF wf seg]
    have "next_free (fm_free fm) cursor seg"
      using least below by (auto simp: next_free_def dest: leD)
    moreover have "alloc_after cursor fm = do_allocate seg fm"
      using None seg pos count below least(1) by (simp add: alloc_after_def)
    ultimately show ?thesis by blast
  qed
  then obtain seg where "next_free (fm_free fm) cursor seg"
    and "alloc_after cursor fm = do_allocate seg fm" by blast
  moreover from this have "seg \<in> fm_free fm" by (simp add: next_free_def)
  ultimately show ?thesis using that by (auto elim: do_allocate_ok [OF inv])
qed

section \<open>Freeing and reserving single segments and ranges\<close>

lemma add_free_new:
  assumes inv: "fm_inv fm" and seg: "seg < segment_count fm" "seg \<notin> fm_free fm"
  obtains fm' where "add_free seg fm = (Inr (), fm')" and "fm_inv fm'"
    and "fm_free fm' = insert seg (fm_free fm)" and "segment_count fm' = segment_count fm"
proof -
  have succ: "sat_add64 seg (Suc 0) = Suc seg"
    using seg(1) fm_invD(2) [OF inv] by (simp add: machine_simps)
  obtain runs where r: "insert_run_merge seg (Suc seg) fm =
      fm\<lparr>free_runs := runs, cached_free := run_total runs\<rparr>"
    "fm_inv (fm\<lparr>free_runs := runs, cached_free := run_total runs\<rparr>)"
    "free_set runs = fm_free fm \<union> {seg..<Suc seg}"
    using insert_inv [OF inv, of seg "Suc seg"] seg by auto
  let ?fm = "fm\<lparr>free_runs := runs, cached_free := run_total runs\<rparr>"
  let ?d = "bset_insert (as_u32 (seg div segment_group_segments fm)) (dirty_segment_groups fm)"
  have "add_free seg fm = (Inr (), ?fm\<lparr>dirty_segment_groups := ?d\<rparr>)"
    using seg fm_invD(3) [OF inv]
    by (simp add: add_free_def is_free_correct [OF inv] succ r(1) mark_dirty_ok Let_def)
  moreover have "fm_inv (?fm\<lparr>dirty_segment_groups := ?d\<rparr>)"
    by (rule fm_inv_dirty [OF r(2)]) (simp add: fm_invD(4) [OF inv])
  ultimately show ?thesis using that r(3) by simp
qed

lemma add_free_already:
  "fm_inv fm \<Longrightarrow> seg < segment_count fm \<Longrightarrow> seg \<in> fm_free fm \<Longrightarrow> add_free seg fm = (Inr (), fm)"
  by (simp add: add_free_def is_free_correct)

lemma remove_free_ok:
  assumes inv: "fm_inv fm" and seg: "seg \<in> fm_free fm"
  obtains fm' where "remove_free seg fm = (Inr (), fm')" and "fm_inv fm'"
    and "fm_free fm' = fm_free fm - {seg}" and "segment_count fm' = segment_count fm"
proof -
  have below: "seg < segment_count fm"
    using seg free_set_below [OF fm_invD(1) [OF inv]] by auto
  obtain runs where r: "remove_from_free_runs seg fm =
      (Inr (), fm\<lparr>free_runs := runs, cached_free := cached_free fm - 1\<rparr>)"
    "fm_inv (fm\<lparr>free_runs := runs, cached_free := cached_free fm - 1\<rparr>)"
    "free_set runs = fm_free fm - {seg}"
    using remove_inv [OF inv seg] by blast
  let ?fm = "fm\<lparr>free_runs := runs, cached_free := cached_free fm - 1\<rparr>"
  let ?d = "bset_insert (as_u32 (seg div segment_group_segments fm)) (dirty_segment_groups fm)"
  have "remove_free seg fm = (Inr (), ?fm\<lparr>dirty_segment_groups := ?d\<rparr>)"
    using below seg fm_invD(3) [OF inv]
    by (simp add: remove_free_def is_free_correct [OF inv] r(1) mark_dirty_ok)
  moreover have "fm_inv (?fm\<lparr>dirty_segment_groups := ?d\<rparr>)"
    by (rule fm_inv_dirty [OF r(2)]) (simp add: fm_invD(4) [OF inv])
  ultimately show ?thesis using that r(3) by simp
qed

lemma free_range_ok:
  assumes inv: "fm_inv fm" and valid: "start < end'" "end' \<le> segment_count fm"
  obtains fm' where "free_range start end' fm = (Inr (), fm')" and "fm_inv fm'" and "hints_fresh fm'"
    and "fm_free fm' = fm_free fm \<union> {start..<end'}" and "segment_count fm' = segment_count fm"
proof -
  obtain runs where r: "insert_run_merge start end' fm =
      fm\<lparr>free_runs := runs, cached_free := run_total runs\<rparr>"
    "fm_inv (fm\<lparr>free_runs := runs, cached_free := run_total runs\<rparr>)"
    "free_set runs = fm_free fm \<union> {start..<end'}"
    using insert_inv [OF inv valid] by blast
  let ?fm = "rebuild_hints (fm\<lparr>free_runs := runs, cached_free := run_total runs\<rparr>)"
  let ?d = "fold (\<lambda>seg. bset_insert (as_u32 (seg div segment_group_segments fm))) [start..<end']
      (dirty_segment_groups fm)"
  have "free_range start end' fm = (Inr (), ?fm\<lparr>dirty_segment_groups := ?d\<rparr>)"
    using valid fm_invD(3) [OF inv]
    by (simp add: free_range_def validate_run_def r(1) mark_dirty_all_ok Let_def)
  moreover have "fm_inv (?fm\<lparr>dirty_segment_groups := ?d\<rparr>)"
    by (rule fm_inv_dirty [OF fm_inv_rebuild [OF r(2)]]) (simp add: bset_fold_insert fm_invD(4) [OF inv])
  moreover have "hints_fresh (?fm\<lparr>dirty_segment_groups := ?d\<rparr>)"
    using hints_fresh_rebuild [OF r(2)] by (simp add: hints_fresh_def)
  ultimately show ?thesis using that r(3) by simp
qed

section \<open>Coalescing and hinted allocation\<close>

lemma foldl_push_run:
  "acc \<noteq> [] \<Longrightarrow> sorted_wrt (\<lambda>r r'. snd r < fst r') (acc @ rs) \<Longrightarrow> foldl push_run acc rs = acc @ rs"
proof (induction rs arbitrary: acc)
  case (Cons r rs)
  have "snd (last acc) < fst r"
    using Cons.prems by (simp add: sorted_wrt_append)
  then have "push_run acc r = acc @ [r]" by (simp add: push_run_def)
  with Cons show ?case by simp
qed simp

lemma wf_runs_sorted_gaps: "wf_runs n runs \<Longrightarrow> sorted_wrt (\<lambda>r r'. snd r < fst r') runs"
  by (rule sorted_wrt_mono_rel [OF _ wf_runs_bset]) (rule wf_runs_less)

lemma merge_adjacent_runs_id: "wf_runs n runs \<Longrightarrow> merge_adjacent_runs runs = runs"
  using foldl_push_run [of "[hd runs]" "tl runs"]
  by (auto simp: merge_adjacent_runs_def dest!: wf_runs_sorted_gaps split: list.splits)

lemma fold_bset_insert: "bset ys \<Longrightarrow> bset (fold bset_insert xs ys) \<and> set (fold bset_insert xs ys) = set xs \<union> set ys"
  by (induction xs arbitrary: ys) auto

lemma fold_bset_insert_id: "bset xs \<Longrightarrow> fold bset_insert xs [] = xs"
  using fold_bset_insert [of "[]" xs] by (auto intro: bset_ext)

lemma coalesce_eq:
  assumes "fm_inv fm"
  shows "coalesce fm = (if length (free_runs fm) < 2 then fm else rebuild_hints fm)"
proof -
  have "fold bset_insert (merge_adjacent_runs (free_runs fm)) [] = free_runs fm"
    using fm_invD(1) [OF assms] by (simp add: merge_adjacent_runs_id fold_bset_insert_id wf_runs_bset)
  then show ?thesis by (simp add: coalesce_def)
qed

lemma coalesce_frame:
  assumes "fm_inv fm"
  shows "fm_inv (coalesce fm)" and "free_runs (coalesce fm) = free_runs fm"
    and "segment_count (coalesce fm) = segment_count fm"
    and "hints_fresh fm \<Longrightarrow> hints_fresh (coalesce fm)"
  using assms by (simp_all add: coalesce_eq)

lemma free_runs_Nil_iff: "fm_inv fm \<Longrightarrow> free_runs fm = [] \<longleftrightarrow> fm_free fm = {}"
  by (cases "free_runs fm") (fastforce dest!: fm_invD(1) dest: wf_runs_ConsD(3))+

lemma hint_counters [simp]:
  "fm_inv (fm\<lparr>size_class_hit_count := h\<rparr>) = fm_inv fm"
  "fm_inv (fm\<lparr>size_class_miss_count := m\<rparr>) = fm_inv fm"
  by (simp_all add: fm_inv_def)

lemma allocate_free:
  assumes inv: "fm_inv fm" and fresh: "hints_fresh fm" and free: "fm_free fm \<noteq> {}"
  obtains seg fm' where "allocate m cursor fm = (Inr seg, fm')" and "fm_inv fm'" and "hints_fresh fm'"
    and "seg \<in> fm_free fm" and "fm_free fm' = fm_free fm - {seg}"
    and "segment_count fm' = segment_count fm"
proof -
  have start: "segment_count fm \<noteq> 0" "free_runs fm \<noteq> []"
    using free free_set_below [OF fm_invD(1) [OF inv]] by auto
  show ?thesis
  proof (cases "find_for_size_ge (size_class_hints fm) m cursor")
    case (Some r)
    obtain s e where r: "r = (s, e)" by force
    have mem: "(s, e) \<in> set (free_runs fm)" "cursor \<le> s"
      using find_for_size_ge_sound [of "free_runs fm" m cursor r] Some fresh r
      by (simp_all add: hints_fresh_def)
    with wf_runsD(1) [OF fm_invD(1) [OF inv]] have s: "s \<in> fm_free fm" by (auto simp: in_free_set)
    let ?hit = "fm\<lparr>size_class_hit_count := sat_add64 (size_class_hit_count fm) 1\<rparr>"
    have hit: "fm_inv ?hit" and s': "s \<in> fm_free ?hit" using inv s by simp_all
    obtain runs where q: "remove_from_free_runs s ?hit =
        (Inr (), ?hit\<lparr>free_runs := runs, cached_free := cached_free ?hit - 1\<rparr>)"
      "fm_inv (?hit\<lparr>free_runs := runs, cached_free := cached_free ?hit - 1\<rparr>)"
      "free_set runs = fm_free ?hit - {s}"
      using remove_inv [OF hit s'] by blast
    let ?fm2 = "?hit\<lparr>free_runs := runs, cached_free := cached_free ?hit - 1\<rparr>"
    let ?fm4 = "(rebuild_hints ?fm2)\<lparr>dirty_segment_groups :=
        bset_insert (as_u32 (s div segment_group_segments fm)) (dirty_segment_groups fm)\<rparr>"
    have "allocate m cursor fm = (Inr s, coalesce (bump_generation ?fm4))"
      using start Some r mem(2) q(1) fm_invD(3) [OF inv]
      by (simp add: allocate_def Let_def mark_dirty_ok max_absorb1)
    moreover have "fm_inv (bump_generation ?fm4)"
      unfolding fm_inv_bump
      by (rule fm_inv_dirty [OF fm_inv_rebuild [OF q(2)]]) (simp add: fm_invD(4) [OF inv])
    moreover have "hints_fresh (bump_generation ?fm4)"
      using hints_fresh_rebuild [OF q(2)] by (simp add: hints_fresh_def)
    ultimately show ?thesis using that s q(3) by (simp add: coalesce_frame)
  next
    case None
    let ?miss = "fm\<lparr>size_class_miss_count := sat_add64 (size_class_miss_count fm) 1\<rparr>"
    obtain seg fm' where q: "alloc_after cursor ?miss = (Inr seg, fm')" "fm_inv fm'"
      "next_free (fm_free fm) cursor seg" "fm_free fm' = fm_free fm - {seg}"
      "segment_count fm' = segment_count fm"
      using alloc_after_free [of ?miss cursor] inv free by auto
    have "allocate m cursor fm = (Inr seg, coalesce (rebuild_hints fm'))"
      using start None q(1) by (simp add: allocate_def Let_def)
    with q that show ?thesis by (simp add: coalesce_frame next_free_def)
  qed
qed

lemma allocate_full:
  "fm_inv fm \<Longrightarrow> fm_free fm = {} \<Longrightarrow> allocate m cursor fm = (Inl NoFreeSegments, fm)"
  by (simp add: allocate_def free_runs_Nil_iff)

section \<open>The allocator as a guarded machine\<close>

datatype fm_cmd =
    AllocAfter nat
  | AddFree nat
  | RemoveFree nat
  | FreeRange nat nat
  | Coalesce
  | Allocate nat nat
  | RebuildHints
  | RemoveRunFromHints nat nat
  | ClearDirty

datatype fm_reply = Segment nat | Done | Failed free_map_error

fun unit_reply :: "(free_map_error + unit) \<times> 's \<Rightarrow> fm_reply \<times> 's" where
  "unit_reply (Inl e, s) = (Failed e, s)"
| "unit_reply (Inr _, s) = (Done, s)"

fun segment_reply :: "(free_map_error + nat) \<times> 's \<Rightarrow> fm_reply \<times> 's" where
  "segment_reply (Inl e, s) = (Failed e, s)"
| "segment_reply (Inr seg, s) = (Segment seg, s)"

fun fm_step :: "fm_cmd \<Rightarrow> segment_free_map \<Rightarrow> fm_reply \<times> segment_free_map" where
  "fm_step (AllocAfter c) fm = segment_reply (alloc_after c fm)"
| "fm_step (AddFree seg) fm = unit_reply (add_free seg fm)"
| "fm_step (RemoveFree seg) fm = unit_reply (remove_free seg fm)"
| "fm_step (FreeRange s e) fm = unit_reply (free_range s e fm)"
| "fm_step Coalesce fm = (Done, coalesce fm)"
| "fm_step (Allocate m c) fm = segment_reply (allocate m c fm)"
| "fm_step RebuildHints fm = (Done, rebuild_hints fm)"
| "fm_step (RemoveRunFromHints s e) fm = (Done, remove_run_from_hints s e fm)"
| "fm_step ClearDirty fm = (Done, clear_dirty_segment_groups fm)"

lemma snd_replies [simp]: "snd (unit_reply p) = snd p" "snd (segment_reply q) = snd q"
  by (cases p rule: unit_reply.cases; simp) (cases q rule: segment_reply.cases; simp)

lemma alloc_after_inv: "fm_inv fm \<Longrightarrow> fm_inv (snd (alloc_after c fm))"
  by (cases "fm_free fm = {}") (auto simp: alloc_after_full elim: alloc_after_free [where cursor = c])

lemma add_free_inv: "fm_inv fm \<Longrightarrow> fm_inv (snd (add_free seg fm))"
  by (cases "seg < segment_count fm"; cases "seg \<in> fm_free fm")
    (auto simp: add_free_already elim: add_free_new, simp_all add: add_free_def)

lemma remove_free_used:
  "fm_inv fm \<Longrightarrow> seg \<notin> fm_free fm \<Longrightarrow> remove_free seg fm =
     (Inl (if seg < segment_count fm then AlreadyUsed seg else SegmentOutOfRange seg), fm)"
  by (simp add: remove_free_def is_free_correct)

lemma remove_free_inv: "fm_inv fm \<Longrightarrow> fm_inv (snd (remove_free seg fm))"
  by (cases "seg \<in> fm_free fm") (auto simp: remove_free_used elim: remove_free_ok)

lemma free_range_invalid:
  "\<not> (start < end' \<and> end' \<le> segment_count fm) \<Longrightarrow>
     free_range start end' fm = (Inl (InvalidRun start end'), fm)"
  by (auto simp: free_range_def validate_run_def)

lemma free_range_inv: "fm_inv fm \<Longrightarrow> fm_inv (snd (free_range s e fm))"
  by (cases "s < e \<and> e \<le> segment_count fm") (auto simp: free_range_invalid elim: free_range_ok)

lemma allocate_inv:
  assumes inv: "fm_inv fm"
  shows "fm_inv (snd (allocate m c fm))"
proof (cases "segment_count fm = 0 \<or> free_runs fm = []")
  case False
  show ?thesis
  proof (cases "find_for_size_ge (size_class_hints fm) m c")
    case None
    let ?miss = "fm\<lparr>size_class_miss_count := sat_add64 (size_class_miss_count fm) 1\<rparr>"
    have "fm_inv (snd (alloc_after c ?miss))" using inv by (intro alloc_after_inv) simp
    with False None show ?thesis
      by (auto simp: allocate_def Let_def coalesce_frame split: prod.splits sum.splits)
  next
    case (Some r)
    let ?hit = "fm\<lparr>size_class_hit_count := sat_add64 (size_class_hit_count fm) 1\<rparr>"
    obtain s e where r: "r = (s, e)" by force
    let ?seg = "max s c"
    have hit: "fm_inv ?hit" using inv by simp
    show ?thesis
    proof (cases "?seg \<in> fm_free ?hit")
      case True
      obtain runs where q: "remove_from_free_runs ?seg ?hit =
          (Inr (), ?hit\<lparr>free_runs := runs, cached_free := cached_free ?hit - 1\<rparr>)"
        "fm_inv (?hit\<lparr>free_runs := runs, cached_free := cached_free ?hit - 1\<rparr>)"
        using remove_inv [OF hit True] by blast
      let ?fm2 = "rebuild_hints (?hit\<lparr>free_runs := runs, cached_free := cached_free ?hit - 1\<rparr>)"
      have "fm_inv (?fm2\<lparr>dirty_segment_groups := bset_insert
          (as_u32 (?seg div segment_group_segments fm)) (dirty_segment_groups fm)\<rparr>)"
        by (rule fm_inv_dirty [OF fm_inv_rebuild [OF q(2)]]) (simp add: fm_invD(4) [OF inv])
      with False Some q(1) r fm_invD(3) [OF inv] show ?thesis
        by (simp add: allocate_def Let_def mark_dirty_ok coalesce_frame)
    next
      case not_free: False
      have "remove_from_free_runs ?seg ?hit = (Inl (AlreadyUsed ?seg), ?hit)"
        by (rule remove_from_free_runs_used [OF hit not_free])
      with False Some r hit show ?thesis
        by (simp add: allocate_def Let_def)
    qed
  qed
qed (use inv in \<open>simp add: allocate_def\<close>)

lemma fm_step_inv: "fm_inv fm \<Longrightarrow> fm_inv (snd (fm_step c fm))"
proof (cases c)
  case (RemoveRunFromHints s e)
  then show "fm_inv fm \<Longrightarrow> ?thesis"
    by (simp add: fm_inv_def remove_run_from_hints_def hints_remove_run_def)
next
  case ClearDirty
  then show "fm_inv fm \<Longrightarrow> ?thesis" by (simp add: clear_dirty_segment_groups_def)
qed (simp_all add: alloc_after_inv add_free_inv remove_free_inv free_range_inv coalesce_frame allocate_inv)

interpretation free_map: guarded_machine fm_step fm_inv
  by unfold_locales (rule fm_step_inv)

lemma insert_all_runs_inv:
  "fm_inv fm \<Longrightarrow> insert_all_runs rs fm = Inr fm' \<Longrightarrow>
     fm_inv fm' \<and> fm_free fm' = fm_free fm \<union> free_set rs \<and> segment_count fm' = segment_count fm"
proof (induction rs arbitrary: fm)
  case (Cons r rs)
  obtain s e where r: "r = (s, e)" by force
  from Cons.prems(2) have valid: "s < e" "e \<le> segment_count fm"
    by (auto simp: r validate_run_def split: if_splits)
  obtain runs where q: "insert_run_merge s e fm = fm\<lparr>free_runs := runs, cached_free := run_total runs\<rparr>"
    "fm_inv (fm\<lparr>free_runs := runs, cached_free := run_total runs\<rparr>)"
    "free_set runs = fm_free fm \<union> {s..<e}"
    using insert_inv [OF Cons.prems(1) valid] by blast
  have "insert_all_runs rs (fm\<lparr>free_runs := runs, cached_free := run_total runs\<rparr>) = Inr fm'"
    using Cons.prems(2) valid by (simp add: r validate_run_def q(1))
  from Cons.IH [OF q(2) this] q(3) show ?case by (auto simp: r)
qed simp

lemma fm_new_inv:
  assumes "fm_new n runs = Inr fm" and "n \<le> u64_max"
  shows "fm_inv fm" and "hints_fresh fm" and "fm_free fm = free_set runs" and "segment_count fm = n"
proof -
  let ?z = "\<lparr>segment_count = n, free_runs = [], generation = 1,
         segment_group_segments = default_segment_group_segments,
         dirty_segment_groups = [], size_class_hints = hints_new,
         size_class_hit_count = 0, size_class_miss_count = 0, cached_free = 0\<rparr>"
  have z: "fm_inv ?z"
    using assms(2) by (simp add: fm_inv_def run_total_def default_segment_group_segments_def)
  from assms(1) obtain fm1 where 1: "insert_all_runs runs ?z = Inr fm1"
    and fm: "fm = (rebuild_hints fm1)\<lparr>cached_free := run_total (free_runs fm1)\<rparr>"
    by (auto simp: fm_new_def Let_def split: sum.splits)
  note fm1 = insert_all_runs_inv [OF z 1]
  then have fm: "fm = rebuild_hints fm1"
    unfolding fm by (simp add: rebuild_hints_eq fm_invD(6))
  show "fm_inv fm" "hints_fresh fm" "fm_free fm = free_set runs" "segment_count fm = n"
    using fm1 by (simp_all add: fm)
qed

section \<open>The allocator interface and exclusive use\<close>

text \<open>
  A client takes segments and gives back segments it holds. \<open>exclusive_use\<close> says of a
  sequence of such requests that no allocation ever returns a segment that is still held.
\<close>

datatype use_cmd = Take nat | Give nat

fun exclusive_use ::
    "(nat \<Rightarrow> 's \<Rightarrow> ('e + nat) \<times> 's) \<Rightarrow> (nat \<Rightarrow> 's \<Rightarrow> ('e + unit) \<times> 's) \<Rightarrow>
     use_cmd list \<Rightarrow> nat set \<Rightarrow> 's \<Rightarrow> bool" where
  "exclusive_use alloc release [] H s = True"
| "exclusive_use alloc release (Take c # cs) H s =
     (case alloc c s of
        (Inl e, s') \<Rightarrow> exclusive_use alloc release cs H s'
      | (Inr x, s') \<Rightarrow> x \<notin> H \<and> exclusive_use alloc release cs (insert x H) s')"
| "exclusive_use alloc release (Give x # cs) H s =
     (if x \<in> H then exclusive_use alloc release cs (H - {x}) (snd (release x s))
      else exclusive_use alloc release cs H s)"

locale segment_allocator =
  fixes free :: "'s \<Rightarrow> nat set" and inv :: "'s \<Rightarrow> bool"
    and alloc :: "nat \<Rightarrow> 's \<Rightarrow> ('e + nat) \<times> 's"
    and release :: "nat \<Rightarrow> 's \<Rightarrow> ('e + unit) \<times> 's"
  assumes alloc_some: "inv s \<Longrightarrow> free s \<noteq> {} \<Longrightarrow>
      \<exists>x s'. alloc c s = (Inr x, s') \<and> inv s' \<and> x \<in> free s \<and> free s' = free s - {x}"
    and alloc_none: "inv s \<Longrightarrow> free s = {} \<Longrightarrow> \<exists>e. alloc c s = (Inl e, s)"
    and release_law: "inv s \<Longrightarrow>
      inv (snd (release x s)) \<and> free (snd (release x s)) \<subseteq> insert x (free s)"
begin

lemma exclusive: "inv s \<Longrightarrow> H \<inter> free s = {} \<Longrightarrow> exclusive_use alloc release cs H s"
proof (induction cs arbitrary: H s)
  case (Cons cmd cs)
  show ?case
  proof (cases cmd)
    case (Take c)
    show ?thesis
    proof (cases "free s = {}")
      case True
      then obtain e where "alloc c s = (Inl e, s)" using alloc_none [OF Cons.prems(1)] by blast
      with Cons.IH [OF Cons.prems] Take show ?thesis by simp
    next
      case False
      then obtain x s' where a: "alloc c s = (Inr x, s')" "inv s'" "x \<in> free s" "free s' = free s - {x}"
        using alloc_some [OF Cons.prems(1)] by blast
      moreover have "insert x H \<inter> free s' = {}" using a Cons.prems(2) by auto
      ultimately show ?thesis using Cons.IH [of s' "insert x H"] Cons.prems(2) Take by auto
    qed
  next
    case (Give x)
    have r: "inv (snd (release x s))" "free (snd (release x s)) \<subseteq> insert x (free s)"
      using release_law [OF Cons.prems(1)] by auto
    then have "(H - {x}) \<inter> free (snd (release x s)) = {}" using Cons.prems(2) by auto
    with Cons.IH [OF Cons.prems] Cons.IH [OF r(1)] Give show ?thesis by simp
  qed
qed simp

text \<open>As many allocations succeed as there are free segments.\<close>

lemma alloc_all_succeed:
  "inv s \<Longrightarrow> length cs \<le> card (free s) \<Longrightarrow> finite (free s) \<Longrightarrow>
     \<forall>r \<in> set (fst (run_commands alloc cs s)). \<exists>x. r = Inr x"
proof (induction cs arbitrary: s)
  case (Cons c cs)
  then have "free s \<noteq> {}" by auto
  then obtain x s' where a: "alloc c s = (Inr x, s')" "inv s'" "x \<in> free s" "free s' = free s - {x}"
    using alloc_some [OF Cons.prems(1)] by blast
  moreover have "length cs \<le> card (free s')" using a Cons.prems by simp
  ultimately show ?case
    using Cons.IH [of s'] Cons.prems(3) by (simp add: Let_def case_prod_beta)
qed simp

end

lemma add_free_law:
  assumes "fm_inv fm"
  shows "fm_inv (snd (add_free x fm)) \<and> fm_free (snd (add_free x fm)) \<subseteq> insert x (fm_free fm)"
proof (cases "x < segment_count fm \<and> x \<notin> fm_free fm")
  case True
  then obtain fm' where "add_free x fm = (Inr (), fm')" "fm_inv fm'" "fm_free fm' = insert x (fm_free fm)"
    using add_free_new [OF assms] by blast
  then show ?thesis by simp
next
  case False
  then have "snd (add_free x fm) = fm" using assms
    by (auto simp: add_free_def is_free_correct)
  with assms show ?thesis by auto
qed

interpretation cursor_alloc: segment_allocator fm_free fm_inv alloc_after add_free
proof unfold_locales
  fix fm :: segment_free_map and c x
  assume inv: "fm_inv fm"
  show "\<exists>x s'. alloc_after c fm = (Inr x, s') \<and> fm_inv s' \<and> x \<in> fm_free fm \<and> fm_free s' = fm_free fm - {x}"
    if "fm_free fm \<noteq> {}"
    by (rule alloc_after_free [OF inv that, of c]) (unfold next_free_def, blast)
  show "\<exists>e. alloc_after c fm = (Inl e, fm)" if "fm_free fm = {}"
    using alloc_after_full [OF inv that] by blast
  show "fm_inv (snd (add_free x fm)) \<and> fm_free (snd (add_free x fm)) \<subseteq> insert x (fm_free fm)"
    by (rule add_free_law [OF inv])
qed

interpretation hinted_alloc: segment_allocator fm_free "\<lambda>fm. fm_inv fm \<and> hints_fresh fm"
  "allocate m" "\<lambda>x. free_range x (Suc x)" for m
proof unfold_locales
  fix fm :: segment_free_map and c x
  assume inv: "fm_inv fm \<and> hints_fresh fm"
  show "\<exists>x s'. allocate m c fm = (Inr x, s') \<and> (fm_inv s' \<and> hints_fresh s') \<and> x \<in> fm_free fm \<and>
      fm_free s' = fm_free fm - {x}" if "fm_free fm \<noteq> {}"
    by (rule allocate_free [OF conjunct1 [OF inv] conjunct2 [OF inv] that, of m c]) blast
  show "\<exists>e. allocate m c fm = (Inl e, fm)" if "fm_free fm = {}"
    using inv that by (auto simp: allocate_full)
  show "(fm_inv (snd (free_range x (Suc x) fm)) \<and> hints_fresh (snd (free_range x (Suc x) fm))) \<and>
      fm_free (snd (free_range x (Suc x) fm)) \<subseteq> insert x (fm_free fm)"
  proof (cases "Suc x \<le> segment_count fm")
    case True
    with inv obtain fm' where "free_range x (Suc x) fm = (Inr (), fm')" "fm_inv fm'" "hints_fresh fm'"
      "fm_free fm' = fm_free fm \<union> {x..<Suc x}"
      using free_range_ok [of fm x "Suc x"] by blast
    then show ?thesis by simp
  qed (use inv in \<open>auto simp: free_range_invalid\<close>)
qed

section \<open>Properties of the allocator\<close>

definition sample_map :: segment_free_map where
  "sample_map = \<lparr>segment_count = 16, free_runs = [(2, 5), (7, 9)], generation = 1,
     segment_group_segments = 8, dirty_segment_groups = [], size_class_hints = hints_for [(2, 5), (7, 9)],
     size_class_hit_count = 0, size_class_miss_count = 0, cached_free = 5\<rparr>"

lemma sample_map_ok: "fm_inv sample_map" "hints_fresh sample_map"
  by (simp_all add: sample_map_def fm_inv_def wf_runs_def run_total_def hints_fresh_def u64_max_def)

lemma sample_map_free: "fm_free sample_map = {2, 3, 4, 7, 8}"
  by (auto simp: sample_map_def)

text \<open>
  C12. \<open>alloc_after\<close> returns the first free segment at or after the cursor, or the first free
  segment of the pool when there is none, and removes exactly that segment from the free set; it
  fails, with \<open>NoFreeSegments\<close> and nothing changed, exactly when no segment is free.
\<close>

theorem alloc_after_correct:
  assumes "fm_inv fm"
  shows "case alloc_after cursor fm of
      (Inr seg, fm') \<Rightarrow> next_free (fm_free fm) cursor seg \<and> fm_free fm' = fm_free fm - {seg} \<and> fm_inv fm'
    | (Inl e, fm') \<Rightarrow> e = NoFreeSegments \<and> fm' = fm \<and> fm_free fm = {}"
proof (cases "fm_free fm = {}")
  case False
  show ?thesis by (rule alloc_after_free [OF assms False, of cursor]) simp
qed (simp add: alloc_after_full [OF assms])

theorem alloc_after_correct_witness:
  "fm_inv sample_map \<and> fst (alloc_after 5 sample_map) = Inr 7 \<and>
     fm_free (snd (alloc_after 5 sample_map)) = {2, 3, 4, 8}"
proof -
  have r: "fst (alloc_after 5 sample_map) = Inr 7"
    by (simp add: sample_map_def alloc_after_def do_allocate_def remove_from_free_runs_def
        runs_upto_rev_def u64_max_def less_eq_prod_def mark_dirty_ok)
  obtain fm' where p: "alloc_after 5 sample_map = (Inr 7, fm')"
    using r by (cases "alloc_after 5 sample_map") simp
  have "fm_free fm' = {2, 3, 4, 7, 8} - {7}"
    using alloc_after_correct [OF sample_map_ok(1), of 5] by (simp add: p sample_map_free)
  then show ?thesis using r by (simp add: p sample_map_ok insert_Diff_if)
qed

text \<open>
  C16. No double allocation: over any sequence of cursor allocations and releases of held
  segments, \<open>alloc_after\<close> never returns a segment that is still held.
\<close>

theorem allocations_exclusive:
  assumes "fm_inv fm" and "H \<inter> fm_free fm = {}"
  shows "exclusive_use alloc_after add_free cs H fm"
  by (rule cursor_alloc.exclusive [OF assms])

theorem allocations_exclusive_witness:
  "fm_inv sample_map \<and> {0} \<inter> fm_free sample_map = {} \<and>
     exclusive_use alloc_after add_free [Take 4, Give 4, Take 4, Give 0, Take 0] {0} sample_map"
proof (intro conjI)
  show disjoint: "{0} \<inter> fm_free sample_map = {}" by (simp add: sample_map_free)
  show "exclusive_use alloc_after add_free [Take 4, Give 4, Take 4, Give 0, Take 0] {0} sample_map"
    by (rule allocations_exclusive [OF sample_map_ok(1) disjoint])
qed (rule sample_map_ok)

text \<open>
  C27. Accounting: after any sequence of operations on a map built by \<open>new\<close>, the runs are sorted,
  disjoint, non-adjacent and inside the pool, the cached count is the number of free segments, it
  agrees with the recomputed \<open>free_count\<close>, and free and used segments add up to the pool.
\<close>

theorem free_map_accounting:
  fixes cs :: "fm_cmd list"
  assumes "fm_new n runs = Inr fm" and "n \<le> u64_max"
  defines "fm' \<equiv> snd (run_commands fm_step cs fm)"
  shows "wf_runs (segment_count fm') (free_runs fm') \<and> free_segments fm' = card (fm_free fm') \<and>
     free_count fm' = free_segments fm' \<and> free_segments fm' + used_segments fm' = segment_count fm'"
proof -
  have inv: "fm_inv fm'"
    unfolding fm'_def by (rule free_map.run_inv [OF fm_new_inv(1) [OF assms(1,2)]])
  have "cached_free fm' \<le> segment_count fm'"
    using run_total_le [OF fm_invD(1) [OF inv]] fm_invD(6) [OF inv] by simp
  with inv show ?thesis
    by (simp add: free_segments_def used_segments_def free_count_def cached_free_card fm_invD(1)
        flip: fm_invD(6) [OF inv])
qed

theorem free_map_accounting_witness:
  "\<exists>fm. fm_new 16 [(2, 5)] = Inr fm \<and> (16::nat) \<le> u64_max \<and>
     free_segments (snd (run_commands fm_step [AllocAfter 3, AddFree 9] fm)) =
       card (fm_free (snd (run_commands fm_step [AllocAfter 3, AddFree 9] fm)))"
proof -
  obtain fm where "fm_new 16 [(2, 5)] = Inr fm"
    by (simp add: fm_new_def validate_run_def insert_run_merge_def Let_def)
  moreover have "(16::nat) \<le> u64_max" by (simp add: u64_max_def)
  ultimately show ?thesis using free_map_accounting [of 16 "[(2, 5)]" fm "[AllocAfter 3, AddFree 9]"] by blast
qed

text \<open>
  C33. With up-to-date hints, \<open>allocate\<close> succeeds whenever a segment is free, whatever size and
  cursor are asked for, returns a free segment, takes exactly that one, and leaves the hints up to date.
\<close>

theorem allocate_succeeds:
  assumes "fm_inv fm" and "hints_fresh fm" and "fm_free fm \<noteq> {}"
  shows "\<exists>seg fm'. allocate m cursor fm = (Inr seg, fm') \<and> seg \<in> fm_free fm \<and>
     fm_free fm' = fm_free fm - {seg} \<and> fm_inv fm' \<and> hints_fresh fm'"
  by (rule allocate_free [OF assms, of m cursor]) blast

theorem allocate_succeeds_witness:
  "fm_inv sample_map \<and> hints_fresh sample_map \<and> fm_free sample_map \<noteq> {} \<and>
     (\<exists>seg fm'. allocate 3 6 sample_map = (Inr seg, fm') \<and> fm_free fm' = fm_free sample_map - {seg})"
  using allocate_succeeds [OF sample_map_ok, of 3 6] by (auto simp: sample_map_ok sample_map_free)

text \<open>
  The hints must be rebuilt after a cursor allocation: \<open>alloc_after\<close> leaves the run it
  shortened in the hint table, and an \<open>allocate\<close> that finds it there reports the segment as already
  used although nine other segments are free.
\<close>

theorem stale_hints_refuse:
  "\<exists>fm. fm_new 10 [(0, 10)] = Inr fm \<and> fst (alloc_after 0 fm) = Inr 0 \<and>
     free_segments (snd (alloc_after 0 fm)) = 9 \<and>
     fst (allocate 1 0 (snd (alloc_after 0 fm))) = Inl (AlreadyUsed 0)"
proof -
  obtain fm where fm: "fm_new 10 [(0, 10)] = Inr fm"
    by (simp add: fm_new_def validate_run_def insert_run_merge_def Let_def)
  then have runs: "free_runs fm = [(0, 10)]" "segment_count fm = 10" "cached_free fm = 10"
      "0 < segment_group_segments fm"
    by (auto simp: fm_new_def validate_run_def insert_run_merge_def Let_def rebuild_hints_def
        run_total_def default_segment_group_segments_def)
  have hints: "size_class_hints fm = hints_for [(0, 10)]"
    using fm_new_inv(2) [OF fm] runs(1) by (simp add: hints_fresh_def u64_max_def)
  have found: "find_for_size_ge (hints_for [(0, 10)]) 1 0 = Some (0, 10)"
    by (simp add: find_for_size_ge_def size_class_for_cases size_class_count_def hints_for_def
        upt_rec [of 0] less_eq_prod_def)
  have after: "alloc_after 0 fm = (Inr 0, bump_generation (fm\<lparr>free_runs := [(1, 10)], cached_free := 9,
      dirty_segment_groups := bset_insert (as_u32 (0 div segment_group_segments fm)) (dirty_segment_groups fm)\<rparr>))"
    using runs(4) by (simp add: alloc_after_def runs(1-3) do_allocate_def remove_from_free_runs_def
        runs_upto_rev_def u64_max_def less_eq_prod_def mark_dirty_ok bset_remove_def)
  have "fst (allocate 1 0 (snd (alloc_after 0 fm))) = Inl (AlreadyUsed 0)"
    using found by (simp add: allocate_def after runs(2) hints remove_from_free_runs_def Let_def
        runs_upto_rev_def u64_max_def less_eq_prod_def)
  with fm after show ?thesis by (auto simp: free_segments_def)
qed

text \<open>
  \<open>find_free_run\<close> returns a run of the map whose length is more than half of the requested
  one, up to the largest size class, and it finds one whenever a long enough run exists.
\<close>

theorem find_free_run_bound:
  assumes "fm_inv fm" and "hints_fresh fm" and "1 \<le> m" and "m < 16384"
  shows "(\<forall>r. find_free_run fm m = Some r \<longrightarrow> r \<in> set (free_runs fm) \<and> m < 2 * (snd r - fst r)) \<and>
     ((\<exists>r \<in> set (free_runs fm). m \<le> snd r - fst r) \<longrightarrow> find_free_run fm m \<noteq> None)"
proof (intro conjI allI impI)
  note hints = assms(2) [unfolded hints_fresh_def]
  fix r assume "find_free_run fm m = Some r"
  then have r: "r \<in> set (free_runs fm)" "size_class_for m \<le> size_class_for (snd r - fst r)"
    using find_for_size_sound [of "free_runs fm" m r] by (simp_all add: find_free_run_def hints)
  show "r \<in> set (free_runs fm)" by (rule r(1))
  have "1 \<le> snd r - fst r"
    using wf_runsD(1) [OF fm_invD(1) [OF assms(1)], of "fst r" "snd r"] r(1) by simp
  then show "m < 2 * (snd r - fst r)" using r(2) assms(4) by (blast intro: same_class_half)
next
  note hints = assms(2) [unfolded hints_fresh_def]
  assume "\<exists>r \<in> set (free_runs fm). m \<le> snd r - fst r"
  then obtain r where "r \<in> set (free_runs fm)" "m \<le> snd r - fst r" by blast
  then show "find_free_run fm m \<noteq> None"
    using find_for_size_complete [OF assms(3)] size_class_for_mono by (simp add: find_free_run_def hints)
qed

theorem find_free_run_bound_witness:
  "fm_inv sample_map \<and> hints_fresh sample_map \<and> find_free_run sample_map 3 \<noteq> None"
proof -
  have "\<exists>r \<in> set (free_runs sample_map). 3 \<le> snd r - fst r" by (simp add: sample_map_def)
  then show ?thesis using find_free_run_bound [OF sample_map_ok, of 3] by (simp add: sample_map_ok)
qed

text \<open>
  The returned run can be shorter than the requested length: with a free run of two and one of ten
  segments, a request for three segments is answered with the run of two.
\<close>

theorem find_free_run_too_short:
  "\<exists>fm. fm_new 32 [(0, 2), (10, 20)] = Inr fm \<and> find_free_run fm 3 = Some (0, 2)"
proof -
  obtain fm where fm: "fm_new 32 [(0, 2), (10, 20)] = Inr fm"
    by (simp add: fm_new_def validate_run_def insert_run_merge_def Let_def)
  then have "free_runs fm = [(0, 2), (10, 20)]"
    by (auto simp: fm_new_def validate_run_def insert_run_merge_def Let_def rebuild_hints_def less_prod_def)
  moreover have "hints_fresh fm" using fm by (rule fm_new_inv(2)) (simp add: u64_max_def)
  moreover have "find_for_size (hints_for [(0, 2), (10, 20)]) 3 = Some (0, 2)"
    by (simp add: find_for_size_def size_class_for_cases size_class_count_def hints_for_def
        upt_rec bset_first_def)
  ultimately show ?thesis using fm by (auto simp: find_free_run_def hints_fresh_def)
qed

end
