(* ===== verification/Le_Bytes.thy ===== *)
theory Le_Bytes
  imports Tide_Prelude "HOL-Library.Word"
begin

text \<open>
  Little-endian byte encodings, as \<open>to_le_bytes\<close> and \<open>from_le_bytes\<close> produce and read
  them, and the contract of a record format: what the encoder writes, the decoder reads back.
\<close>

type_synonym byte = "8 word"

primrec le_bytes :: "nat \<Rightarrow> nat \<Rightarrow> byte list" where
  "le_bytes 0 n = []"
| "le_bytes (Suc k) n = word_of_nat n # le_bytes k (n div 256)"

fun le_nat :: "byte list \<Rightarrow> nat" where
  "le_nat [] = 0"
| "le_nat (b # bs) = unat b + 256 * le_nat bs"

lemma length_le_bytes [simp]: "length (le_bytes k n) = k"
  by (induction k arbitrary: n) simp_all

lemma unat_byte_of_nat: "unat (word_of_nat n :: byte) = n mod 256"
  by (simp add: unat_of_nat)

lemma le_nat_le_bytes: "le_nat (le_bytes k n) = n mod 256 ^ k"
proof (induction k arbitrary: n)
  case (Suc k)
  have "n mod 256 ^ Suc k = 256 * (n div 256 mod 256 ^ k) + n mod 256"
    by (simp only: power_Suc mod_mult2_eq)
  then show ?case unfolding le_bytes.simps le_nat.simps Suc unat_byte_of_nat by (simp only: add.commute)
qed simp

lemma le_nat_le_bytes_exact [simp]: "n < 256 ^ k \<Longrightarrow> le_nat (le_bytes k n) = n"
  by (simp add: le_nat_le_bytes)

lemma le_nat_less: "le_nat bs < 256 ^ length bs"
proof (induction bs)
  case (Cons b bs)
  have "unat b < 256" using unsigned_less [of b] by simp
  moreover have "256 * Suc (le_nat bs) \<le> 256 * 256 ^ length bs" using Cons by (intro mult_le_mono2) simp
  ultimately show ?case by simp
qed simp

lemma le_bytes_le_nat [simp]: "le_bytes (length bs) (le_nat bs) = bs"
proof (induction bs)
  case (Cons b bs)
  have "unat b < 256" using unsigned_less [of b] by simp
  then have "(unat b + 256 * le_nat bs) div 256 = le_nat bs" by simp
  moreover have "unat (word_of_nat (unat b + 256 * le_nat bs) :: byte) = unat b"
    unfolding unat_byte_of_nat using \<open>unat b < 256\<close> by simp
  then have "(word_of_nat (unat b + 256 * le_nat bs) :: byte) = b"
    by (simp only: word_eq_iff_unsigned [where 'a = nat])
  ultimately show ?case using Cons by simp
qed simp

lemma le_bytes_inject:
  "n < 256 ^ k \<Longrightarrow> m < 256 ^ k \<Longrightarrow> le_bytes k n = le_bytes k m \<longleftrightarrow> n = m"
  by (auto dest: arg_cong [where f = le_nat])

text \<open>A sub-slice \<open>buf[a..b]\<close>.\<close>

definition slice :: "nat \<Rightarrow> nat \<Rightarrow> 'a list \<Rightarrow> 'a list" where
  "slice a b buf = take (b - a) (drop a buf)"

lemma length_slice [simp]: "b \<le> length buf \<Longrightarrow> length (slice a b buf) = b - a"
  by (simp add: slice_def)

lemma slice_append_left: "b \<le> length xs \<Longrightarrow> slice a b (xs @ ys) = slice a b xs"
  by (simp add: slice_def)

lemma slice_append_right: "length xs \<le> a \<Longrightarrow> slice a b (xs @ ys) = slice (a - length xs) (b - length xs) ys"
  by (simp add: slice_def)

lemma slice_all: "b = length xs \<Longrightarrow> slice 0 b xs = xs"
  by (simp add: slice_def)

lemma slice_split: "a \<le> b \<Longrightarrow> b \<le> c \<Longrightarrow> slice a c xs = slice a b xs @ slice b c xs"
  using take_add [of "b - a" "c - b" "drop a xs"] by (simp add: slice_def)

lemmas slice_simps = slice_append_left slice_append_right slice_all

text \<open>
  The contract of a record format: a decoder reads back every valid record that was encoded, also
  when more bytes follow. Then different records have different encodings.
\<close>

locale record_codec =
  fixes encode :: "'r \<Rightarrow> byte list"
    and decode :: "byte list \<Rightarrow> 'r option"
    and valid :: "'r \<Rightarrow> bool"
  assumes decode_encode: "valid r \<Longrightarrow> decode (encode r @ rest) = Some r"
begin

lemma decode_encode_exact: "valid r \<Longrightarrow> decode (encode r) = Some r"
  using decode_encode [of r "[]"] by simp

lemma encode_inject: "valid r \<Longrightarrow> valid r' \<Longrightarrow> encode r = encode r' \<longleftrightarrow> r = r'"
  by (auto dest: arg_cong [where f = decode] simp: decode_encode_exact)

lemma encode_prefix_free: "valid r \<Longrightarrow> valid r' \<Longrightarrow> encode r @ xs = encode r' @ ys \<Longrightarrow> r = r'"
  by (drule arg_cong [where f = decode]) (simp add: decode_encode)

end

end
