(* ===== verification/Space_Checkpoint.thy ===== *)
theory Space_Checkpoint
  imports Space_Alloc Le_Bytes
begin

text \<open>
  The on-media checkpoint of the segment free map: one bitmap per segment group with a set
  bit for every free segment (least significant bit first), the header that carries the layout
  and the generation, and the reconstruction of the free map when a pool is imported. Bytes are
  8-bit words and the bit operations are those of the source. The product of group index and
  group size wraps at 64 bits as an unchecked multiplication does in a release build.
\<close>

section \<open>Definitions\<close>

unbundle bit_operations_syntax

record segment_group_bitmap_entry =
  entry_group_index :: nat
  bitmap_len :: nat
  bitmap_data :: "byte list"

record space_map_checkpoint_v1 =
  cp_magic :: string
  cp_version :: nat
  cp_segment_count :: nat
  cp_segment_group_segments :: nat
  cp_segment_group_count :: nat
  cp_dirty_segment_group_count :: nat
  cp_generation :: nat
  cp_entries :: "segment_group_bitmap_entry list"

definition spacemap_checkpoint_magic :: string where
  "spacemap_checkpoint_magic = ''SPMP''"

definition bitmap_layout :: "nat \<Rightarrow> nat \<Rightarrow> free_map_error + nat \<times> nat" where
  "bitmap_layout count g =
     (if g = 0 then Inl DivideByZero else Inr (as_u32 (div_ceil count g), g div 8))"

definition checkpoint_new :: "nat \<Rightarrow> nat \<Rightarrow> nat \<Rightarrow> free_map_error + space_map_checkpoint_v1" where
  "checkpoint_new count g gen =
     (case bitmap_layout count g of
        Inl e \<Rightarrow> Inl e
      | Inr (mc, _) \<Rightarrow>
          Inr \<lparr>cp_magic = spacemap_checkpoint_magic, cp_version = 1, cp_segment_count = count,
               cp_segment_group_segments = g, cp_segment_group_count = mc,
               cp_dirty_segment_group_count = 0, cp_generation = gen, cp_entries = []\<rparr>)"

definition set_segment_bit :: "nat \<Rightarrow> nat \<Rightarrow> byte list list \<Rightarrow> byte list list" where
  "set_segment_bit g seg bitmaps =
     (let ms = seg div g; bit_in_ms = seg mod g; byte_idx = bit_in_ms div 8; bit_idx = bit_in_ms mod 8
      in if ms < length bitmaps \<and> byte_idx < length (bitmaps ! ms)
         then bitmaps[ms := (bitmaps ! ms)[byte_idx := (bitmaps ! ms ! byte_idx) OR push_bit bit_idx 1]]
         else bitmaps)"

definition encode_bitmaps :: "run list \<Rightarrow> nat \<Rightarrow> nat \<Rightarrow> free_map_error + byte list list" where
  "encode_bitmaps runs count g =
     (case bitmap_layout count g of
        Inl e \<Rightarrow> Inl e
      | Inr (group_count, bytes_per) \<Rightarrow>
          Inr (fold (\<lambda>(start, end'). fold (set_segment_bit g) [start..<end']) runs
                 (replicate group_count (replicate bytes_per 0))))"

definition segment_bit :: "byte list \<Rightarrow> nat \<Rightarrow> bool" where
  "segment_bit bitmap b \<longleftrightarrow> (bitmap ! (b div 8) AND push_bit (b mod 8) 1) \<noteq> 0"

type_synonym scan_state = "bool \<times> nat \<times> run list"

definition scan_bit :: "byte list \<Rightarrow> nat \<Rightarrow> nat \<Rightarrow> scan_state \<Rightarrow> scan_state" where
  "scan_bit bitmap ms_start b st =
     (case st of (in_run, run_start, runs) \<Rightarrow>
        let is_free = segment_bit bitmap b; global_seg = ms_start + b
        in if is_free \<and> \<not> in_run then (True, global_seg, runs)
           else if \<not> is_free \<and> in_run then (False, run_start, runs @ [(run_start, global_seg)])
           else (in_run, run_start, runs))"

definition decode_group :: "byte list \<Rightarrow> nat \<Rightarrow> nat \<Rightarrow> run list \<Rightarrow> run list" where
  "decode_group bitmap ms_start valid_bits runs =
     (case fold (scan_bit bitmap ms_start) [0..<valid_bits] (False, 0, runs) of
        (in_run, run_start, runs') \<Rightarrow>
          if in_run then runs' @ [(run_start, ms_start + valid_bits)] else runs')"

primrec decode_groups ::
    "nat \<Rightarrow> byte list list \<Rightarrow> nat \<Rightarrow> nat \<Rightarrow> run list \<Rightarrow> free_map_error + run list" where
  "decode_groups ms_idx [] count g runs = Inr runs"
| "decode_groups ms_idx (bitmap # bitmaps) count g runs =
     (let ms_start = ms_idx * g mod 2 ^ 64;
          valid_bits = min g (count - ms_start);
          bytes_needed = div_ceil valid_bits 8
      in if length bitmap < bytes_needed then Inl CorruptCheckpoint
         else decode_groups (Suc ms_idx) bitmaps count g
                (decode_group bitmap ms_start valid_bits runs))"

definition decode_bitmaps :: "byte list list \<Rightarrow> nat \<Rightarrow> nat \<Rightarrow> free_map_error + run list" where
  "decode_bitmaps bitmaps count g =
     (case decode_groups 0 bitmaps count g [] of
        Inl e \<Rightarrow> Inl e
      | Inr runs \<Rightarrow> Inr (merge_adjacent_runs runs))"

definition segment_group_count :: "segment_free_map \<Rightarrow> free_map_error + nat" where
  "segment_group_count fm =
     (if segment_group_segments fm = 0 then Inl DivideByZero
      else Inr (div_ceil (segment_count fm) (segment_group_segments fm)))"

definition from_free_map :: "segment_free_map \<Rightarrow> bool \<Rightarrow> free_map_error + space_map_checkpoint_v1" where
  "from_free_map fm dirty_only =
     (case encode_bitmaps (free_runs fm) (segment_count fm) (segment_group_segments fm) of
        Inl e \<Rightarrow> Inl e
      | Inr bitmaps \<Rightarrow>
          (let entries =
             map (\<lambda>(i, data). \<lparr>entry_group_index = as_u32 i, bitmap_len = as_u32 (length data),
                               bitmap_data = data\<rparr>)
               (filter (\<lambda>(i, _). dirty_only \<longrightarrow> as_u32 i \<in> set (dirty_segment_groups fm))
                  (enumerate 0 bitmaps))
           in case segment_group_count fm of
                Inl e \<Rightarrow> Inl e
              | Inr group_count \<Rightarrow>
                  Inr \<lparr>cp_magic = spacemap_checkpoint_magic, cp_version = 1,
                       cp_segment_count = segment_count fm,
                       cp_segment_group_segments = segment_group_segments fm,
                       cp_segment_group_count = as_u32 group_count,
                       cp_dirty_segment_group_count = as_u32 (length entries),
                       cp_generation = generation fm, cp_entries = entries\<rparr>))"

definition from_checkpoint :: "space_map_checkpoint_v1 \<Rightarrow> free_map_error + segment_free_map" where
  "from_checkpoint cp =
     (case decode_bitmaps (map bitmap_data (cp_entries cp)) (cp_segment_count cp)
             (cp_segment_group_segments cp) of
        Inl e \<Rightarrow> Inl e
      | Inr runs \<Rightarrow>
          (case fm_new (cp_segment_count cp) runs of
             Inl e \<Rightarrow> Inl e
           | Inr fm \<Rightarrow> Inr (fm\<lparr>generation := max (cp_generation cp) 1,
                               segment_group_segments := cp_segment_group_segments cp\<rparr>)))"

section \<open>Setting and reading bits\<close>

lemma bit_one_shifted: "j < 8 \<Longrightarrow> bit (push_bit j 1 :: byte) k \<longleftrightarrow> k = j"
  by (auto simp: bit_exp_iff possible_bit_def)

lemma segment_bit_bit: "segment_bit bitmap b \<longleftrightarrow> bit (bitmap ! (b div 8)) (b mod 8)"
proof -
  have "b mod 8 < 8" by simp
  then have "bit (bitmap ! (b div 8) AND push_bit (b mod 8) 1) k \<longleftrightarrow>
      k = b mod 8 \<and> bit (bitmap ! (b div 8)) (b mod 8)" for k
    unfolding bit_and_iff by (auto simp only: bit_one_shifted)
  then show ?thesis
    unfolding segment_bit_def by (metis bit_eqI bit_0_eq bot_apply bot_bool_def)
qed

definition bitmaps_shape :: "nat \<Rightarrow> nat \<Rightarrow> byte list list \<Rightarrow> bool" where
  "bitmaps_shape n k bitmaps \<longleftrightarrow> length bitmaps = n \<and> (\<forall>b \<in> set bitmaps. length b = k)"

lemma bitmaps_shape_set [simp]:
  "bitmaps_shape n k bitmaps \<Longrightarrow> bitmaps_shape n k (set_segment_bit g seg bitmaps)"
  by (auto simp: bitmaps_shape_def set_segment_bit_def Let_def dest!: set_update_subset_insert [THEN subsetD])

lemma set_segment_bit_reads:
  assumes "bitmaps_shape n k bitmaps" and "0 < g" and "8 * k = g" and "ms < n" and "b < g" and "seg < n * g"
  shows "segment_bit (set_segment_bit g seg bitmaps ! ms) b \<longleftrightarrow>
    seg = ms * g + b \<or> segment_bit (bitmaps ! ms) b"
proof -
  let ?m = "seg div g" and ?i = "seg mod g div 8" and ?j = "seg mod g mod 8"
  have len: "length bitmaps = n" "\<And>m. m < n \<Longrightarrow> length (bitmaps ! m) = k"
    using assms(1) by (auto simp: bitmaps_shape_def)
  have m: "?m < n" using assms(2,6) by (simp add: less_mult_imp_div_less)
  have i: "?i < k" using assms(2,3) by (simp add: less_mult_imp_div_less mult.commute)
  have seg: "seg = ms * g + b \<longleftrightarrow> ms = ?m \<and> b div 8 = ?i \<and> b mod 8 = ?j"
  proof
    assume "seg = ms * g + b"
    then show "ms = ?m \<and> b div 8 = ?i \<and> b mod 8 = ?j" using assms(5) by simp
  next
    assume "ms = ?m \<and> b div 8 = ?i \<and> b mod 8 = ?j"
    then have "ms = ?m" and "b = seg mod g" by (metis div_mult_mod_eq)+
    then show "seg = ms * g + b" by simp
  qed
  have upd: "set_segment_bit g seg bitmaps =
      bitmaps[?m := (bitmaps ! ?m)[?i := (bitmaps ! ?m ! ?i) OR push_bit ?j 1]]"
    using m i len by (simp add: set_segment_bit_def Let_def)
  show ?thesis
  proof (cases "ms = ?m \<and> b div 8 = ?i")
    case True
    then have "set_segment_bit g seg bitmaps ! ms ! (b div 8) =
        (bitmaps ! ms ! (b div 8)) OR push_bit ?j 1"
      using m i len by (simp add: upd)
    moreover have "bit (push_bit ?j 1 :: byte) (b mod 8) \<longleftrightarrow> b mod 8 = ?j"
      by (rule bit_one_shifted) simp
    ultimately show ?thesis
      using True unfolding segment_bit_bit seg by (simp only: bit_or_iff) blast
  next
    case False
    then have "set_segment_bit g seg bitmaps ! ms ! (b div 8) = bitmaps ! ms ! (b div 8)"
      using m len assms(4) by (auto simp: upd nth_list_update)
    with False show ?thesis unfolding segment_bit_bit seg by auto
  qed
qed

lemma fold_set_segment_bit:
  assumes "bitmaps_shape n k bitmaps" and "0 < g" and "8 * k = g" and "\<forall>seg \<in> set segs. seg < n * g"
  shows "bitmaps_shape n k (fold (set_segment_bit g) segs bitmaps)"
    and "ms < n \<Longrightarrow> b < g \<Longrightarrow> segment_bit (fold (set_segment_bit g) segs bitmaps ! ms) b \<longleftrightarrow>
      ms * g + b \<in> set segs \<or> segment_bit (bitmaps ! ms) b"
proof -
  have "bitmaps_shape n k (fold (set_segment_bit g) segs bitmaps) \<and>
    (ms < n \<longrightarrow> b < g \<longrightarrow> (segment_bit (fold (set_segment_bit g) segs bitmaps ! ms) b \<longleftrightarrow>
      ms * g + b \<in> set segs \<or> segment_bit (bitmaps ! ms) b))" (is "?P segs bitmaps") for ms b
    using assms(1,4)
  proof (induction segs arbitrary: bitmaps)
    case (Cons seg segs)
    have "?P segs (set_segment_bit g seg bitmaps)"
      using Cons.prems by (intro Cons.IH) auto
    moreover have "ms < n \<Longrightarrow> b < g \<Longrightarrow> segment_bit (set_segment_bit g seg bitmaps ! ms) b \<longleftrightarrow>
        seg = ms * g + b \<or> segment_bit (bitmaps ! ms) b"
      using Cons.prems assms by (intro set_segment_bit_reads) auto
    ultimately show ?case by auto
  qed simp
  then show "bitmaps_shape n k (fold (set_segment_bit g) segs bitmaps)"
    and "ms < n \<Longrightarrow> b < g \<Longrightarrow> segment_bit (fold (set_segment_bit g) segs bitmaps ! ms) b \<longleftrightarrow>
      ms * g + b \<in> set segs \<or> segment_bit (bitmaps ! ms) b" by blast+
qed

text \<open>What the encoder writes: a bit is set exactly when its segment is free.\<close>

lemma encode_bitmaps_spec:
  assumes wf: "wf_runs count runs" and g: "0 < g" "8 dvd g" and groups: "div_ceil count g \<le> u32_max"
  obtains bitmaps where "encode_bitmaps runs count g = Inr bitmaps"
    and "bitmaps_shape (div_ceil count g) (g div 8) bitmaps"
    and "\<And>ms b. ms < div_ceil count g \<Longrightarrow> b < g \<Longrightarrow>
      segment_bit (bitmaps ! ms) b \<longleftrightarrow> ms * g + b \<in> free_set runs"
proof
  let ?n = "div_ceil count g"
  let ?segs = "concat (map (\<lambda>(s, e). [s..<e]) runs)"
  let ?zero = "replicate ?n (replicate (g div 8) 0) :: byte list list"
  let ?bm = "fold (set_segment_bit g) ?segs ?zero"
  have fold: "fold (\<lambda>(s, e). fold (set_segment_bit g) [s..<e]) runs z =
      fold (set_segment_bit g) ?segs z" for z
    by (induction runs arbitrary: z) auto
  show "encode_bitmaps runs count g = Inr ?bm"
    using g groups by (simp add: encode_bitmaps_def bitmap_layout_def fold machine_simps)
  have segs: "set ?segs = free_set runs" by (auto simp: free_set_def)
  have shape: "bitmaps_shape ?n (g div 8) ?zero" by (auto simp: bitmaps_shape_def)
  have k: "8 * (g div 8) = g" using g by simp
  have bound: "\<forall>seg \<in> set ?segs. seg < ?n * g"
  proof
    fix x assume "x \<in> set ?segs"
    then have "x < count" using free_set_below [OF wf] segs by auto
    then show "x < ?n * g" using div_ceil_bounds(1) [OF g(1), of count] by simp
  qed
  note * = fold_set_segment_bit [OF shape g(1) k bound]
  show "bitmaps_shape ?n (g div 8) ?bm" by (rule *(1))
  show "segment_bit (?bm ! ms) b \<longleftrightarrow> ms * g + b \<in> free_set runs" if "ms < ?n" "b < g" for ms b
  proof -
    have "b div 8 < g div 8" using that(2) g k by (simp add: less_mult_imp_div_less mult.commute)
    then have "\<not> segment_bit (?zero ! ms) b" using that(1) by (simp add: segment_bit_bit)
    then show ?thesis using *(2) [OF that] unfolding segs by simp
  qed
qed

section \<open>Reading runs back\<close>

text \<open>
  Decoded runs are ordered and non-empty but may touch at a group boundary, where a run is
  cut; the final merge joins them.
\<close>

definition ordered_runs :: "nat \<Rightarrow> run list \<Rightarrow> bool" where
  "ordered_runs n rs \<longleftrightarrow> sorted_wrt (\<lambda>r r'. snd r \<le> fst r') rs \<and> (\<forall>r \<in> set rs. fst r < snd r \<and> snd r \<le> n)"

definition open_runs :: "scan_state \<Rightarrow> nat \<Rightarrow> run list" where
  "open_runs st pos = (case st of (in_run, run_start, runs) \<Rightarrow> runs @ (if in_run then [(run_start, pos)] else []))"

definition scan_inv :: "nat \<Rightarrow> scan_state \<Rightarrow> bool" where
  "scan_inv pos st \<longleftrightarrow> ordered_runs pos (open_runs st pos)"

lemma free_set_append [simp]: "free_set (xs @ ys) = free_set xs \<union> free_set ys"
  by (induction xs) auto

lemma ordered_runs_append1 [simp]:
  "ordered_runs n (rs @ [r]) \<longleftrightarrow>
     ordered_runs n rs \<and> (\<forall>r' \<in> set rs. snd r' \<le> fst r) \<and> fst r < snd r \<and> snd r \<le> n"
  by (auto simp: ordered_runs_def sorted_wrt_append)

lemma ordered_runs_mono: "ordered_runs n rs \<Longrightarrow> n \<le> m \<Longrightarrow> ordered_runs m rs"
  by (auto simp: ordered_runs_def)

lemma ordered_runs_bound: "ordered_runs n rs \<Longrightarrow> r \<in> set rs \<Longrightarrow> snd r \<le> n"
  by (auto simp: ordered_runs_def)

lemma scan_bit_step:
  assumes "scan_inv (ms_start + b) st"
  shows "scan_inv (ms_start + Suc b) (scan_bit bitmap ms_start b st)"
    and "free_set (open_runs (scan_bit bitmap ms_start b st) (ms_start + Suc b)) =
      free_set (open_runs st (ms_start + b)) \<union> (if segment_bit bitmap b then {ms_start + b} else {})"
proof -
  obtain i a rs where st: "st = (i, a, rs)" by (cases st)
  show "scan_inv (ms_start + Suc b) (scan_bit bitmap ms_start b st)"
    using assms
    by (fastforce simp: st scan_inv_def open_runs_def scan_bit_def Let_def
        dest: ordered_runs_bound intro: ordered_runs_mono)
  show "free_set (open_runs (scan_bit bitmap ms_start b st) (ms_start + Suc b)) =
      free_set (open_runs st (ms_start + b)) \<union> (if segment_bit bitmap b then {ms_start + b} else {})"
    using assms by (auto simp: st scan_inv_def open_runs_def scan_bit_def Let_def)
qed

lemma scan_bits:
  fixes bitmap :: "byte list"
  assumes "ordered_runs ms_start runs"
  defines "st \<equiv> \<lambda>k. fold (scan_bit bitmap ms_start) [0..<k] (False, 0, runs)"
  shows "scan_inv (ms_start + k) (st k) \<and>
    free_set (open_runs (st k) (ms_start + k)) =
      free_set runs \<union> {x. ms_start \<le> x \<and> x < ms_start + k \<and> segment_bit bitmap (x - ms_start)}"
proof (induction k)
  case 0
  then show ?case using assms(1) by (auto simp: st_def scan_inv_def open_runs_def)
next
  case (Suc k)
  have st: "st (Suc k) = scan_bit bitmap ms_start k (st k)" by (simp add: st_def)
  have "{x. ms_start \<le> x \<and> x < ms_start + Suc k \<and> segment_bit bitmap (x - ms_start)} =
      {x. ms_start \<le> x \<and> x < ms_start + k \<and> segment_bit bitmap (x - ms_start)} \<union>
      (if segment_bit bitmap k then {ms_start + k} else {})"
    by (auto simp: less_Suc_eq)
  then show ?case
    using scan_bit_step [of ms_start k "st k" bitmap] Suc.IH unfolding st by auto
qed

lemma decode_group_spec:
  assumes "ordered_runs ms_start runs"
  shows "ordered_runs (ms_start + k) (decode_group bitmap ms_start k runs)"
    and "free_set (decode_group bitmap ms_start k runs) =
      free_set runs \<union> {x. ms_start \<le> x \<and> x < ms_start + k \<and> segment_bit bitmap (x - ms_start)}"
proof -
  let ?st = "fold (scan_bit bitmap ms_start) [0..<k] (False, 0, runs)"
  have "decode_group bitmap ms_start k runs = open_runs ?st (ms_start + k)"
    by (simp add: decode_group_def open_runs_def split: prod.splits)
  then show "ordered_runs (ms_start + k) (decode_group bitmap ms_start k runs)"
    and "free_set (decode_group bitmap ms_start k runs) =
      free_set runs \<union> {x. ms_start \<le> x \<and> x < ms_start + k \<and> segment_bit bitmap (x - ms_start)}"
    using scan_bits [OF assms, where bitmap = bitmap and k = k] by (simp_all add: scan_inv_def)
qed

lemma group_cases:
  assumes "0 < g" and "ms * g \<le> x"
  shows "(x < Suc ms * g \<and> x div g = ms \<and> x mod g = x - ms * g) \<or>
    (Suc ms * g \<le> x \<and> x div g - ms = Suc (x div g - Suc ms))"
proof (cases "x < Suc ms * g")
  case True
  then have "x div g = ms"
    using assms by (intro div_nat_eqI) (simp_all add: mult.commute)
  with True show ?thesis by (simp add: modulo_nat_def)
next
  case False
  then have "Suc ms \<le> x div g"
    using assms(1) by (simp add: less_eq_div_iff_mult_less_eq)
  with False show ?thesis by simp
qed

lemma decode_groups_spec:
  assumes "\<forall>b \<in> set bitmaps. length b = g div 8" and "8 dvd g" "0 < g"
    and "ordered_runs (min count (ms * g)) runs" and "count \<le> u64_max"
    and "ms + length bitmaps \<le> div_ceil count g"
  obtains runs' where "decode_groups ms bitmaps count g runs = Inr runs'"
    and "ordered_runs (min count ((ms + length bitmaps) * g)) runs'"
    and "free_set runs' = free_set runs \<union>
      {x. ms * g \<le> x \<and> x < count \<and> x div g < ms + length bitmaps \<and>
          segment_bit (bitmaps ! (x div g - ms)) (x mod g)}"
  using assms
proof (induction bitmaps arbitrary: ms runs thesis)
  case Nil
  show ?case
  proof (rule Nil(1))
    show "free_set runs = free_set runs \<union> {x. ms * g \<le> x \<and> x < count \<and> x div g < ms + length [] \<and>
          segment_bit ([] ! (x div g - ms)) (x mod g)}"
      using \<open>0 < g\<close> by (auto simp: div_less_iff_less_mult)
  qed (use Nil in auto)
next
  case (Cons bitmap bitmaps)
  let ?k = "min g (count - ms * g)"
  have "ms * g < count"
  proof -
    have "Suc ms * g \<le> div_ceil count g * g" using Cons.prems(7) by (intro mult_le_mono1) simp
    then show ?thesis using div_ceil_bounds(2) [OF \<open>0 < g\<close>, of count] by simp
  qed
  have start: "ms * g mod 2 ^ 64 = ms * g"
    using \<open>ms * g < count\<close> \<open>count \<le> u64_max\<close> by (simp add: u64_max_def)
  have enough: "div_ceil ?k 8 \<le> length bitmap"
  proof -
    have "div_ceil ?k 8 * 8 < g + 8" using div_ceil_bounds(2) [of 8 ?k] by simp
    then have "div_ceil ?k 8 < g div 8 + 1" using \<open>8 dvd g\<close> by (auto elim!: dvdE)
    then show ?thesis using Cons.prems(2) by simp
  qed
  have pos: "ms * g + ?k = min count (Suc ms * g)" using \<open>ms * g < count\<close> by auto
  define runs1 where "runs1 = decode_group bitmap (ms * g) ?k runs"
  have ord: "ordered_runs (ms * g) runs" using Cons.prems(5) \<open>ms * g < count\<close> by (simp add: min_def split: if_splits)
  have 1: "ordered_runs (min count (Suc ms * g)) runs1"
    using decode_group_spec(1) [OF ord, where k = ?k and bitmap = bitmap]
    unfolding pos runs1_def [symmetric] .
  have 2: "free_set runs1 = free_set runs \<union>
      {x. ms * g \<le> x \<and> x < min count (Suc ms * g) \<and> segment_bit bitmap (x - ms * g)}"
    using decode_group_spec(2) [OF ord, where k = ?k and bitmap = bitmap] unfolding pos runs1_def .
  obtain runs' where r: "decode_groups (Suc ms) bitmaps count g runs1 = Inr runs'"
    "ordered_runs (min count ((Suc ms + length bitmaps) * g)) runs'"
    "free_set runs' = free_set runs1 \<union>
      {x. Suc ms * g \<le> x \<and> x < count \<and> x div g < Suc ms + length bitmaps \<and>
          segment_bit (bitmaps ! (x div g - Suc ms)) (x mod g)}"
    by (rule Cons.IH [of "Suc ms" runs1]) (use Cons.prems 1 in auto)
  show ?case
  proof (rule Cons.prems(1))
    show "decode_groups ms (bitmap # bitmaps) count g runs = Inr runs'"
      using enough r(1) unfolding decode_groups.simps Let_def start runs1_def by (simp add: not_less)
    show "ordered_runs (min count ((ms + length (bitmap # bitmaps)) * g)) runs'" using r(2) by simp
    show "free_set runs' = free_set runs \<union>
      {x. ms * g \<le> x \<and> x < count \<and> x div g < ms + length (bitmap # bitmaps) \<and>
          segment_bit ((bitmap # bitmaps) ! (x div g - ms)) (x mod g)}"
    proof (rule set_eqI)
      fix x
      show "x \<in> free_set runs' \<longleftrightarrow> x \<in> free_set runs \<union>
        {x. ms * g \<le> x \<and> x < count \<and> x div g < ms + length (bitmap # bitmaps) \<and>
          segment_bit ((bitmap # bitmaps) ! (x div g - ms)) (x mod g)}"
        unfolding r(3) 2 using group_cases [OF \<open>0 < g\<close>, of ms x]
        by (cases "ms * g \<le> x") auto
    qed
  qed
qed

section \<open>Merging and the round trip\<close>

lemma ordered_runs_Cons:
  "ordered_runs n (r # rs) \<longleftrightarrow>
     ordered_runs n rs \<and> (\<forall>r' \<in> set rs. snd r \<le> fst r') \<and> fst r < snd r \<and> snd r \<le> n"
  by (auto simp: ordered_runs_def)

text \<open>A strictly separated sequence of runs is well formed in the sense of the free map.\<close>

lemma wf_runs_iff_sorted:
  "wf_runs n rs \<longleftrightarrow>
     sorted_wrt (\<lambda>r r'. snd r < fst r') rs \<and> (\<forall>r \<in> set rs. fst r < snd r \<and> snd r \<le> n)"
proof
  assume wf: "wf_runs n rs"
  then have "sorted_wrt (\<lambda>r r'. snd r < fst r') rs"
    by (induction rs) (auto dest: wf_runs_ConsD)
  with wf show "sorted_wrt (\<lambda>r r'. snd r < fst r') rs \<and> (\<forall>r \<in> set rs. fst r < snd r \<and> snd r \<le> n)"
    by (auto dest: wf_runsD)
next
  assume "sorted_wrt (\<lambda>r r'. snd r < fst r') rs \<and> (\<forall>r \<in> set rs. fst r < snd r \<and> snd r \<le> n)"
  then have sep: "sorted_wrt (\<lambda>r r'. snd r < fst r') rs"
    and len: "\<And>r. r \<in> set rs \<Longrightarrow> fst r < snd r \<and> snd r \<le> n" by blast+
  have "r < r'" if "r \<in> set rs" "snd r < fst r'" for r r'
    using len [OF that(1)] that(2) by (cases r; cases r') (simp add: less_prod_def)
  then have "bset rs" by (intro sorted_wrt_mono_rel [OF _ sep])
  moreover have "\<forall>r \<in> set rs. \<forall>r' \<in> set rs. r \<noteq> r' \<longrightarrow> snd r < fst r' \<or> snd r' < fst r"
    using sep by (induction rs) auto
  moreover have "\<forall>(s, e) \<in> set rs. s < e \<and> e \<le> n" using len by fastforce
  ultimately show "wf_runs n rs" by (simp add: wf_runs_def)
qed

lemma push_run_spec:
  assumes "wf_runs n (acc @ [q])" and "snd q \<le> fst r" and "fst r < snd r" and "snd r \<le> n"
  obtains acc' q' where "push_run (acc @ [q]) r = acc' @ [q']" and "wf_runs n (acc' @ [q'])"
    and "snd q' = snd r" and "free_set (acc' @ [q']) = free_set (acc @ [q]) \<union> {fst r..<snd r}"
proof (cases "snd q = fst r")
  case True
  show ?thesis
    by (rule that [of acc "(fst q, snd r)"])
       (use assms True in \<open>auto simp: push_run_def wf_runs_iff_sorted sorted_wrt_append\<close>)
next
  case False
  show ?thesis
    by (rule that [of "acc @ [q]" r])
       (use assms False in \<open>auto simp: push_run_def wf_runs_iff_sorted sorted_wrt_append\<close>)
qed

lemma foldl_push_run_spec:
  "wf_runs n (acc @ [q]) \<Longrightarrow> ordered_runs n (q' # rs) \<Longrightarrow> snd q' = snd q \<Longrightarrow>
     wf_runs n (foldl push_run (acc @ [q]) rs) \<and>
     free_set (foldl push_run (acc @ [q]) rs) = free_set (acc @ [q]) \<union> free_set rs"
proof (induction rs arbitrary: acc q q')
  case (Cons r rs)
  have r: "snd q \<le> fst r" "fst r < snd r" "snd r \<le> n" "ordered_runs n (r # rs)"
    using Cons.prems(2,3) by (auto simp: ordered_runs_Cons)
  obtain acc' p where p: "push_run (acc @ [q]) r = acc' @ [p]" "wf_runs n (acc' @ [p])" "snd p = snd r"
    "free_set (acc' @ [p]) = free_set (acc @ [q]) \<union> {fst r..<snd r}"
    using push_run_spec [OF Cons.prems(1) r(1-3)] by blast
  have "foldl push_run (acc @ [q]) (r # rs) = foldl push_run (acc' @ [p]) rs" by (simp add: p(1))
  moreover note Cons.IH [OF p(2) r(4) p(3) [symmetric]]
  ultimately show ?case unfolding p(4) by auto
qed simp

lemma merge_adjacent_runs_spec:
  assumes "ordered_runs n rs"
  shows "wf_runs n (merge_adjacent_runs rs)" and "free_set (merge_adjacent_runs rs) = free_set rs"
proof -
  have "wf_runs n (merge_adjacent_runs rs) \<and> free_set (merge_adjacent_runs rs) = free_set rs"
  proof (cases rs)
    case (Cons r rs')
    have "wf_runs n ([] @ [r])" using assms by (simp add: Cons ordered_runs_Cons wf_runs_iff_sorted)
    from foldl_push_run_spec [OF this assms [unfolded Cons]] show ?thesis
      by (simp add: Cons merge_adjacent_runs_def)
  qed (simp add: merge_adjacent_runs_def)
  then show "wf_runs n (merge_adjacent_runs rs)" and "free_set (merge_adjacent_runs rs) = free_set rs"
    by blast+
qed

text \<open>Decoding what the encoder wrote gives back the same runs, in the same form.\<close>

lemma decode_encode_bitmaps:
  assumes wf: "wf_runs count runs" and g: "0 < g" "8 dvd g" and groups: "div_ceil count g \<le> u32_max"
    and count: "count \<le> u64_max"
  obtains bitmaps where "encode_bitmaps runs count g = Inr bitmaps"
    and "decode_bitmaps bitmaps count g = Inr runs"
proof -
  obtain bitmaps where b: "encode_bitmaps runs count g = Inr bitmaps"
    "bitmaps_shape (div_ceil count g) (g div 8) bitmaps"
    "\<And>ms b. ms < div_ceil count g \<Longrightarrow> b < g \<Longrightarrow>
      segment_bit (bitmaps ! ms) b \<longleftrightarrow> ms * g + b \<in> free_set runs"
    using encode_bitmaps_spec [OF wf g groups] by blast
  have len: "length bitmaps = div_ceil count g" "\<forall>b \<in> set bitmaps. length b = g div 8"
    using b(2) by (auto simp: bitmaps_shape_def)
  have ord0: "ordered_runs (min count (0 * g)) []" by (simp add: ordered_runs_def)
  obtain runs' where r: "decode_groups 0 bitmaps count g [] = Inr runs'"
    "ordered_runs (min count ((0 + length bitmaps) * g)) runs'"
    "free_set runs' = free_set [] \<union>
      {x. 0 * g \<le> x \<and> x < count \<and> x div g < 0 + length bitmaps \<and>
          segment_bit (bitmaps ! (x div g - 0)) (x mod g)}"
    using decode_groups_spec [OF len(2) g(2,1) ord0 count] len(1) by auto
  have "free_set runs' = free_set runs"
  proof (rule set_eqI)
    fix x
    show "x \<in> free_set runs' \<longleftrightarrow> x \<in> free_set runs"
    proof (cases "x < count")
      case True
      then show ?thesis
        using less_div_ceil [OF g(1) True] b(3) [of "x div g" "x mod g"] g(1) by (simp add: r(3) len(1))
    next
      case False
      then show ?thesis using free_set_below [OF wf] by (auto simp: r(3))
    qed
  qed
  moreover have "ordered_runs count runs'" using ordered_runs_mono [OF r(2)] by simp
  ultimately have "merge_adjacent_runs runs' = runs"
    using wf_runs_canonical [OF _ wf] merge_adjacent_runs_spec by metis
  then show thesis using that b(1) by (simp add: decode_bitmaps_def r(1))
qed

lemma insert_all_runs_valid:
  "fm_inv fm \<Longrightarrow> \<forall>r \<in> set rs. fst r < snd r \<and> snd r \<le> segment_count fm \<Longrightarrow>
     \<exists>fm'. insert_all_runs rs fm = Inr fm'"
proof (induction rs arbitrary: fm)
  case (Cons r rs)
  obtain s e where r: "r = (s, e)" by force
  have valid: "s < e" "e \<le> segment_count fm" using Cons.prems(2) by (auto simp: r)
  obtain runs where q: "insert_run_merge s e fm = fm\<lparr>free_runs := runs, cached_free := run_total runs\<rparr>"
    "fm_inv (fm\<lparr>free_runs := runs, cached_free := run_total runs\<rparr>)"
    using insert_inv [OF Cons.prems(1) valid] by blast
  have "\<exists>fm'. insert_all_runs rs (fm\<lparr>free_runs := runs, cached_free := run_total runs\<rparr>) = Inr fm'"
    using Cons.prems(2) by (intro Cons.IH [OF q(2)]) simp
  with valid show ?case by (simp add: r validate_run_def q(1))
qed simp

lemma fm_new_runs:
  assumes "wf_runs n runs" and "n \<le> u64_max"
  obtains fm where "fm_new n runs = Inr fm" and "free_runs fm = runs" and "fm_inv fm" and "hints_fresh fm"
    and "segment_count fm = n"
proof -
  let ?z = "\<lparr>segment_count = n, free_runs = [], generation = 1,
         segment_group_segments = default_segment_group_segments,
         dirty_segment_groups = [], size_class_hints = hints_new,
         size_class_hit_count = 0, size_class_miss_count = 0, cached_free = 0\<rparr>"
  have "fm_inv ?z"
    using assms(2) by (simp add: fm_inv_def run_total_def default_segment_group_segments_def)
  then have "\<exists>fm'. insert_all_runs runs ?z = Inr fm'"
    using assms(1) by (intro insert_all_runs_valid) (auto simp: wf_runs_iff_sorted)
  then obtain fm where fm: "fm_new n runs = Inr fm" by (auto simp: fm_new_def Let_def)
  note * = fm_new_inv [OF fm assms(2)]
  have "free_runs fm = runs"
    by (rule wf_runs_canonical [OF fm_invD(1) [OF *(1)] assms(1) *(3)])
  with * fm show thesis using that by blast
qed

section \<open>Properties\<close>

text \<open>
  C22. Checkpoint round trip: a full checkpoint of a well-formed free map, whose segment groups
  fill whole bytes and whose group count fits 32 bits, is read back to a map with the same runs,
  free count, pool size and group size, fresh hints, and the same generation floored at one.
\<close>

theorem checkpoint_roundtrip:
  assumes "fm_inv fm" and "8 dvd segment_group_segments fm"
    and "div_ceil (segment_count fm) (segment_group_segments fm) \<le> u32_max"
  shows "\<exists>cp fm'. from_free_map fm False = Inr cp \<and> from_checkpoint cp = Inr fm' \<and>
    free_runs fm' = free_runs fm \<and> free_segments fm' = free_segments fm \<and>
    segment_count fm' = segment_count fm \<and>
    segment_group_segments fm' = segment_group_segments fm \<and>
    generation fm' = max (generation fm) 1 \<and> fm_inv fm' \<and> hints_fresh fm'"
proof -
  note inv = assms(1) [unfolded fm_inv_def]
  obtain bitmaps where b: "encode_bitmaps (free_runs fm) (segment_count fm) (segment_group_segments fm) = Inr bitmaps"
    "decode_bitmaps bitmaps (segment_count fm) (segment_group_segments fm) = Inr (free_runs fm)"
    using decode_encode_bitmaps inv assms(2,3) by metis
  obtain fm' where n: "fm_new (segment_count fm) (free_runs fm) = Inr fm'" "free_runs fm' = free_runs fm"
    "fm_inv fm'" "hints_fresh fm'" "segment_count fm' = segment_count fm"
    using fm_new_runs inv by metis
  have "cached_free fm' = cached_free fm" using n(2,3) inv by (simp add: fm_inv_def)
  moreover have "map (bitmap_data \<circ> (\<lambda>(i, data). \<lparr>entry_group_index = as_u32 i,
      bitmap_len = as_u32 (length data), bitmap_data = data\<rparr>)) (enumerate 0 bitmaps) = bitmaps"
    by (simp add: comp_def case_prod_beta)
  ultimately show ?thesis
    using inv n b
    by (simp add: from_free_map_def from_checkpoint_def segment_group_count_def free_segments_def
        fm_inv_def hints_fresh_def)
qed

theorem checkpoint_roundtrip_witness:
  "fm_inv sample_map \<and> 8 dvd segment_group_segments sample_map \<and>
   div_ceil (segment_count sample_map) (segment_group_segments sample_map) \<le> u32_max \<and>
   (\<exists>cp fm'. from_free_map sample_map False = Inr cp \<and> from_checkpoint cp = Inr fm' \<and>
      free_runs fm' = [(2, 5), (7, 9)])"
proof -
  have "8 dvd segment_group_segments sample_map"
    and "div_ceil (segment_count sample_map) (segment_group_segments sample_map) \<le> u32_max"
    and "free_runs sample_map = [(2, 5), (7, 9)]"
    by (simp_all add: sample_map_def div_ceil_def u32_max_def)
  with checkpoint_roundtrip [OF sample_map_ok(1)] show ?thesis
    using sample_map_ok(1) by metis
qed

text \<open>
  Incremental checkpoints are decoded by position: in a pool of two groups where only group 1
  is dirty, segments 2-4 and 7-9 are free, yet the restored map reports segments 0 and 1 (which
  are in use) as free and nothing else.
\<close>

theorem incremental_checkpoint_misplaced:
  "\<exists>cp fm'. free_runs (snd (add_free 9 sample_map)) = [(2, 5), (7, 10)] \<and>
     from_free_map (snd (add_free 9 sample_map)) True = Inr cp \<and>
     map entry_group_index (cp_entries cp) = [1] \<and>
     from_checkpoint cp = Inr fm' \<and> free_runs fm' = [(0, 2)]"
proof -
  have r: "snd (add_free 9 sample_map) =
      sample_map\<lparr>free_runs := [(2, 5), (7, 10)], cached_free := 6, dirty_segment_groups := [1]\<rparr>"
    by (simp add: sample_map_def add_free_def is_free_def runs_upto_rev_def insert_run_merge_def
        mark_dirty_ok u64_max_def less_eq_prod_def sat_add64_def run_total_def bset_remove_def as_u32_def)
  have l: "bitmap_layout 16 8 = Inr (2, 1)" by (simp add: bitmap_layout_def div_ceil_def as_u32_def)
  have z: "replicate 2 (replicate 1 0) = [[0], [0]]" by (simp add: numeral_2_eq_2)
  have e: "encode_bitmaps [(2, 5), (7, 10)] 16 8 = Inr [[0x9C], [0x03]]"
    unfolding encode_bitmaps_def l z sum.case prod.case by (simp add: set_segment_bit_def)
  have d: "decode_bitmaps [[0x03]] 16 8 = Inr [(0, 2)]"
    by (simp add: decode_bitmaps_def decode_group_def scan_bit_def segment_bit_def div_ceil_def
        merge_adjacent_runs_def upt_rec)
  obtain fm' where "fm_new 16 [(0, 2)] = Inr fm'" "free_runs fm' = [(0, 2)]"
    by (rule fm_new_runs [of 16 "[(0, 2)]"]) (auto simp: wf_runs_iff_sorted u64_max_def)
  then show ?thesis
    unfolding r by (simp add: from_free_map_def sample_map_def e segment_group_count_def
        from_checkpoint_def as_u32_def d)
qed

end
