(* ===== verification/Posix_Lock.thy ===== *)
theory Posix_Lock
  imports Tide_Prelude "HOL-Library.Multiset"
begin

text \<open>
  The POSIX byte-range lock table of the lock-service crate (\<open>posix_lock.rs\<close>): ranges with
  the to-end-of-file convention, lock types, the per-inode lock lists and parked waiters, and
  the operations that acquire, release, test and clear locks. The deadlock check that
  \<open>acquire_lock\<close> makes is a function of the wait-for edges and is defined in this theory; its
  correctness is in \<open>Lock_Deadlock\<close>. Process ids, inode numbers and byte offsets are
  natural numbers; the saturating sum of the range end is written out.
\<close>

section \<open>Ranges and lock types\<close>

record lock_range =
  lr_start :: nat
  lr_len :: nat

definition lock_range_new :: "nat \<Rightarrow> nat \<Rightarrow> lock_range" where
  "lock_range_new start len = \<lparr>lr_start = start, lr_len = len\<rparr>"

definition lr_end :: "lock_range \<Rightarrow> nat" where
  "lr_end r = (if lr_len r = 0 then u64_max else sat_add64 (lr_start r) (lr_len r))"

definition lr_overlaps :: "lock_range \<Rightarrow> lock_range \<Rightarrow> bool" where
  "lr_overlaps self other \<longleftrightarrow> lr_start self < lr_end other \<and> lr_start other < lr_end self"

definition adjacent_to :: "lock_range \<Rightarrow> lock_range \<Rightarrow> bool" where
  "adjacent_to self other \<longleftrightarrow> lr_end self = lr_start other \<or> lr_end other = lr_start self"

definition merge_with :: "lock_range \<Rightarrow> lock_range \<Rightarrow> lock_range option" where
  "merge_with self other =
     (if \<not> lr_overlaps self other \<and> \<not> adjacent_to self other then None
      else let new_start = min (lr_start self) (lr_start other);
               new_end = max (lr_end self) (lr_end other);
               len = (if new_end = u64_max then 0 else new_end - new_start)
           in Some \<lparr>lr_start = new_start, lr_len = len\<rparr>)"

datatype lock_type = Read | Write | Unlock

fun conflicts_with :: "lock_type \<Rightarrow> lock_type \<Rightarrow> bool" where
  "conflicts_with Write _ = True"
| "conflicts_with _ Write = True"
| "conflicts_with _ _ = False"

record lock_entry =
  range_of :: lock_range
  lock_type_of :: lock_type
  owner_pid :: nat

definition lock_entry_new :: "lock_range \<Rightarrow> lock_type \<Rightarrow> nat \<Rightarrow> lock_entry" where
  "lock_entry_new rng ty pid = \<lparr>range_of = rng, lock_type_of = ty, owner_pid = pid\<rparr>"

text \<open>A request conflicts with an existing lock.\<close>

definition entry_conflicts :: "lock_entry \<Rightarrow> lock_entry \<Rightarrow> bool" where
  "entry_conflicts entry existing \<longleftrightarrow>
     lr_overlaps (range_of existing) (range_of entry) \<and>
     conflicts_with (lock_type_of entry) (lock_type_of existing)"

datatype posix_lock_error = WouldBlock | Deadlock | NotFound

record waiter =
  waiter_entry :: lock_entry
  waiter_opaque :: nat

record inode_state =
  locks :: "lock_entry list"
  waiters :: "waiter list"

definition inode_state_default :: inode_state where
  "inode_state_default = \<lparr>locks = [], waiters = []\<rparr>"

record posix_lock_table =
  inodes :: "(nat \<times> inode_state) list"

definition posix_lock_table_new :: posix_lock_table where
  "posix_lock_table_new = \<lparr>inodes = []\<rparr>"

section \<open>The deadlock search\<close>

text \<open>
  The depth-first search threads its \<open>visited\<close> and \<open>stack\<close> sets through the calls. Its
  recursion depth is bounded by fuel, and running out of fuel is the value \<open>None\<close>.
\<close>

type_synonym wait_edges = "(nat \<times> nat) list"

fun dfs_cycle :: "nat \<Rightarrow> wait_edges \<Rightarrow> nat \<Rightarrow> nat set \<Rightarrow> nat set \<Rightarrow> (bool \<times> nat set \<times> nat set) option"
  and dfs_edges :: "nat \<Rightarrow> wait_edges \<Rightarrow> nat \<Rightarrow> wait_edges \<Rightarrow> nat set \<Rightarrow> nat set \<Rightarrow>
    (bool \<times> nat set \<times> nat set) option" where
  "dfs_cycle 0 edges node visited stack = None"
| "dfs_cycle (Suc n) edges node visited stack =
     (if node \<in> stack then Some (True, visited, stack)
      else if node \<in> visited then Some (False, visited, stack)
      else case dfs_edges n edges node edges (insert node visited) (insert node stack) of
        None \<Rightarrow> None
      | Some (found, visited', stack') \<Rightarrow>
          if found then Some (True, visited', stack') else Some (False, visited', stack' - {node}))"
| "dfs_edges n edges node [] visited stack = Some (False, visited, stack)"
| "dfs_edges n edges node ((from, to) # es) visited stack =
     (if from = node then
        case dfs_cycle n edges to visited stack of
          None \<Rightarrow> None
        | Some (found, visited', stack') \<Rightarrow>
            if found then Some (True, visited', stack') else dfs_edges n edges node es visited' stack'
      else dfs_edges n edges node es visited stack)"

definition parked_edges :: "inode_state \<Rightarrow> wait_edges" where
  "parked_edges st =
     concat (map (\<lambda>w. map (\<lambda>existing. (owner_pid (waiter_entry w), owner_pid existing))
                        (filter (\<lambda>existing. entry_conflicts (waiter_entry w) existing \<and>
                                   owner_pid existing \<noteq> owner_pid (waiter_entry w)) (locks st)))
               (waiters st))"

definition table_edges :: "posix_lock_table \<Rightarrow> wait_edges" where
  "table_edges t = concat (map (\<lambda>(_, st). parked_edges st) (inodes t))"

definition proposed_edges :: "nat \<Rightarrow> nat list \<Rightarrow> wait_edges" where
  "proposed_edges waiter_pid holders = map (\<lambda>h. (waiter_pid, h)) (filter (\<lambda>h. h \<noteq> waiter_pid) holders)"

definition would_deadlock :: "posix_lock_table \<Rightarrow> nat \<Rightarrow> nat list \<Rightarrow> bool option" where
  "would_deadlock t waiter_pid holders =
     (let edges = proposed_edges waiter_pid holders @ table_edges t
      in map_option fst (dfs_cycle (length edges + 2) edges waiter_pid {} {}))"

section \<open>Operations\<close>

definition insert_lock :: "nat \<Rightarrow> lock_entry \<Rightarrow> posix_lock_table \<Rightarrow> posix_lock_table" where
  "insert_lock ino entry t =
     (let st = (case map_of (inodes t) ino of None \<Rightarrow> inode_state_default | Some st \<Rightarrow> st);
          st' = st\<lparr>locks := sort_key (lr_start \<circ> range_of) (locks st @ [entry])\<rparr>
      in t\<lparr>inodes := bmap_put ino st' (inodes t)\<rparr>)"

definition conflicting_pids :: "posix_lock_table \<Rightarrow> nat \<Rightarrow> lock_entry \<Rightarrow> nat list" where
  "conflicting_pids t ino entry =
     (case map_of (inodes t) ino of
        None \<Rightarrow> []
      | Some st \<Rightarrow> map owner_pid (filter (entry_conflicts entry) (locks st)))"

text \<open>\<open>None\<close> stands for a search that ran out of fuel; it does not occur.\<close>

definition acquire_lock ::
    "nat \<Rightarrow> lock_entry \<Rightarrow> bool \<Rightarrow> nat \<Rightarrow> posix_lock_table \<Rightarrow>
     ((posix_lock_error + unit) \<times> posix_lock_table) option" where
  "acquire_lock ino entry blocking opaque t =
     (if lock_type_of entry = Unlock then Some (Inr (), t)
      else let pids = conflicting_pids t ino entry
           in if pids = [] then Some (Inr (), insert_lock ino entry t)
              else if \<not> blocking then Some (Inl WouldBlock, t)
              else case would_deadlock t (owner_pid entry) pids of
                None \<Rightarrow> None
              | Some True \<Rightarrow> Some (Inl Deadlock, t)
              | Some False \<Rightarrow>
                  let st = (case map_of (inodes t) ino of None \<Rightarrow> inode_state_default | Some st \<Rightarrow> st);
                      st' = st\<lparr>waiters := waiters st @ [\<lparr>waiter_entry = entry, waiter_opaque = opaque\<rparr>]\<rparr>
                  in Some (Inr (), t\<lparr>inodes := bmap_put ino st' (inodes t)\<rparr>))"

definition merge_step :: "nat \<Rightarrow> lock_entry list \<Rightarrow> lock_entry \<Rightarrow> lock_entry list" where
  "merge_step pid merged entry =
     (if owner_pid entry \<noteq> pid \<or> merged = [] then merged @ [entry]
      else let l = last merged
           in if owner_pid l = pid \<and> lock_type_of l = lock_type_of entry \<and>
                 adjacent_to (range_of l) (range_of entry)
              then case merge_with (range_of l) (range_of entry) of
                     Some combined \<Rightarrow> butlast merged @ [l\<lparr>range_of := combined\<rparr>]
                   | None \<Rightarrow> merged @ [entry]
              else merged @ [entry])"

definition merge_adjacent :: "nat \<Rightarrow> nat \<Rightarrow> posix_lock_table \<Rightarrow> posix_lock_table" where
  "merge_adjacent ino pid t =
     (case map_of (inodes t) ino of
        None \<Rightarrow> t
      | Some st \<Rightarrow>
          t\<lparr>inodes := bmap_put ino
              (st\<lparr>locks := foldl (merge_step pid) [] (sort_key (lr_start \<circ> range_of) (locks st))\<rparr>)
              (inodes t)\<rparr>)"

definition drain_satisfied_waiters :: "nat \<Rightarrow> posix_lock_table \<Rightarrow> waiter list \<times> posix_lock_table" where
  "drain_satisfied_waiters ino t =
     (case map_of (inodes t) ino of
        None \<Rightarrow> ([], t)
      | Some st \<Rightarrow>
          let still_conflicts = (\<lambda>w. list_ex (entry_conflicts (waiter_entry w)) (locks st));
              grant = filter (\<lambda>w. \<not> still_conflicts w) (waiters st);
              waiting = filter still_conflicts (waiters st);
              t' = t\<lparr>inodes := bmap_put ino (st\<lparr>waiters := waiting\<rparr>) (inodes t)\<rparr>
          in (grant, fold (\<lambda>w. insert_lock ino (waiter_entry w)) grant t'))"

definition gc_inode :: "nat \<Rightarrow> posix_lock_table \<Rightarrow> posix_lock_table" where
  "gc_inode ino t =
     (case map_of (inodes t) ino of
        None \<Rightarrow> t
      | Some st \<Rightarrow>
          if locks st = [] \<and> waiters st = [] then t\<lparr>inodes := bmap_del ino (inodes t)\<rparr> else t)"

definition release_lock ::
    "nat \<Rightarrow> lock_range \<Rightarrow> nat \<Rightarrow> posix_lock_table \<Rightarrow>
     (posix_lock_error + waiter list) \<times> posix_lock_table" where
  "release_lock ino rng pid t =
     (case map_of (inodes t) ino of
        None \<Rightarrow> (Inl NotFound, t)
      | Some st \<Rightarrow>
          (case List.extract (\<lambda>e. owner_pid e = pid \<and> lr_start (range_of e) = lr_start rng \<and>
                                 lr_end (range_of e) = lr_end rng) (locks st) of
             None \<Rightarrow> (Inl NotFound, t)
           | Some (before, _, after) \<Rightarrow>
               let t1 = t\<lparr>inodes := bmap_put ino (st\<lparr>locks := before @ after\<rparr>) (inodes t)\<rparr>;
                   t2 = merge_adjacent ino pid t1;
                   (woken, t3) = drain_satisfied_waiters ino t2
               in (Inr woken, gc_inode ino t3)))"

definition test_lock :: "posix_lock_table \<Rightarrow> nat \<Rightarrow> lock_range \<Rightarrow> lock_type \<Rightarrow> lock_entry option" where
  "test_lock t ino rng ty =
     (case map_of (inodes t) ino of
        None \<Rightarrow> None
      | Some st \<Rightarrow> find (\<lambda>existing. lr_overlaps (range_of existing) rng \<and>
                              conflicts_with ty (lock_type_of existing)) (locks st))"

fun release_owner_inodes ::
    "nat \<Rightarrow> nat list \<Rightarrow> nat \<Rightarrow> posix_lock_table \<Rightarrow> nat \<times> posix_lock_table" where
  "release_owner_inodes pid [] released t = (released, t)"
| "release_owner_inodes pid (ino # inos) released t =
     (case map_of (inodes t) ino of
        None \<Rightarrow> release_owner_inodes pid inos released t
      | Some st \<Rightarrow>
          let kept = filter (\<lambda>e. owner_pid e \<noteq> pid) (locks st);
              t' = t\<lparr>inodes := bmap_put ino (st\<lparr>locks := kept\<rparr>) (inodes t)\<rparr>
          in release_owner_inodes pid inos (released + (length (locks st) - length kept))
               (gc_inode ino t'))"

definition release_all_for_owner :: "nat \<Rightarrow> posix_lock_table \<Rightarrow> nat \<times> posix_lock_table" where
  "release_all_for_owner pid t = release_owner_inodes pid (map fst (inodes t)) 0 t"

definition all_locks :: "posix_lock_table \<Rightarrow> (nat \<times> lock_entry) list" where
  "all_locks t =
     sort_key (\<lambda>(ino, e). (ino, lr_start (range_of e)))
       (concat (map (\<lambda>(ino, st). map (Pair ino) (locks st)) (inodes t)))"

definition waiter_count :: "posix_lock_table \<Rightarrow> nat" where
  "waiter_count t = sum_list (map (\<lambda>(_, st). length (waiters st)) (inodes t))"

definition lock_count :: "posix_lock_table \<Rightarrow> nat" where
  "lock_count t = sum_list (map (\<lambda>(_, st). length (locks st)) (inodes t))"

definition has_inode :: "posix_lock_table \<Rightarrow> nat \<Rightarrow> bool" where
  "has_inode t ino \<longleftrightarrow> map_of (inodes t) ino \<noteq> None"

section \<open>Ranges as sets of bytes\<close>

definition lr_bytes :: "lock_range \<Rightarrow> nat set" where
  "lr_bytes r = {lr_start r..<lr_end r}"

definition wf_range :: "lock_range \<Rightarrow> bool" where
  "wf_range r \<longleftrightarrow> lr_start r \<le> u64_max"

lemma lr_end_bounds:
  assumes "wf_range r"
  shows "lr_start r \<le> lr_end r" and "lr_end r \<le> u64_max"
  using assms by (auto simp: lr_end_def wf_range_def sat_add64_def)

lemma lr_end_cases:
  assumes "wf_range r"
  obtains "lr_start r < lr_end r" | "lr_start r = u64_max" and "lr_end r = u64_max"
  using assms by (cases "lr_start r = u64_max") (auto simp: lr_end_def wf_range_def sat_add64_def)

lemma lr_overlaps_iff:
  assumes "wf_range a" and "wf_range b"
  shows "lr_overlaps a b \<longleftrightarrow> lr_bytes a \<inter> lr_bytes b \<noteq> {}"
proof
  assume *: "lr_overlaps a b"
  then have "lr_start a \<noteq> u64_max" and "lr_start b \<noteq> u64_max"
    using lr_end_bounds(2) [OF assms(1)] lr_end_bounds(2) [OF assms(2)] by (auto simp: lr_overlaps_def)
  then have "lr_start a < lr_end a" and "lr_start b < lr_end b"
    using assms by (auto elim: lr_end_cases)
  with * have "max (lr_start a) (lr_start b) \<in> lr_bytes a \<inter> lr_bytes b"
    by (auto simp: lr_overlaps_def lr_bytes_def)
  then show "lr_bytes a \<inter> lr_bytes b \<noteq> {}" by blast
next
  assume "lr_bytes a \<inter> lr_bytes b \<noteq> {}"
  then show "lr_overlaps a b" by (auto simp: lr_overlaps_def lr_bytes_def)
qed

lemma lr_end_of_bounds:
  assumes "a < b \<or> b = u64_max" and "b \<le> u64_max"
  shows "lr_end \<lparr>lr_start = a, lr_len = if b = u64_max then 0 else b - a\<rparr> = b"
  using assms by (auto simp: lr_end_def sat_add64_def)

lemma merge_with_adjacent:
  assumes "wf_range a" and "wf_range b" and "adjacent_to a b"
  obtains c where "merge_with a b = Some c" and "lr_bytes c = lr_bytes a \<union> lr_bytes b" and "wf_range c"
proof -
  let ?s = "min (lr_start a) (lr_start b)" and ?e = "max (lr_end a) (lr_end b)"
  define c where "c = \<lparr>lr_start = ?s, lr_len = if ?e = u64_max then 0 else ?e - ?s\<rparr>"
  note bounds = lr_end_bounds [OF assms(1)] lr_end_bounds [OF assms(2)]
  have "?s \<le> ?e" and "?e \<le> u64_max" using bounds by simp_all
  have "?s < ?e \<or> ?e = u64_max"
    using bounds by (rule_tac lr_end_cases [OF assms(1)]) auto
  then have e: "lr_end c = ?e"
    unfolding c_def using \<open>?e \<le> u64_max\<close> by (rule lr_end_of_bounds)
  have s: "lr_start c = ?s" by (simp add: c_def)
  have "lr_bytes c = lr_bytes a \<union> lr_bytes b"
    using assms(3) bounds unfolding lr_bytes_def e s adjacent_to_def by auto
  moreover have "merge_with a b = Some c" using assms(3) by (simp add: merge_with_def c_def Let_def)
  moreover have "wf_range c" using assms(1) by (simp add: wf_range_def s min_le_iff_disj)
  ultimately show thesis using that by blast
qed

section \<open>Sets of compatible locks\<close>

text \<open>
  What the table relies on of a lock conflict relation: that it is symmetric. Then a list of locks
  without conflicting pairs stays so under reordering, removal and the addition of a lock that
  conflicts with none of them.
\<close>

definition compatible :: "('a \<Rightarrow> 'a \<Rightarrow> bool) \<Rightarrow> 'a list \<Rightarrow> bool" where
  "compatible conflict xs = sorted_wrt (\<lambda>x y. \<not> conflict x y) xs"

lemma compatible_Nil [simp]: "compatible conflict []"
  by (simp add: compatible_def)

lemma compatible_append:
  "compatible conflict (xs @ ys) \<longleftrightarrow> compatible conflict xs \<and> compatible conflict ys \<and>
     (\<forall>x \<in> set xs. \<forall>y \<in> set ys. \<not> conflict x y)"
  by (auto simp: compatible_def sorted_wrt_append)

lemma compatible_single [simp]: "compatible conflict [x]"
  by (simp add: compatible_def)

locale lock_compatibility =
  fixes conflict :: "'a \<Rightarrow> 'a \<Rightarrow> bool"
  assumes conflict_sym: "conflict x y \<longleftrightarrow> conflict y x"
begin

lemma compatible_mset_iff:
  "compatible conflict xs \<longleftrightarrow> (\<forall>x \<in># mset xs. \<forall>y \<in># mset xs - {#x#}. \<not> conflict x y)"
proof (induction xs)
  case (Cons a xs)
  have *: "mset (a # xs) - {#x#} = add_mset a (mset xs - {#x#})" if "x \<in># mset xs" for x
    using that by (cases "x = a") (simp_all add: insert_DiffM)
  have "compatible conflict (a # xs) \<longleftrightarrow>
      (\<forall>y \<in># mset xs. \<not> conflict a y) \<and> compatible conflict xs"
    by (simp add: compatible_def)
  also have "\<dots> \<longleftrightarrow> (\<forall>x \<in># mset (a # xs). \<forall>y \<in># mset (a # xs) - {#x#}. \<not> conflict x y)"
    unfolding Cons.IH using * conflict_sym by auto
  finally show ?case .
qed simp

lemma compatible_perm: "mset xs = mset ys \<Longrightarrow> compatible conflict xs \<longleftrightarrow> compatible conflict ys"
  by (simp only: compatible_mset_iff)

lemma compatible_add:
  "compatible conflict (xs @ [x]) \<longleftrightarrow> compatible conflict xs \<and> (\<forall>y \<in> set xs. \<not> conflict x y)"
  using conflict_sym by (auto simp: compatible_append)

lemma compatible_sort_add:
  "compatible conflict (sort_key f (xs @ [x])) \<longleftrightarrow>
     compatible conflict xs \<and> (\<forall>y \<in> set xs. \<not> conflict x y)"
  using compatible_perm [of "sort_key f (xs @ [x])" "xs @ [x]"] by (simp add: compatible_add)

lemma compatible_remove: "compatible conflict (xs @ x # ys) \<Longrightarrow> compatible conflict (xs @ ys)"
  by (auto simp: compatible_def sorted_wrt_append)

end

lemma conflicts_with_sym: "conflicts_with a b \<longleftrightarrow> conflicts_with b a"
  by (cases a; cases b) simp_all

interpretation lock_conflicts: lock_compatibility entry_conflicts
  by unfold_locales (auto simp: entry_conflicts_def lr_overlaps_def conflicts_with_sym)

section \<open>Well-formed lock tables\<close>

definition wf_entry :: "lock_entry \<Rightarrow> bool" where
  "wf_entry e \<longleftrightarrow> wf_range (range_of e) \<and> lock_type_of e \<noteq> Unlock"

definition locks_ok :: "lock_entry list \<Rightarrow> bool" where
  "locks_ok ls \<longleftrightarrow> compatible entry_conflicts ls \<and> (\<forall>e \<in> set ls. wf_entry e)"

definition table_inv :: "posix_lock_table \<Rightarrow> bool" where
  "table_inv t \<longleftrightarrow> bmap (inodes t) \<and>
     (\<forall>ino st. map_of (inodes t) ino = Some st \<longrightarrow>
        locks_ok (locks st) \<and> (\<forall>w \<in> set (waiters st). wf_entry (waiter_entry w)))"

definition locks_of :: "posix_lock_table \<Rightarrow> nat \<Rightarrow> lock_entry list" where
  "locks_of t ino = (case map_of (inodes t) ino of None \<Rightarrow> [] | Some st \<Rightarrow> locks st)"

definition waiters_of :: "posix_lock_table \<Rightarrow> nat \<Rightarrow> waiter list" where
  "waiters_of t ino = (case map_of (inodes t) ino of None \<Rightarrow> [] | Some st \<Rightarrow> waiters st)"

text \<open>The bytes a process holds with a lock type.\<close>

definition held :: "lock_entry list \<Rightarrow> nat \<Rightarrow> lock_type \<Rightarrow> nat set" where
  "held ls pid ty = (\<Union>e \<in> {e \<in> set ls. owner_pid e = pid \<and> lock_type_of e = ty}. lr_bytes (range_of e))"

lemma table_inv_new [simp]: "table_inv posix_lock_table_new"
  by (simp add: table_inv_def posix_lock_table_new_def)

lemma table_invI:
  assumes "bmap (inodes t)" and "\<And>ino. locks_ok (locks_of t ino)"
    and "\<And>ino w. w \<in> set (waiters_of t ino) \<Longrightarrow> wf_entry (waiter_entry w)"
  shows "table_inv t"
  unfolding table_inv_def
proof (intro conjI allI impI)
  fix ino st assume "map_of (inodes t) ino = Some st"
  then show "locks_ok (locks st)" and "\<forall>w \<in> set (waiters st). wf_entry (waiter_entry w)"
    using assms(2) [of ino] assms(3) [of _ ino] by (simp_all add: locks_of_def waiters_of_def)
qed (rule assms(1))

lemma table_invD:
  assumes "table_inv t"
  shows "bmap (inodes t)" and "locks_ok (locks_of t ino)"
    and "w \<in> set (waiters_of t ino) \<Longrightarrow> wf_entry (waiter_entry w)"
  using assms
  by (cases "map_of (inodes t) ino"; auto simp: table_inv_def locks_of_def waiters_of_def locks_ok_def)+

text \<open>How an update of one inode shows in the lists of locks and waiters.\<close>

lemma put_views [simp]:
  "locks_of (t\<lparr>inodes := bmap_put ino st m\<rparr>) ino' =
     (if ino' = ino then locks st else locks_of (t\<lparr>inodes := m\<rparr>) ino')"
  "waiters_of (t\<lparr>inodes := bmap_put ino st m\<rparr>) ino' =
     (if ino' = ino then waiters st else waiters_of (t\<lparr>inodes := m\<rparr>) ino')"
  by (simp_all add: locks_of_def waiters_of_def)

lemma same_inodes [simp]: "t\<lparr>inodes := inodes t\<rparr> = (t :: posix_lock_table)"
  by simp

lemma insert_lock_views:
  "locks_of (insert_lock ino e t) ino' =
     (if ino' = ino then sort_key (lr_start \<circ> range_of) (locks_of t ino @ [e]) else locks_of t ino')"
  "waiters_of (insert_lock ino e t) ino' = waiters_of t ino'"
  "bmap (inodes t) \<Longrightarrow> bmap (inodes (insert_lock ino e t))"
  by (auto simp: insert_lock_def Let_def locks_of_def waiters_of_def inode_state_default_def
      split: option.splits)

lemma gc_inode_views [simp]:
  "locks_of (gc_inode ino t) ino' = locks_of t ino'"
  "waiters_of (gc_inode ino t) ino' = waiters_of t ino'"
  "bmap (inodes t) \<Longrightarrow> bmap (inodes (gc_inode ino t))"
  by (auto simp: gc_inode_def locks_of_def waiters_of_def split: option.splits)

lemma locks_ok_insert:
  "locks_ok ls \<Longrightarrow> wf_entry e \<Longrightarrow> \<forall>e' \<in> set ls. \<not> entry_conflicts e e' \<Longrightarrow>
     locks_ok (sort_key f (ls @ [e]))"
  by (auto simp: locks_ok_def lock_conflicts.compatible_sort_add)

lemma conflicting_pids_eq:
  "conflicting_pids t ino e = map owner_pid (filter (entry_conflicts e) (locks_of t ino))"
  by (simp add: conflicting_pids_def locks_of_def split: option.splits)

lemma conflicting_pids_Nil:
  "conflicting_pids t ino e = [] \<longleftrightarrow> (\<forall>e' \<in> set (locks_of t ino). \<not> entry_conflicts e e')"
  by (simp add: conflicting_pids_eq filter_empty_conv)

lemma insert_lock_inv:
  assumes "table_inv t" and "wf_entry e" and "conflicting_pids t ino e = []"
  shows "table_inv (insert_lock ino e t)"
  using assms(2,3) table_invD [OF assms(1)]
  by (intro table_invI) (auto simp: insert_lock_views conflicting_pids_Nil locks_ok_insert)

section \<open>Merging\<close>

lemma held_Nil [simp]: "held [] pid ty = {}"
  by (simp add: held_def)

lemma held_append [simp]: "held (xs @ ys) pid ty = held xs pid ty \<union> held ys pid ty"
  by (auto simp: held_def)

lemma held_Cons [simp]: "held (e # es) pid ty =
    (if owner_pid e = pid \<and> lock_type_of e = ty then lr_bytes (range_of e) else {}) \<union> held es pid ty"
  by (auto simp: held_def)

lemma held_set_cong: "set xs = set ys \<Longrightarrow> held xs pid ty = held ys pid ty"
  by (simp add: held_def)

lemma entry_conflicts_bytes:
  assumes "wf_entry a" and "wf_entry b"
  shows "entry_conflicts a b \<longleftrightarrow> lr_bytes (range_of a) \<inter> lr_bytes (range_of b) \<noteq> {} \<and>
    conflicts_with (lock_type_of a) (lock_type_of b)"
  using assms lr_overlaps_iff [of "range_of b" "range_of a"]
  by (auto simp: entry_conflicts_def wf_entry_def)

lemma merge_step_spec:
  assumes ok: "locks_ok (merged @ e # rest)"
  shows "locks_ok (merge_step pid merged e @ rest)"
    and "held (merge_step pid merged e) p ty = held (merged @ [e]) p ty"
proof -
  have "locks_ok (merge_step pid merged e @ rest) \<and>
      held (merge_step pid merged e) p ty = held (merged @ [e]) p ty"
  proof (cases "owner_pid e = pid \<and> merged \<noteq> [] \<and> owner_pid (last merged) = pid \<and>
      lock_type_of (last merged) = lock_type_of e \<and>
      adjacent_to (range_of (last merged)) (range_of e)")
    case False
    then have "merge_step pid merged e = merged @ [e]" by (auto simp: merge_step_def Let_def)
    with ok show ?thesis by simp
  next
    case True
    then obtain ms l where ms: "merged = ms @ [l]" by (metis rev_exhaust)
    have wf: "wf_entry l" "wf_entry e" "\<forall>x \<in> set ms \<union> set rest. wf_entry x"
      using ok by (auto simp: ms locks_ok_def)
    obtain c where c: "merge_with (range_of l) (range_of e) = Some c"
      "lr_bytes c = lr_bytes (range_of l) \<union> lr_bytes (range_of e)" "wf_range c"
      using merge_with_adjacent [of "range_of l" "range_of e"] wf(1,2) True
      by (auto simp: ms wf_entry_def)
    let ?l = "l\<lparr>range_of := c\<rparr>"
    have step: "merge_step pid merged e = ms @ [?l]"
      using True by (simp add: merge_step_def ms c(1))
    have "wf_entry ?l" using wf(1) c(3) by (simp add: wf_entry_def)
    moreover from this have "entry_conflicts ?l x \<longleftrightarrow> entry_conflicts l x \<or> entry_conflicts e x"
      if "x \<in> set ms \<union> set rest" for x
      using that wf True c(2) by (auto simp: ms entry_conflicts_bytes)
    ultimately have "locks_ok (ms @ ?l # rest)"
      using ok lock_conflicts.conflict_sym
      by (simp add: ms locks_ok_def compatible_def sorted_wrt_append)
    moreover have "held (ms @ [?l]) p ty = held (merged @ [e]) p ty"
      using True by (auto simp: ms c(2))
    ultimately show ?thesis by (simp add: step)
  qed
  then show "locks_ok (merge_step pid merged e @ rest)"
    and "held (merge_step pid merged e) p ty = held (merged @ [e]) p ty" by blast+
qed

lemma foldl_merge_step:
  "locks_ok (merged @ rest) \<Longrightarrow>
     locks_ok (foldl (merge_step pid) merged rest) \<and>
     held (foldl (merge_step pid) merged rest) p ty = held (merged @ rest) p ty"
proof (induction rest arbitrary: merged)
  case (Cons e rest)
  note s = merge_step_spec [OF Cons.prems, where pid = pid]
  from Cons.IH [OF s(1)] s(2) [of p ty] show ?case by auto
qed simp

section \<open>Releasing and waking\<close>

lemma merge_adjacent_views:
  "locks_of (merge_adjacent ino pid t) ino' =
     (if ino' = ino then foldl (merge_step pid) [] (sort_key (lr_start \<circ> range_of) (locks_of t ino))
      else locks_of t ino')"
  "waiters_of (merge_adjacent ino pid t) ino' = waiters_of t ino'"
  "bmap (inodes t) \<Longrightarrow> bmap (inodes (merge_adjacent ino pid t))"
  by (auto simp: merge_adjacent_def locks_of_def waiters_of_def split: option.splits)

lemma fold_insert_views:
  "mset (locks_of (fold (\<lambda>w. insert_lock ino (waiter_entry w)) ws t) ino) =
     mset (locks_of t ino) + mset (map waiter_entry ws)"
  "ino' \<noteq> ino \<Longrightarrow> locks_of (fold (\<lambda>w. insert_lock ino (waiter_entry w)) ws t) ino' = locks_of t ino'"
  "waiters_of (fold (\<lambda>w. insert_lock ino (waiter_entry w)) ws t) i = waiters_of t i"
  "bmap (inodes t) \<Longrightarrow> bmap (inodes (fold (\<lambda>w. insert_lock ino (waiter_entry w)) ws t))"
  by (induction ws arbitrary: t) (simp_all add: insert_lock_views)

lemma drain_views:
  assumes "drain_satisfied_waiters ino t = (woken, t')"
  shows "woken = filter (\<lambda>w. \<not> list_ex (entry_conflicts (waiter_entry w)) (locks_of t ino)) (waiters_of t ino)"
    and "mset (locks_of t' ino) = mset (locks_of t ino) + mset (map waiter_entry woken)"
    and "waiters_of t' ino = filter (\<lambda>w. list_ex (entry_conflicts (waiter_entry w)) (locks_of t ino)) (waiters_of t ino)"
    and "ino' \<noteq> ino \<Longrightarrow> locks_of t' ino' = locks_of t ino'"
    and "ino' \<noteq> ino \<Longrightarrow> waiters_of t' ino' = waiters_of t ino'"
    and "bmap (inodes t) \<Longrightarrow> bmap (inodes t')"
  using assms
  by (cases "map_of (inodes t) ino";
      auto simp: drain_satisfied_waiters_def Let_def fold_insert_views; simp add: locks_of_def waiters_of_def)+

text \<open>Whether a request conflicts with a list of locks depends only on what is held.\<close>

lemma conflict_iff_held:
  assumes "wf_entry x" and "\<forall>e \<in> set ls. wf_entry e"
  shows "list_ex (entry_conflicts x) ls \<longleftrightarrow>
    (\<exists>p ty. held ls p ty \<inter> lr_bytes (range_of x) \<noteq> {} \<and> conflicts_with (lock_type_of x) ty)"
proof
  assume "list_ex (entry_conflicts x) ls"
  then obtain e where e: "e \<in> set ls" "entry_conflicts x e" by (auto simp: list_ex_iff)
  then have "lr_bytes (range_of x) \<inter> lr_bytes (range_of e) \<noteq> {}"
    and ty: "conflicts_with (lock_type_of x) (lock_type_of e)"
    using assms by (auto simp: entry_conflicts_bytes)
  moreover have "lr_bytes (range_of e) \<subseteq> held ls (owner_pid e) (lock_type_of e)"
    using e(1) by (auto simp: held_def)
  ultimately show "\<exists>p ty. held ls p ty \<inter> lr_bytes (range_of x) \<noteq> {} \<and> conflicts_with (lock_type_of x) ty"
    by blast
next
  assume "\<exists>p ty. held ls p ty \<inter> lr_bytes (range_of x) \<noteq> {} \<and> conflicts_with (lock_type_of x) ty"
  then obtain e where "e \<in> set ls" "lr_bytes (range_of e) \<inter> lr_bytes (range_of x) \<noteq> {}"
    "conflicts_with (lock_type_of x) (lock_type_of e)"
    by (auto simp: held_def)
  then show "list_ex (entry_conflicts x) ls"
    using assms by (auto simp: list_ex_iff entry_conflicts_bytes)
qed

text \<open>
  The state of an inode after a successful release, in terms of the locks that remain when the
  released one is taken out: merging does not change who holds what, and exactly the waiters
  that conflict with nothing that remains are granted.
\<close>

definition release_effect ::
    "posix_lock_table \<Rightarrow> nat \<Rightarrow> lock_entry list \<Rightarrow> waiter list \<Rightarrow> posix_lock_table \<Rightarrow> bool" where
  "release_effect t ino remaining woken t' \<longleftrightarrow>
     (let blocked = (\<lambda>w. list_ex (entry_conflicts (waiter_entry w)) remaining) in
      woken = filter (\<lambda>w. \<not> blocked w) (waiters_of t ino) \<and>
      waiters_of t' ino = filter blocked (waiters_of t ino)) \<and>
     (\<forall>p ty. held (locks_of t' ino) p ty = held (remaining @ map waiter_entry woken) p ty) \<and>
     (\<forall>ino'. ino' \<noteq> ino \<longrightarrow> locks_of t' ino' = locks_of t ino' \<and> waiters_of t' ino' = waiters_of t ino')"

lemma merge_adjacent_ok:
  assumes "locks_ok (locks_of t ino)"
  shows "locks_ok (locks_of (merge_adjacent ino pid t) ino)"
    and "held (locks_of (merge_adjacent ino pid t) ino) p ty = held (locks_of t ino) p ty"
proof -
  let ?ls = "sort_key (lr_start \<circ> range_of) (locks_of t ino)"
  have "locks_ok ([] @ ?ls)"
    using assms lock_conflicts.compatible_perm [of ?ls "locks_of t ino"] by (simp add: locks_ok_def)
  from foldl_merge_step [OF this, of pid p ty] held_set_cong [of ?ls "locks_of t ino" p ty]
  show "locks_ok (locks_of (merge_adjacent ino pid t) ino)"
    and "held (locks_of (merge_adjacent ino pid t) ino) p ty = held (locks_of t ino) p ty"
    by (simp_all add: merge_adjacent_views)
qed

lemma merge_drain:
  assumes ok: "locks_ok (locks_of t ino)" and wf: "\<forall>w \<in> set (waiters_of t ino). wf_entry (waiter_entry w)"
    and drain: "drain_satisfied_waiters ino (merge_adjacent ino pid t) = (woken, t')"
  defines "blocked \<equiv> \<lambda>w. list_ex (entry_conflicts (waiter_entry w)) (locks_of t ino)"
  shows "woken = filter (\<lambda>w. \<not> blocked w) (waiters_of t ino)"
    and "waiters_of t' ino = filter blocked (waiters_of t ino)"
    and "held (locks_of t' ino) p ty = held (locks_of t ino @ map waiter_entry woken) p ty"
    and "compatible entry_conflicts (map waiter_entry woken) \<Longrightarrow> locks_ok (locks_of t' ino)"
proof -
  let ?merged = "locks_of (merge_adjacent ino pid t) ino"
  note merged = merge_adjacent_ok [OF ok, where pid = pid]
  have blocked: "list_ex (entry_conflicts (waiter_entry w)) ?merged \<longleftrightarrow> blocked w"
    if "w \<in> set (waiters_of t ino)" for w
    using conflict_iff_held [OF wf [rule_format, OF that], of ?merged] conflict_iff_held [OF wf [rule_format, OF that], of "locks_of t ino"]
      merged ok by (simp add: locks_ok_def blocked_def)
  note d = drain_views [OF drain, unfolded merge_adjacent_views(2)]
  show woken: "woken = filter (\<lambda>w. \<not> blocked w) (waiters_of t ino)"
    unfolding d(1) by (rule filter_cong) (simp_all add: blocked)
  show "waiters_of t' ino = filter blocked (waiters_of t ino)"
    unfolding d(3) by (rule filter_cong) (simp_all add: blocked)
  have set: "set (locks_of t' ino) = set (?merged @ map waiter_entry woken)"
    using arg_cong [OF d(2), of set_mset] by simp
  then show "held (locks_of t' ino) p ty = held (locks_of t ino @ map waiter_entry woken) p ty"
    using held_set_cong merged(2) by (metis held_append)
  assume compat: "compatible entry_conflicts (map waiter_entry woken)"
  have "\<forall>x \<in> set (map waiter_entry woken). \<forall>y \<in> set ?merged. \<not> entry_conflicts x y"
    unfolding d(1) by (auto simp: list_ex_iff)
  then have "compatible entry_conflicts (?merged @ map waiter_entry woken)"
    using compat merged(1) lock_conflicts.conflict_sym by (simp add: compatible_append locks_ok_def)
  then have "compatible entry_conflicts (locks_of t' ino)"
    using lock_conflicts.compatible_perm [of "locks_of t' ino" "?merged @ map waiter_entry woken"] d(2) by simp
  moreover have "\<forall>x \<in> set (locks_of t' ino). wf_entry x"
    unfolding set using merged(1) wf by (auto simp: woken locks_ok_def)
  ultimately show "locks_ok (locks_of t' ino)" by (simp add: locks_ok_def)
qed

lemma merge_drain_others:
  assumes "drain_satisfied_waiters ino (merge_adjacent ino pid t) = (woken, t')"
  shows "i \<noteq> ino \<Longrightarrow> locks_of t' i = locks_of t i" and "i \<noteq> ino \<Longrightarrow> waiters_of t' i = waiters_of t i"
    and "bmap (inodes t) \<Longrightarrow> bmap (inodes t')"
  using drain_views(4,5,6) [OF assms] by (simp_all add: merge_adjacent_views)

lemma release_steps:
  assumes inv: "table_inv t" and split: "locks_of t ino = before @ e # after"
    and t1: "locks_of t1 ino = before @ after" "\<And>i. i \<noteq> ino \<Longrightarrow> locks_of t1 i = locks_of t i"
      "\<And>i. waiters_of t1 i = waiters_of t i" "bmap (inodes t1)"
    and drain: "drain_satisfied_waiters ino (merge_adjacent ino pid t1) = (woken, t')"
  shows "release_effect t ino (before @ after) woken t'"
    and "compatible entry_conflicts (map waiter_entry woken) \<Longrightarrow> table_inv t'"
proof -
  have ok: "locks_ok (locks_of t1 ino)"
    using table_invD(2) [OF inv, of ino]
    by (auto simp: split t1(1) locks_ok_def dest: lock_conflicts.compatible_remove)
  have wf: "\<forall>w \<in> set (waiters_of t1 ino). wf_entry (waiter_entry w)"
    using table_invD(3) [OF inv] by (simp add: t1(3))
  note d = merge_drain [OF ok wf drain, unfolded t1(1,3)]
  note o = merge_drain_others [OF drain, unfolded t1(3)]
  show "release_effect t ino (before @ after) woken t'"
    using d(1-3) o t1(2) by (simp add: release_effect_def Let_def)
  assume compat: "compatible entry_conflicts (map waiter_entry woken)"
  show "table_inv t'"
  proof (rule table_invI)
    show "bmap (inodes t')" by (rule o(3) [OF t1(4)])
    show "locks_ok (locks_of t' i)" for i
      using d(4) [OF compat] o(1) t1(2) table_invD(2) [OF inv] by (cases "i = ino") simp_all
    show "wf_entry (waiter_entry w)" if "w \<in> set (waiters_of t' i)" for i w
      using that o(2) d(2) table_invD(3) [OF inv] by (cases "i = ino") auto
  qed
qed

section \<open>Properties\<close>

text \<open>
  C23. A release that finds its lock takes exactly that lock out: afterwards every process holds,
  per lock type, the bytes of the remaining locks and of the waiters that were woken; the woken
  waiters are exactly the parked ones that conflict with nothing that remains, the others stay
  parked in order, other inodes are untouched, and when the woken waiters are compatible with each
  other the table is again free of conflicting locks. Otherwise the answer is \<open>NotFound\<close>, the
  table is unchanged, and the process has no lock with that start and end.
\<close>

theorem release_lock_correct:
  assumes "table_inv t"
  shows "case release_lock ino rng pid t of
      (Inl err, t') \<Rightarrow> err = NotFound \<and> t' = t \<and>
        (\<forall>e \<in> set (locks_of t ino). owner_pid e = pid \<longrightarrow> lr_start (range_of e) = lr_start rng \<longrightarrow>
           lr_end (range_of e) \<noteq> lr_end rng)
    | (Inr woken, t') \<Rightarrow> (\<exists>before e after. locks_of t ino = before @ e # after \<and> owner_pid e = pid \<and>
        lr_start (range_of e) = lr_start rng \<and> lr_end (range_of e) = lr_end rng \<and>
        release_effect t ino (before @ after) woken t' \<and>
        (compatible entry_conflicts (map waiter_entry woken) \<longrightarrow> table_inv t'))"
proof (cases "map_of (inodes t) ino")
  case None
  then show ?thesis by (simp add: release_lock_def locks_of_def)
next
  case (Some st)
  let ?P = "\<lambda>e. owner_pid e = pid \<and> lr_start (range_of e) = lr_start rng \<and> lr_end (range_of e) = lr_end rng"
  have ls: "locks_of t ino = locks st" by (simp add: locks_of_def Some)
  show ?thesis
  proof (cases "List.extract ?P (locks st)")
    case None
    then have "release_lock ino rng pid t = (Inl NotFound, t)" by (simp add: release_lock_def Some)
    with None show ?thesis by (auto simp: ls extract_None_iff)
  next
    case (Some q)
    obtain before e after where q: "q = (before, e, after)" by (cases q)
    have split: "locks_of t ino = before @ e # after" and e: "?P e"
      using Some by (auto simp: q ls extract_Some_iff)
    let ?t1 = "t\<lparr>inodes := bmap_put ino (st\<lparr>locks := before @ after\<rparr>) (inodes t)\<rparr>"
    obtain woken t3 where d: "drain_satisfied_waiters ino (merge_adjacent ino pid ?t1) = (woken, t3)"
      by force
    have "waiters_of ?t1 i = waiters_of t i" for i
      using \<open>map_of (inodes t) ino = Some st\<close> by (simp add: waiters_of_def)
    note r = release_steps [OF assms split _ _ this _ d]
    have "release_lock ino rng pid t = (Inr woken, gc_inode ino t3)"
      using Some \<open>map_of (inodes t) ino = Some st\<close> d by (simp add: release_lock_def q Let_def)
    moreover have "release_effect t ino (before @ after) woken (gc_inode ino t3)"
      using r(1) table_invD(1) [OF assms] by (simp add: release_effect_def)
    moreover have "table_inv (gc_inode ino t3)" if "compatible entry_conflicts (map waiter_entry woken)"
      using r(2) [OF _ _ _ that] table_invD [OF assms] by (intro table_invI) (auto dest: table_invD)
    ultimately show ?thesis using split e by auto
  qed
qed

text \<open>
  \<open>F_GETLK\<close> agrees with \<open>F_SETLK\<close>: \<open>test_lock\<close> finds no conflict exactly when
  a non-blocking request for the same range and type is granted, and the lock it reports otherwise is a
  conflicting lock of the inode while the request is refused with \<open>WouldBlock\<close>.
\<close>

theorem test_lock_agrees:
  assumes "ty \<noteq> Unlock"
  shows "case test_lock t ino rng ty of
      None \<Rightarrow> acquire_lock ino (lock_entry_new rng ty pid) False op t =
        Some (Inr (), insert_lock ino (lock_entry_new rng ty pid) t)
    | Some e \<Rightarrow> e \<in> set (locks_of t ino) \<and> entry_conflicts (lock_entry_new rng ty pid) e \<and>
        acquire_lock ino (lock_entry_new rng ty pid) False op t = Some (Inl WouldBlock, t)"
proof -
  let ?e = "lock_entry_new rng ty pid"
  have "test_lock t ino rng ty = find (entry_conflicts ?e) (locks_of t ino)"
    unfolding test_lock_def locks_of_def entry_conflicts_def [abs_def] lock_entry_new_def
    by (simp split: option.splits)
  moreover have "lock_type_of ?e \<noteq> Unlock" using assms by (simp add: lock_entry_new_def)
  ultimately show ?thesis
    by (auto simp: acquire_lock_def conflicting_pids_Nil find_None_iff split: option.splits dest!: find_SomeD)
qed

definition sample_lock :: "nat \<Rightarrow> lock_type \<Rightarrow> nat \<Rightarrow> lock_entry" where
  "sample_lock start ty pid = lock_entry_new (lock_range_new start 10) ty pid"

definition sample_table :: posix_lock_table where
  "sample_table = \<lparr>inodes =
     [(7, \<lparr>locks = [sample_lock 0 Read 1, sample_lock 10 Read 1, sample_lock 20 Write 1],
           waiters = [\<lparr>waiter_entry = sample_lock 20 Read 2, waiter_opaque = 5\<rparr>]\<rparr>)]\<rparr>"

lemmas sample_lock_defs = sample_table_def sample_lock_def lock_entry_new_def lock_range_new_def

lemma sample_table_inv: "table_inv sample_table"
  by (simp add: table_inv_def sample_lock_defs locks_ok_def compatible_def wf_entry_def wf_range_def
      entry_conflicts_def lr_overlaps_def lr_end_def sat_add64_def u64_max_def)

theorem release_lock_correct_witness:
  "table_inv sample_table \<and>
   (\<exists>t'. release_lock 7 (lock_range_new 20 10) 1 sample_table =
       (Inr [\<lparr>waiter_entry = sample_lock 20 Read 2, waiter_opaque = 5\<rparr>], t') \<and>
     held (locks_of t' 7) 1 Write = {} \<and> held (locks_of t' 7) 2 Read = {20..<30} \<and> table_inv t')"
proof -
  let ?w = "\<lparr>waiter_entry = sample_lock 20 Read 2, waiter_opaque = 5\<rparr>"
  have "fst (release_lock 7 (lock_range_new 20 10) 1 sample_table) = Inr [?w]"
    by (simp add: release_lock_def sample_lock_defs extract_def lr_end_def sat_add64_def u64_max_def
        merge_adjacent_def merge_step_def adjacent_to_def merge_with_def lr_overlaps_def
        drain_satisfied_waiters_def entry_conflicts_def Let_def)
  then obtain t' where r: "release_lock 7 (lock_range_new 20 10) 1 sample_table = (Inr [?w], t')"
    by (metis prod.collapse)
  obtain before e after where b: "locks_of sample_table 7 = before @ e # after" "lr_start (range_of e) = 20"
    "release_effect sample_table 7 (before @ after) [?w] t'" "table_inv t'"
    using release_lock_correct [OF sample_table_inv, where ino = 7 and rng = "lock_range_new 20 10" and pid = 1, unfolded r]
    by (auto simp: lock_range_new_def)
  have "before = [sample_lock 0 Read 1, sample_lock 10 Read 1] \<and> after = []"
    using b(1,2) by (auto simp: locks_of_def sample_lock_defs Cons_eq_append_conv)
  with b(3) have "held (locks_of t' 7) p ty =
      held [sample_lock 0 Read 1, sample_lock 10 Read 1, sample_lock 20 Read 2] p ty" for p ty
    by (simp add: release_effect_def)
  then have "held (locks_of t' 7) 1 Write = {}" and "held (locks_of t' 7) 2 Read = {20..<30}"
    by (simp_all add: sample_lock_defs lr_bytes_def lr_end_def sat_add64_def u64_max_def)
  with r b(4) show ?thesis using sample_table_inv by blast
qed

theorem test_lock_agrees_witness:
  "Write \<noteq> Unlock \<and> test_lock sample_table 7 (lock_range_new 5 1) Write = Some (sample_lock 0 Read 1) \<and>
   acquire_lock 7 (lock_entry_new (lock_range_new 5 1) Write 9) False 0 sample_table =
     Some (Inl WouldBlock, sample_table)"
proof -
  have "test_lock sample_table 7 (lock_range_new 5 1) Write = Some (sample_lock 0 Read 1)"
    by (simp add: test_lock_def sample_lock_defs lr_overlaps_def lr_end_def sat_add64_def u64_max_def)
  with test_lock_agrees [where ty = Write and t = sample_table and ino = 7 and rng = "lock_range_new 5 1" and pid = 9 and op = 0] show ?thesis by simp
qed

end
