(* ===== verification/Lock_Deadlock.thy ===== *)
theory Lock_Deadlock
  imports Posix_Lock
begin

text \<open>
  Correctness of the deadlock check of the lock table: the depth-first search with its shared
  visited and stack sets decides whether a cycle of the wait-for graph can be reached, its fuel is
  always enough, and requests admitted by the check keep the wait-for graph acyclic.
\<close>

section \<open>The search decides reachable cycles\<close>

text \<open>
  Finished nodes are those visited and no longer on the stack. The search keeps them closed
  under successors and free of cycles.
\<close>

definition finished :: "(nat \<times> nat) set \<Rightarrow> nat set \<Rightarrow> bool" where
  "finished E B \<longleftrightarrow> (\<forall>x \<in> B. \<forall>y. (x, y) \<in> E \<longrightarrow> y \<in> B) \<and> (\<forall>x \<in> B. (x, x) \<notin> E\<^sup>+)"

definition reaches_cycle :: "(nat \<times> nat) set \<Rightarrow> nat \<Rightarrow> bool" where
  "reaches_cycle E x \<longleftrightarrow> (\<exists>c. (x, c) \<in> E\<^sup>* \<and> (c, c) \<in> E\<^sup>+)"

lemma finished_trancl: "(x, y) \<in> E\<^sup>* \<Longrightarrow> finished E B \<Longrightarrow> x \<in> B \<Longrightarrow> y \<in> B"
  by (induction rule: rtrancl_induct) (auto simp: finished_def)

lemma finished_no_cycle: "finished E B \<Longrightarrow> x \<in> B \<Longrightarrow> \<not> reaches_cycle E x"
  by (auto simp: reaches_cycle_def finished_def dest: finished_trancl [unfolded finished_def])

lemma finished_insert:
  assumes "finished E B" and "\<And>y. (x, y) \<in> E \<Longrightarrow> y \<in> B" and "x \<notin> B"
  shows "finished E (insert x B)"
proof -
  have "(x, x) \<notin> E\<^sup>+"
  proof
    assume "(x, x) \<in> E\<^sup>+"
    then obtain y where "(x, y) \<in> E" "(y, x) \<in> E\<^sup>*" by (auto dest: tranclD)
    then show False using assms finished_trancl by blast
  qed
  then show ?thesis using assms(1,2) by (auto simp: finished_def)
qed

lemma reaches_cycle_step: "(x, y) \<in> E \<Longrightarrow> reaches_cycle E y \<Longrightarrow> reaches_cycle E x"
  by (auto simp: reaches_cycle_def intro: converse_rtrancl_into_rtrancl)

text \<open>
  The contract of a search call with fuel \<open>n\<close>, over the nodes \<open>N\<close>: the unvisited nodes are
  fewer than the fuel, the stack is a path to the node, and the answer is a reachable cycle or
  a larger set of finished nodes that contains the node.
\<close>

definition search_pre :: "(nat \<times> nat) set \<Rightarrow> nat set \<Rightarrow> nat \<Rightarrow> nat set \<Rightarrow> nat set \<Rightarrow> bool" where
  "search_pre E N n visited stack \<longleftrightarrow>
     visited \<subseteq> N \<and> stack \<subseteq> visited \<and> finished E (visited - stack) \<and> card (N - visited) < n"

definition search_ok :: "wait_edges \<Rightarrow> nat set \<Rightarrow> nat \<Rightarrow> bool" where
  "search_ok edges N n \<longleftrightarrow>
     (\<forall>node visited stack. node \<in> N \<longrightarrow> search_pre (set edges) N n visited stack \<longrightarrow>
        (\<forall>x \<in> stack. (x, node) \<in> (set edges)\<^sup>+) \<longrightarrow>
        (\<exists>found visited' stack'. dfs_cycle n edges node visited stack = Some (found, visited', stack') \<and>
           (if found then reaches_cycle (set edges) node
            else stack' = stack \<and> visited \<subseteq> visited' \<and> node \<in> visited' - stack \<and>
                 search_pre (set edges) N n visited' stack)))"

lemma search_pre_mono:
  assumes "search_pre E N n visited stack" and "finite N" and "visited \<subseteq> visited'" and "visited' \<subseteq> N"
    and "finished E (visited' - stack)"
  shows "search_pre E N n visited' stack"
proof -
  have "card (N - visited') \<le> card (N - visited)"
    using assms(2,3) by (intro card_mono) auto
  then show ?thesis using assms by (auto simp: search_pre_def)
qed

lemma dfs_edges_correct:
  assumes ok: "search_ok edges N n" and N: "snd ` set edges \<subseteq> N"
  shows "\<lbrakk>node \<in> stack; set es \<subseteq> set edges; \<forall>x \<in> stack. (x, node) \<in> (set edges)\<^sup>*;
      search_pre (set edges) N n visited stack\<rbrakk> \<Longrightarrow>
    \<exists>found visited' stack'. dfs_edges n edges node es visited stack = Some (found, visited', stack') \<and>
      (if found then reaches_cycle (set edges) node
       else stack' = stack \<and> visited \<subseteq> visited' \<and> search_pre (set edges) N n visited' stack \<and>
            (\<forall>y. (node, y) \<in> set es \<longrightarrow> y \<in> visited' - stack))"
proof (induction es arbitrary: visited)
  case Nil
  then show ?case by (simp, blast)
next
  case (Cons e es)
  obtain x to where e: "e = (x, to)" by force
  note IH = Cons.IH [OF Cons.prems(1) _ Cons.prems(3)]
  show ?case
  proof (cases "x = node")
    case False
    have "set es \<subseteq> set edges" using Cons.prems(2) by simp
    moreover have "dfs_edges n edges node (e # es) visited stack = dfs_edges n edges node es visited stack"
      and "(node, y) \<in> set (e # es) \<longleftrightarrow> (node, y) \<in> set es" for y
      using False by (simp_all add: e)
    ultimately show ?thesis using IH [OF _ Cons.prems(4)] by presburger
  next
    case True
    have edge: "(node, to) \<in> set edges" using Cons.prems(2) True by (simp add: e)
    then have "\<forall>x \<in> stack. (x, to) \<in> (set edges)\<^sup>+"
      using Cons.prems(3) by (blast intro: rtrancl_into_trancl1)
    moreover have "to \<in> N" using N edge by force
    ultimately obtain found v s where
      r: "dfs_cycle n edges to visited stack = Some (found, v, s)"
      "if found then reaches_cycle (set edges) to
       else s = stack \<and> visited \<subseteq> v \<and> to \<in> v - stack \<and> search_pre (set edges) N n v stack"
      using ok Cons.prems(4) unfolding search_ok_def by blast
    show ?thesis
    proof (cases found)
      case True
      then have "dfs_edges n edges node (e # es) visited stack = Some (True, v, s)"
        using r(1) \<open>x = node\<close> by (simp add: e)
      then show ?thesis using r(2) True reaches_cycle_step [OF edge] by auto
    next
      case False
      then have v: "s = stack" "visited \<subseteq> v" "to \<in> v - stack" "search_pre (set edges) N n v stack"
        using r(2) by auto
      obtain found' v' s' where
        q: "dfs_edges n edges node es v stack = Some (found', v', s')"
        "if found' then reaches_cycle (set edges) node
         else s' = stack \<and> v \<subseteq> v' \<and> search_pre (set edges) N n v' stack \<and>
              (\<forall>y. (node, y) \<in> set es \<longrightarrow> y \<in> v' - stack)"
        using IH [OF _ v(4)] Cons.prems(2) by (simp only: list.set insert_subset) blast
      have "dfs_edges n edges node (e # es) visited stack = Some (found', v', s')"
        using r(1) q(1) False \<open>x = node\<close> by (simp add: e v(1))
      moreover have "if found' then reaches_cycle (set edges) node
         else s' = stack \<and> visited \<subseteq> v' \<and> search_pre (set edges) N n v' stack \<and>
              (\<forall>y. (node, y) \<in> set (e # es) \<longrightarrow> y \<in> v' - stack)"
        using q(2) v(2,3) by (cases found') (auto simp: e)
      ultimately show ?thesis by blast
    qed
  qed
qed

lemma search_pre_enter:
  assumes "search_pre E N (Suc n) visited stack" and "finite N" and "node \<in> N" and "node \<notin> visited"
  shows "search_pre E N n (insert node visited) (insert node stack)"
proof -
  have "N - visited = insert node (N - insert node visited)" using assms(3,4) by blast
  then have "card (N - visited) = Suc (card (N - insert node visited))"
    using assms(2) by (metis Diff_iff card_insert_disjoint finite_Diff insertI1)
  moreover have "insert node visited - insert node stack = visited - stack" using assms(1,4)
    by (auto simp: search_pre_def)
  ultimately show ?thesis using assms(1,3) by (auto simp: search_pre_def)
qed

lemma dfs_cycle_correct:
  assumes fin: "finite N" and N: "snd ` set edges \<subseteq> N"
  shows "search_ok edges N n"
proof (induction n)
  case 0
  then show ?case by (simp add: search_ok_def search_pre_def)
next
  case (Suc n)
  let ?E = "set edges"
  have "\<exists>found visited' stack'. dfs_cycle (Suc n) edges node visited stack = Some (found, visited', stack') \<and>
      (if found then reaches_cycle ?E node
       else stack' = stack \<and> visited \<subseteq> visited' \<and> node \<in> visited' - stack \<and> search_pre ?E N (Suc n) visited' stack)"
    if pre: "node \<in> N" "search_pre ?E N (Suc n) visited stack" "\<forall>x \<in> stack. (x, node) \<in> ?E\<^sup>+"
    for node visited stack
  proof (cases "node \<in> visited")
    case True
    with pre show ?thesis by (auto simp: reaches_cycle_def)
  next
    case False
    then have "node \<notin> stack" using pre(2) by (auto simp: search_pre_def)
    have path: "\<forall>x \<in> insert node stack. (x, node) \<in> ?E\<^sup>*" using pre(3) by (auto intro: trancl_into_rtrancl)
    from dfs_edges_correct [OF Suc.IH N, where node = node and stack = "insert node stack" and es = edges
        and visited = "insert node visited", OF insertI1 order_refl path search_pre_enter [OF pre(2) fin pre(1) False]]
    obtain found v s where r: "dfs_edges n edges node edges (insert node visited) (insert node stack) = Some (found, v, s)"
      "if found then reaches_cycle ?E node
       else s = insert node stack \<and> insert node visited \<subseteq> v \<and> search_pre ?E N n v (insert node stack) \<and>
            (\<forall>y. (node, y) \<in> ?E \<longrightarrow> y \<in> v - insert node stack)" by blast
    show ?thesis
    proof (cases found)
      case True
      then have "dfs_cycle (Suc n) edges node visited stack = Some (True, v, s)"
        using r(1) False \<open>node \<notin> stack\<close> by simp
      then show ?thesis using r(2) True by auto
    next
      case nf: False
      then have v: "insert node visited \<subseteq> v" "search_pre ?E N n v (insert node stack)"
        "\<And>y. (node, y) \<in> ?E \<Longrightarrow> y \<in> v - insert node stack" using r(2) by auto
      have "finished ?E (insert node (v - insert node stack))"
        using v(2,3) by (intro finished_insert) (auto simp: search_pre_def)
      moreover have "insert node (v - insert node stack) = v - stack" using v(1) \<open>node \<notin> stack\<close> by auto
      ultimately have "search_pre ?E N (Suc n) v stack"
        using search_pre_mono [OF pre(2) fin, of v] v(1,2) by (auto simp: search_pre_def)
      then show ?thesis using r nf v(1) False \<open>node \<notin> stack\<close> by auto
    qed
  qed
  then show ?case unfolding search_ok_def by blast
qed

lemma dfs_cycle_decides:
  "map_option fst (dfs_cycle (length edges + 2) edges node {} {}) = Some (reaches_cycle (set edges) node)"
proof -
  let ?N = "insert node (snd ` set edges)"
  have "card ?N \<le> Suc (card (snd ` set edges))" by (rule card_insert_le_m1) simp_all
  also have "card (snd ` set edges) \<le> length edges"
    using card_image_le [of "set edges" snd] card_length [of edges] by simp
  finally have pre: "search_pre (set edges) ?N (length edges + 2) {} {}"
    by (simp add: search_pre_def finished_def)
  have ok: "search_ok edges ?N (length edges + 2)" by (rule dfs_cycle_correct) auto
  obtain found v s where r: "dfs_cycle (length edges + 2) edges node {} {} = Some (found, v, s)"
    "if found then reaches_cycle (set edges) node
     else s = {} \<and> {} \<subseteq> v \<and> node \<in> v \<and> search_pre (set edges) ?N (length edges + 2) v {}"
    using ok [unfolded search_ok_def, THEN spec, THEN spec, THEN spec, THEN mp, OF insertI1, THEN mp, OF pre, THEN mp,
        unfolded ball_empty Diff_empty, OF TrueI] by blast
  have "found \<longleftrightarrow> reaches_cycle (set edges) node"
  proof (cases found)
    case False
    then have "node \<in> v" "finished (set edges) v" using r(2) by (auto simp: search_pre_def)
    with finished_no_cycle False show ?thesis by blast
  qed (use r(2) in simp)
  then show ?thesis unfolding r(1) by simp
qed

section \<open>The wait-for graph\<close>

definition wait_graph :: "posix_lock_table \<Rightarrow> (nat \<times> nat) set" where
  "wait_graph t = {(p, q). \<exists>ino. \<exists>w \<in> set (waiters_of t ino). \<exists>e \<in> set (locks_of t ino).
     entry_conflicts (waiter_entry w) e \<and> owner_pid e \<noteq> owner_pid (waiter_entry w) \<and>
     p = owner_pid (waiter_entry w) \<and> q = owner_pid e}"

definition wait_edges_to :: "nat \<Rightarrow> nat list \<Rightarrow> (nat \<times> nat) set" where
  "wait_edges_to pid holders = {(pid, h) |h. h \<in> set holders \<and> h \<noteq> pid}"

lemma set_table_edges:
  assumes "bmap (inodes t)"
  shows "set (table_edges t) = wait_graph t"
proof (rule set_eqI)
  fix pq :: "nat \<times> nat"
  have "pq \<in> set (table_edges t) \<longleftrightarrow> (\<exists>ino st. map_of (inodes t) ino = Some st \<and> pq \<in> set (parked_edges st))"
    by (force simp: table_edges_def bmap_in_iff [OF assms, symmetric])
  also have "\<dots> \<longleftrightarrow> pq \<in> wait_graph t"
  proof
    assume "\<exists>ino st. map_of (inodes t) ino = Some st \<and> pq \<in> set (parked_edges st)"
    then obtain ino st where "map_of (inodes t) ino = Some st" "pq \<in> set (parked_edges st)" by blast
    then have "\<exists>w \<in> set (waiters_of t ino). \<exists>e \<in> set (locks_of t ino). entry_conflicts (waiter_entry w) e \<and>
        owner_pid e \<noteq> owner_pid (waiter_entry w) \<and> pq = (owner_pid (waiter_entry w), owner_pid e)"
      by (auto simp: parked_edges_def locks_of_def waiters_of_def)
    then show "pq \<in> wait_graph t" by (auto simp: wait_graph_def)
  next
    assume "pq \<in> wait_graph t"
    then obtain ino w e where *: "w \<in> set (waiters_of t ino)" "e \<in> set (locks_of t ino)"
      "entry_conflicts (waiter_entry w) e" "owner_pid e \<noteq> owner_pid (waiter_entry w)"
      "pq = (owner_pid (waiter_entry w), owner_pid e)" by (auto simp: wait_graph_def)
    then obtain st where st: "map_of (inodes t) ino = Some st"
      by (cases "map_of (inodes t) ino") (simp_all add: waiters_of_def)
    with * have "pq \<in> set (parked_edges st)" by (force simp: parked_edges_def locks_of_def waiters_of_def)
    with st show "\<exists>ino st. map_of (inodes t) ino = Some st \<and> pq \<in> set (parked_edges st)" by blast
  qed
  finally show "pq \<in> set (table_edges t) \<longleftrightarrow> pq \<in> wait_graph t" .
qed

lemma would_deadlock_decides:
  assumes "bmap (inodes t)"
  shows "would_deadlock t pid holders = Some (reaches_cycle (wait_graph t \<union> wait_edges_to pid holders) pid)"
proof -
  have "set (proposed_edges pid holders @ table_edges t) = wait_graph t \<union> wait_edges_to pid holders"
    using set_table_edges [OF assms] by (auto simp: proposed_edges_def wait_edges_to_def)
  then show ?thesis unfolding would_deadlock_def Let_def dfs_cycle_decides by (rule arg_cong)
qed

lemma acyclic_sink:
  assumes "acyclic R" and "R' \<subseteq> R \<union> UNIV \<times> {p}" and "p \<notin> Domain R'"
  shows "acyclic R'"
proof -
  have "y \<noteq> p \<longrightarrow> (x, y) \<in> R\<^sup>+" if "(x, y) \<in> R'\<^sup>+" for x y
    using that
  proof (induction rule: trancl_induct)
    case (base y)
    then show ?case using assms(2) by auto
  next
    case (step y z)
    then have "y \<noteq> p" and "z \<noteq> p \<longrightarrow> (y, z) \<in> R" using assms(2,3) by auto
    with step.IH show ?case by (auto intro: trancl_into_trancl)
  qed
  moreover have "x \<noteq> p" if "(x, x) \<in> R'\<^sup>+" for x
    using that assms(3) by (auto dest: tranclD)
  ultimately show ?thesis using assms(1) by (auto simp: acyclic_def)
qed

lemma acyclic_source:
  assumes "acyclic R" and "S \<subseteq> {p} \<times> UNIV" and "(p, p) \<notin> (R \<union> S)\<^sup>+"
  shows "acyclic (R \<union> S)"
proof -
  have "(x, y) \<in> R\<^sup>+ \<or> (x, p) \<in> (R \<union> S)\<^sup>* \<and> (p, y) \<in> (R \<union> S)\<^sup>+" if "(x, y) \<in> (R \<union> S)\<^sup>+" for x y
    using that
  proof (induction rule: trancl_induct)
    case (base y)
    then show ?case using assms(2) by auto
  next
    case (step y z)
    show ?case
    proof (cases "(y, z) \<in> R")
      case True
      then show ?thesis using step by (auto intro: trancl_into_trancl)
    next
      case False
      then have "y = p" "(p, z) \<in> R \<union> S" using step.hyps(2) assms(2) by auto
      then show ?thesis using step.hyps(1) by (auto intro: trancl_into_rtrancl)
    qed
  qed
  then show ?thesis using assms(1,3) unfolding acyclic_def by (blast intro: trancl_rtrancl_trancl)
qed

section \<open>Acquiring a lock\<close>

definition park :: "nat \<Rightarrow> waiter \<Rightarrow> posix_lock_table \<Rightarrow> posix_lock_table" where
  "park ino w t =
     (let st = (case map_of (inodes t) ino of None \<Rightarrow> inode_state_default | Some st \<Rightarrow> st)
      in t\<lparr>inodes := bmap_put ino (st\<lparr>waiters := waiters st @ [w]\<rparr>) (inodes t)\<rparr>)"

lemma park_views:
  "locks_of (park ino w t) i = locks_of t i"
  "waiters_of (park ino w t) i = (if i = ino then waiters_of t ino @ [w] else waiters_of t i)"
  "bmap (inodes t) \<Longrightarrow> bmap (inodes (park ino w t))"
  by (auto simp: park_def Let_def locks_of_def waiters_of_def inode_state_default_def split: option.splits)

lemma park_inv: "table_inv t \<Longrightarrow> wf_entry (waiter_entry w) \<Longrightarrow> table_inv (park ino w t)"
  by (intro table_invI) (auto simp: park_views dest: table_invD split: if_splits)

text \<open>The outcomes of \<open>acquire_lock\<close>, with the deadlock check replaced by its meaning.\<close>

lemma acquire_lock_cases:
  fixes ino :: nat
  assumes "table_inv t" and "lock_type_of e \<noteq> Unlock"
  defines "pids \<equiv> conflicting_pids t ino e"
  shows "acquire_lock ino e blocking op t = Some
    (if pids = [] then (Inr (), insert_lock ino e t)
     else if \<not> blocking then (Inl WouldBlock, t)
     else if reaches_cycle (wait_graph t \<union> wait_edges_to (owner_pid e) pids) (owner_pid e)
     then (Inl Deadlock, t)
     else (Inr (), park ino \<lparr>waiter_entry = e, waiter_opaque = op\<rparr> t))"
  using assms(2) would_deadlock_decides [OF table_invD(1) [OF assms(1)], of "owner_pid e" pids]
  by (simp add: acquire_lock_def pids_def park_def Let_def)

lemma wait_graph_insert:
  "wait_graph (insert_lock ino e t) \<subseteq> wait_graph t \<union> UNIV \<times> {owner_pid e}"
  by (auto simp: wait_graph_def insert_lock_views split: if_splits)

lemma wait_graphI:
  "w \<in> set (waiters_of t ino) \<Longrightarrow> e \<in> set (locks_of t ino) \<Longrightarrow> entry_conflicts (waiter_entry w) e \<Longrightarrow>
     owner_pid e \<noteq> owner_pid (waiter_entry w) \<Longrightarrow> (owner_pid (waiter_entry w), owner_pid e) \<in> wait_graph t"
  by (auto simp: wait_graph_def)

lemma wait_graphE:
  assumes "pq \<in> wait_graph t"
  obtains ino w e where "w \<in> set (waiters_of t ino)" and "e \<in> set (locks_of t ino)"
    and "entry_conflicts (waiter_entry w) e" and "owner_pid e \<noteq> owner_pid (waiter_entry w)"
    and "pq = (owner_pid (waiter_entry w), owner_pid e)"
  using assms by (auto simp: wait_graph_def)

lemma wait_graph_park:
  "wait_graph (park ino w t) =
     wait_graph t \<union> wait_edges_to (owner_pid (waiter_entry w)) (conflicting_pids t ino (waiter_entry w))"
    (is "?G = wait_graph t \<union> ?S")
proof (intro equalityI subsetI)
  fix pq assume "pq \<in> ?G"
  then obtain i v e where *: "v \<in> set (waiters_of (park ino w t) i)" "e \<in> set (locks_of t i)"
    "entry_conflicts (waiter_entry v) e" "owner_pid e \<noteq> owner_pid (waiter_entry v)"
    "pq = (owner_pid (waiter_entry v), owner_pid e)" by (auto elim: wait_graphE simp: park_views)
  show "pq \<in> wait_graph t \<union> ?S"
  proof (cases "v \<in> set (waiters_of t i)")
    case True
    with * show ?thesis by (auto intro: wait_graphI)
  next
    case False
    with * have "v = w" "i = ino" by (auto simp: park_views split: if_splits)
    with * show ?thesis by (auto simp: wait_edges_to_def conflicting_pids_eq)
  qed
next
  fix pq assume "pq \<in> wait_graph t \<union> ?S"
  then show "pq \<in> ?G"
  proof
    assume "pq \<in> wait_graph t"
    then show ?thesis
      by (rule wait_graphE) (auto intro!: wait_graphI [where t = "park ino w t"] simp: park_views)
  next
    assume "pq \<in> ?S"
    then show ?thesis
      by (auto simp: wait_edges_to_def conflicting_pids_eq park_views
          intro!: wait_graphI [where t = "park ino w t" and ino = ino])
  qed
qed

lemma wait_graph_Domain:
  "p \<in> Domain (wait_graph t) \<Longrightarrow> \<exists>ino. \<exists>w \<in> set (waiters_of t ino). owner_pid (waiter_entry w) = p"
  by (auto simp: wait_graph_def)

section \<open>Properties\<close>

text \<open>
  C18. The deadlock check always returns, and it answers yes exactly when the wait-for graph of all
  inodes, extended by the edges of the new request, has a cycle that can be reached from the requesting
  process.
\<close>

theorem would_deadlock_correct:
  assumes "table_inv t"
  shows "would_deadlock t pid holders =
    Some (reaches_cycle (wait_graph t \<union> wait_edges_to pid holders) pid)"
  by (rule would_deadlock_decides [OF table_invD(1) [OF assms]])

text \<open>
  C13. Mutual exclusion on acquisition: \<open>acquire_lock\<close> always returns and keeps the table free of
  conflicting locks. Without a conflict the lock is granted; with one, a non-blocking request is
  refused with \<open>WouldBlock\<close>, a blocking one with \<open>Deadlock\<close> exactly when it would close a
  cycle, and otherwise it is parked behind the waiters of its inode. Refused requests change nothing.
\<close>

theorem acquire_lock_correct:
  assumes "table_inv t" and "wf_entry e"
  shows "\<exists>r t'. acquire_lock ino e blocking op t = Some (r, t') \<and> table_inv t' \<and>
    (let conflict = (\<exists>e' \<in> set (locks_of t ino). entry_conflicts e e');
         cycle = reaches_cycle (wait_graph t \<union> wait_edges_to (owner_pid e) (conflicting_pids t ino e)) (owner_pid e)
     in (r = Inl WouldBlock \<longleftrightarrow> conflict \<and> \<not> blocking) \<and>
        (r = Inl Deadlock \<longleftrightarrow> conflict \<and> blocking \<and> cycle) \<and>
        (r = Inr () \<longleftrightarrow> \<not> conflict \<or> blocking \<and> \<not> cycle) \<and> (r \<noteq> Inr () \<longrightarrow> t' = t) \<and>
        (\<not> conflict \<longrightarrow> mset (locks_of t' ino) = add_mset e (mset (locks_of t ino)) \<and>
           waiters_of t' ino = waiters_of t ino) \<and>
        (conflict \<longrightarrow> locks_of t' ino = locks_of t ino) \<and>
        (conflict \<longrightarrow> r = Inr () \<longrightarrow>
           waiters_of t' ino = waiters_of t ino @ [\<lparr>waiter_entry = e, waiter_opaque = op\<rparr>]))"
proof -
  have "lock_type_of e \<noteq> Unlock" using assms(2) by (simp add: wf_entry_def)
  note a = acquire_lock_cases [OF assms(1) this, of ino blocking op]
  have "conflicting_pids t ino e = [] \<longleftrightarrow> \<not> (\<exists>e' \<in> set (locks_of t ino). entry_conflicts e e')"
    by (simp add: conflicting_pids_Nil)
  then show ?thesis
    unfolding a Let_def
    using assms insert_lock_inv park_inv [of t "\<lparr>waiter_entry = e, waiter_opaque = op\<rparr>" ino]
    by (auto simp: insert_lock_views park_views)
qed

text \<open>
  C17. Deadlock freedom is maintained: when no process waits for itself through others and the
  requesting process is not itself parked, every outcome of \<open>acquire_lock\<close> leaves the wait-for
  graph acyclic.
\<close>

theorem acquire_keeps_acyclic:
  assumes "table_inv t" and "wf_entry e" and "acyclic (wait_graph t)"
    and "\<forall>ino. \<forall>w \<in> set (waiters_of t ino). owner_pid (waiter_entry w) \<noteq> owner_pid e"
    and "acquire_lock ino e blocking op t = Some (r, t')"
  shows "acyclic (wait_graph t')"
proof -
  let ?p = "owner_pid e" and ?pids = "conflicting_pids t ino e"
  let ?w = "\<lparr>waiter_entry = e, waiter_opaque = op\<rparr>"
  have "lock_type_of e \<noteq> Unlock" using assms(2) by (simp add: wf_entry_def)
  from acquire_lock_cases [OF assms(1) this, of ino blocking op] assms(5)
  consider "t' = t" | "t' = insert_lock ino e t"
    | "t' = park ino ?w t" "\<not> reaches_cycle (wait_graph t \<union> wait_edges_to ?p ?pids) ?p"
    by (auto split: if_splits)
  then show ?thesis
  proof cases
    case 1
    with assms(3) show ?thesis by simp
  next
    case 2
    have "?p \<notin> Domain (wait_graph (insert_lock ino e t))"
      using assms(4) by (auto dest!: wait_graph_Domain simp: insert_lock_views)
    with acyclic_sink [OF assms(3) wait_graph_insert] show ?thesis by (simp add: 2)
  next
    case 3
    have "(?p, ?p) \<notin> (wait_graph t \<union> wait_edges_to ?p ?pids)\<^sup>+"
      using 3(2) by (auto simp: reaches_cycle_def)
    with acyclic_source [OF assms(3), of "wait_edges_to ?p ?pids" ?p] show ?thesis
      by (auto simp: 3(1) wait_graph_park wait_edges_to_def)
  qed
qed

lemmas lock_eval = sample_lock_defs entry_conflicts_def lr_overlaps_def lr_end_def sat_add64_def u64_max_def

lemma sample_wait_graph: "wait_graph sample_table = {(2, 1)}"
proof -
  have "table_edges sample_table = [(2, 1)]"
    by (simp add: table_edges_def parked_edges_def lock_eval)
  then show ?thesis using set_table_edges [OF table_invD(1) [OF sample_table_inv]] by simp
qed

theorem would_deadlock_correct_witness:
  "table_inv sample_table \<and> would_deadlock sample_table 1 [2] = Some True \<and>
   reaches_cycle (wait_graph sample_table \<union> wait_edges_to 1 [2]) 1"
proof -
  have "would_deadlock sample_table 1 [2] = Some True"
    by (simp add: would_deadlock_def proposed_edges_def table_edges_def parked_edges_def lock_eval)
  with would_deadlock_correct [OF sample_table_inv, of 1 "[2]"] sample_table_inv show ?thesis by simp
qed

theorem acquire_lock_correct_witness:
  "table_inv sample_table \<and> wf_entry (sample_lock 5 Write 3) \<and>
   acquire_lock 7 (sample_lock 5 Write 3) False 0 sample_table = Some (Inl WouldBlock, sample_table)"
proof -
  have wf: "wf_entry (sample_lock 5 Write 3)"
    by (simp add: wf_entry_def wf_range_def sample_lock_defs u64_max_def)
  have "sample_lock 0 Read 1 \<in> set (locks_of sample_table 7)"
    and "entry_conflicts (sample_lock 5 Write 3) (sample_lock 0 Read 1)"
    by (simp_all add: lock_eval locks_of_def)
  then have "\<exists>e' \<in> set (locks_of sample_table 7). entry_conflicts (sample_lock 5 Write 3) e'" by blast
  with acquire_lock_correct [OF sample_table_inv wf, of 7 False 0] wf sample_table_inv show ?thesis
    by (auto simp: Let_def)
qed

theorem acquire_keeps_acyclic_witness:
  "\<exists>t'. table_inv sample_table \<and> wf_entry (sample_lock 5 Write 3) \<and> acyclic (wait_graph sample_table) \<and>
     (\<forall>ino. \<forall>w \<in> set (waiters_of sample_table ino). owner_pid (waiter_entry w) \<noteq> owner_pid (sample_lock 5 Write 3)) \<and>
     acquire_lock 7 (sample_lock 5 Write 3) True 0 sample_table = Some (Inr (), t') \<and> acyclic (wait_graph t')"
proof -
  have wf: "wf_entry (sample_lock 5 Write 3)"
    by (simp add: wf_entry_def wf_range_def sample_lock_defs u64_max_def)
  have ac: "acyclic (wait_graph sample_table)"
    by (simp add: sample_wait_graph acyclic_insert wf_acyclic)
  have own: "\<forall>ino. \<forall>w \<in> set (waiters_of sample_table ino). owner_pid (waiter_entry w) \<noteq> owner_pid (sample_lock 5 Write 3)"
    by (simp add: waiters_of_def sample_lock_defs split: option.splits)
  have four: "dfs_cycle 4 = dfs_cycle (Suc (Suc (Suc (Suc 0))))" by (simp add: eval_nat_numeral)
  have "map_option fst (acquire_lock 7 (sample_lock 5 Write 3) True 0 sample_table) = Some (Inr ())"
    by (simp add: acquire_lock_def conflicting_pids_def would_deadlock_def proposed_edges_def
        table_edges_def parked_edges_def lock_eval four)
  then obtain t' where "acquire_lock 7 (sample_lock 5 Write 3) True 0 sample_table = Some (Inr (), t')"
    by (auto simp: map_option_case split: option.splits)
  with acquire_keeps_acyclic [OF sample_table_inv wf ac own this] wf ac own sample_table_inv show ?thesis by blast
qed

end
