(* ===== verification/Quorum_Write.thy ===== *)
theory Quorum_Write
  imports Tide_Prelude "HOL-Library.Word"
begin

text \<open>
  The four-phase quorum write of the quorum-write crate: PREPARE, TRANSFER, COMMIT and WITNESS
  over a list of target nodes, the evaluation of the result under a durability mode, the summary and
  its consistency checks, and the degraded read. Identifiers and digests are 64-bit words, so the
  wrapping products and sums of the receipt ids and digests are those of the source; payload bytes are
  8-bit words. The messages of the consistency check are constructors that carry the numbers
  the source formats into its strings.
\<close>

section \<open>Definitions\<close>

type_synonym u64 = "64 word"
type_synonym node_id = u64

datatype durability_mode = QuorumFull | QuorumWitness | QuorumChain

fun mode_min_quorum :: "durability_mode \<Rightarrow> nat \<Rightarrow> nat" where
  "mode_min_quorum QuorumFull target_count = target_count"
| "mode_min_quorum QuorumWitness target_count = target_count div 2 + 1"
| "mode_min_quorum QuorumChain target_count = target_count div 2 + 1"

datatype write_class = Committed | DegradedCommitted | RefusedNoQuorum

fun write_class_is_success :: "write_class \<Rightarrow> bool" where
  "write_class_is_success Committed = True"
| "write_class_is_success DegradedCommitted = True"
| "write_class_is_success RefusedNoQuorum = False"

definition write_class_needs_repair :: "write_class \<Rightarrow> bool" where
  "write_class_needs_repair c \<longleftrightarrow> c = DegradedCommitted"

definition write_class_is_refused :: "write_class \<Rightarrow> bool" where
  "write_class_is_refused c \<longleftrightarrow> c = RefusedNoQuorum"

fun write_class_code :: "write_class \<Rightarrow> u64" where
  "write_class_code Committed = 0"
| "write_class_code DegradedCommitted = 1"
| "write_class_code RefusedNoQuorum = 2"

datatype read_class = Exact | DegradedButValid | RepairRequired | Unavailable

fun read_class_is_readable :: "read_class \<Rightarrow> bool" where
  "read_class_is_readable Exact = True"
| "read_class_is_readable DegradedButValid = True"
| "read_class_is_readable _ = False"

datatype phase_kind = Prepare | Transfer | Commit | Witness

fun phase_next :: "phase_kind \<Rightarrow> phase_kind option" where
  "phase_next Prepare = Some Transfer"
| "phase_next Transfer = Some Commit"
| "phase_next Commit = Some Witness"
| "phase_next Witness = None"

datatype refusal_reason = NoCapacity | WrongEpoch | NotAuthorized | DigestMismatch | Timeout

record quorum_write_protocol =
  qp_write_id :: u64
  qp_ticket_id :: u64
  qp_object_key :: string
  qp_durability_mode :: durability_mode
  qp_writer_id :: node_id
  qp_target_nodes :: "node_id list"
  qp_byte_count :: u64
  qp_expected_digest :: "8 word list"
  qp_placement_epoch :: u64
  qp_current_phase :: phase_kind
  qp_digest :: u64

definition quorum_write_protocol_new ::
    "u64 \<Rightarrow> u64 \<Rightarrow> string \<Rightarrow> durability_mode \<Rightarrow> node_id \<Rightarrow> node_id list \<Rightarrow> u64 \<Rightarrow> 8 word list \<Rightarrow> u64 \<Rightarrow>
     quorum_write_protocol" where
  "quorum_write_protocol_new write_id ticket_id object_key mode writer targets bytes expected epoch =
     \<lparr>qp_write_id = write_id, qp_ticket_id = ticket_id, qp_object_key = object_key,
      qp_durability_mode = mode, qp_writer_id = writer, qp_target_nodes = targets,
      qp_byte_count = bytes, qp_expected_digest = expected, qp_placement_epoch = epoch,
      qp_current_phase = Prepare, qp_digest = 0\<rparr>"

definition min_quorum :: "quorum_write_protocol \<Rightarrow> nat" where
  "min_quorum protocol = mode_min_quorum (qp_durability_mode protocol) (length (qp_target_nodes protocol))"

record prepare_response =
  pr_ticket_id :: u64
  pr_target :: node_id
  pr_accepted :: bool
  pr_reason_if_refused :: "refusal_reason option"
  pr_digest :: u64

record transfer_ack =
  ta_ticket_id :: u64
  ta_chunk_index :: nat
  ta_target :: node_id
  ta_received_digest :: "8 word list"
  ta_digest_ok :: bool

record commit_ack =
  ca_ticket_id :: u64
  ca_target :: node_id
  ca_placement_receipt_id :: u64
  ca_receipt_committed :: bool
  ca_digest :: u64

record witness_ack =
  wa_ticket_id :: u64
  wa_target :: node_id
  wa_attested :: bool
  wa_digest :: u64

record quorum_write_result =
  qr_write_id :: u64
  qr_ticket_id :: u64
  qr_object_key :: string
  qr_write_class :: write_class
  qr_acks_count :: nat
  qr_target_count :: nat
  qr_quorum_size :: nat
  qr_durability_mode :: durability_mode
  qr_placement_receipts :: "u64 list"
  qr_witnesses :: "node_id list"
  qr_needs_repair :: bool
  qr_digests_matched :: bool
  qr_digest :: u64

record quorum_write_target_record =
  tr_target :: node_id
  tr_prepare_accepted :: bool
  tr_prepare_refusal_reason :: "refusal_reason option"
  tr_transfer_acked :: bool
  tr_transfer_digest_ok :: bool
  tr_commit_acked :: bool
  tr_witness_attested :: bool

record quorum_write_summary =
  qs_write_id :: u64
  qs_write_class :: write_class
  qs_target_records :: "quorum_write_target_record list"
  qs_acks_at_commit :: nat
  qs_acks_at_witness :: nat
  qs_min_quorum :: nat
  qs_degraded :: bool
  qs_refused :: bool

text \<open>The first entry for a node in a list of pairs, or the default of \<open>unwrap_or\<close>.\<close>

definition lookup_or :: "'v \<Rightarrow> (node_id \<times> 'v) list \<Rightarrow> node_id \<Rightarrow> 'v" where
  "lookup_or d ps n = (case find (\<lambda>(m, _). m = n) ps of Some (_, v) \<Rightarrow> v | None \<Rightarrow> d)"

definition prepare_decision ::
    "quorum_write_protocol \<Rightarrow> (node_id \<times> bool) list \<Rightarrow> (node_id \<times> u64) list \<Rightarrow> node_id list \<Rightarrow> node_id \<Rightarrow>
     bool \<times> refusal_reason option" where
  "prepare_decision protocol capacities epochs authorized target =
     (if \<not> list_ex (\<lambda>(n, c). n = target \<and> c) capacities then (False, Some NoCapacity)
      else if lookup_or 0 epochs target \<noteq> qp_placement_epoch protocol then (False, Some WrongEpoch)
      else if \<not> List.member authorized (qp_writer_id protocol) then (False, Some NotAuthorized)
      else (True, None))"

definition execute_prepare_phase ::
    "quorum_write_protocol \<Rightarrow> (node_id \<times> bool) list \<Rightarrow> (node_id \<times> u64) list \<Rightarrow> node_id list \<Rightarrow>
     prepare_response list" where
  "execute_prepare_phase protocol capacities epochs authorized =
     map (\<lambda>target.
       let (accepted, reason) = prepare_decision protocol capacities epochs authorized target
       in \<lparr>pr_ticket_id = qp_ticket_id protocol, pr_target = target, pr_accepted = accepted,
           pr_reason_if_refused = reason,
           pr_digest = (qp_ticket_id protocol * 31 + target) * 31 + (if accepted then 1 else 0)\<rparr>)
       (qp_target_nodes protocol)"

definition received_digest :: "bool \<Rightarrow> 8 word list \<Rightarrow> 8 word list" where
  "received_digest ok data =
     map (\<lambda>b. if ok then b else b + 1) (take 32 data) @ replicate (32 - length data) 0"

definition execute_transfer_phase ::
    "quorum_write_protocol \<Rightarrow> prepare_response list \<Rightarrow> 8 word list \<Rightarrow> (node_id \<times> bool) list \<Rightarrow>
     transfer_ack list" where
  "execute_transfer_phase protocol responses data digest_ok =
     map (\<lambda>(ci, pr).
       let ok = lookup_or True digest_ok (pr_target pr)
       in \<lparr>ta_ticket_id = qp_ticket_id protocol, ta_chunk_index = ci, ta_target = pr_target pr,
           ta_received_digest = received_digest ok data, ta_digest_ok = ok\<rparr>)
       (filter (\<lambda>(_, pr). pr_accepted pr) (enumerate 0 responses))"

definition receipt_id :: "quorum_write_protocol \<Rightarrow> node_id \<Rightarrow> u64" where
  "receipt_id protocol target = qp_ticket_id protocol * 31 + target"

definition execute_commit_phase ::
    "quorum_write_protocol \<Rightarrow> transfer_ack list \<Rightarrow> commit_ack list" where
  "execute_commit_phase protocol transfer_acks =
     map (\<lambda>ta. \<lparr>ca_ticket_id = qp_ticket_id protocol, ca_target = ta_target ta,
                 ca_placement_receipt_id = receipt_id protocol (ta_target ta),
                 ca_receipt_committed = True,
                 ca_digest = qp_ticket_id protocol * 31 + ta_target ta\<rparr>)
       (filter ta_digest_ok transfer_acks)"

definition execute_witness_phase ::
    "quorum_write_protocol \<Rightarrow> commit_ack list \<Rightarrow> (node_id \<times> bool) list \<Rightarrow> witness_ack list" where
  "execute_witness_phase protocol commit_acks witness_targets =
     map (\<lambda>ca.
       let attests = lookup_or True witness_targets (ca_target ca)
       in \<lparr>wa_ticket_id = qp_ticket_id protocol, wa_target = ca_target ca, wa_attested = attests,
           wa_digest = (qp_ticket_id protocol * 31 + ca_target ca) * 31 + (if attests then 1 else 0)\<rparr>)
       commit_acks"

definition valid_commit :: "commit_ack \<Rightarrow> bool" where
  "valid_commit ack \<longleftrightarrow> ca_receipt_committed ack \<and> ca_placement_receipt_id ack \<noteq> 0"

definition classify_write :: "nat \<Rightarrow> nat \<Rightarrow> nat \<Rightarrow> write_class" where
  "classify_write acks min_q target_count =
     (if acks < min_q then RefusedNoQuorum
      else if acks = target_count then Committed else DegradedCommitted)"

definition evaluate_quorum_result ::
    "quorum_write_protocol \<Rightarrow> transfer_ack list \<Rightarrow> commit_ack list \<Rightarrow> witness_ack list \<Rightarrow>
     quorum_write_result" where
  "evaluate_quorum_result protocol transfer_acks commit_acks witness_acks =
     (let min_q = min_quorum protocol;
          target_count = length (qp_target_nodes protocol);
          committed = filter valid_commit commit_acks;
          acks = length committed;
          cls = classify_write acks min_q target_count
      in \<lparr>qr_write_id = qp_write_id protocol, qr_ticket_id = qp_ticket_id protocol,
          qr_object_key = qp_object_key protocol, qr_write_class = cls,
          qr_acks_count = acks, qr_target_count = target_count, qr_quorum_size = min_q,
          qr_durability_mode = qp_durability_mode protocol,
          qr_placement_receipts = map ca_placement_receipt_id committed,
          qr_witnesses = map wa_target (filter wa_attested witness_acks),
          qr_needs_repair = (cls = DegradedCommitted),
          qr_digests_matched = list_all ta_digest_ok transfer_acks,
          qr_digest = (qp_write_id protocol * 31 + write_class_code cls) * 31 + word_of_nat acks\<rparr>)"

definition execute_full_quorum_write ::
    "u64 \<Rightarrow> u64 \<Rightarrow> string \<Rightarrow> durability_mode \<Rightarrow> node_id \<Rightarrow> node_id list \<Rightarrow> u64 \<Rightarrow> 8 word list \<Rightarrow> u64 \<Rightarrow>
     (node_id \<times> bool) list \<Rightarrow> (node_id \<times> u64) list \<Rightarrow> node_id list \<Rightarrow> 8 word list \<Rightarrow>
     (node_id \<times> bool) list \<Rightarrow> (node_id \<times> bool) list \<Rightarrow> quorum_write_result" where
  "execute_full_quorum_write write_id ticket_id object_key mode writer targets bytes expected epoch
       capacities epochs authorized data digest_ok witness_targets =
     (let protocol = quorum_write_protocol_new write_id ticket_id object_key mode writer targets bytes
                       expected epoch;
          prepare = execute_prepare_phase protocol capacities epochs authorized;
          transfer = execute_transfer_phase protocol prepare data digest_ok;
          commit = execute_commit_phase protocol transfer;
          witness = execute_witness_phase protocol commit witness_targets
      in evaluate_quorum_result protocol transfer commit witness)"

fun degraded_read_loop ::
    "node_id \<Rightarrow> node_id list \<Rightarrow> (node_id \<times> 8 word list option) list \<Rightarrow> node_id list \<Rightarrow>
     read_class \<times> 8 word list option \<times> node_id list" where
  "degraded_read_loop primary [] replicas tried = (Unavailable, None, tried)"
| "degraded_read_loop primary (target # targets) replicas tried =
     (let tried' = tried @ [target]
      in case lookup_or None replicas target of
           Some data \<Rightarrow>
             if data \<noteq> [] then
               (if target = primary then (Exact, Some data, tried') else (DegradedButValid, Some data, tried'))
             else degraded_read_loop primary targets replicas tried'
         | None \<Rightarrow> degraded_read_loop primary targets replicas tried')"

definition execute_degraded_read ::
    "node_id list \<Rightarrow> (node_id \<times> 8 word list option) list \<Rightarrow>
     read_class \<times> 8 word list option \<times> node_id list" where
  "execute_degraded_read targets replicas =
     (case targets of [] \<Rightarrow> (Unavailable, None, [])
      | primary # _ \<Rightarrow> degraded_read_loop primary targets replicas [])"

fun seen_targets :: "node_id list \<Rightarrow> prepare_response list \<Rightarrow> node_id list" where
  "seen_targets seen [] = seen"
| "seen_targets seen (pr # prs) =
     seen_targets (if List.member seen (pr_target pr) then seen else seen @ [pr_target pr]) prs"

definition target_record ::
    "prepare_response list \<Rightarrow> transfer_ack list \<Rightarrow> commit_ack list \<Rightarrow> witness_ack list \<Rightarrow> node_id \<Rightarrow>
     quorum_write_target_record" where
  "target_record prs tas cas was target =
     (let pr = find (\<lambda>r. pr_target r = target) prs;
          ta = find (\<lambda>a. ta_target a = target) tas;
          ca = find (\<lambda>a. ca_target a = target) cas;
          wa = find (\<lambda>a. wa_target a = target) was
      in \<lparr>tr_target = target,
          tr_prepare_accepted = (case pr of Some r \<Rightarrow> pr_accepted r | None \<Rightarrow> False),
          tr_prepare_refusal_reason = (case pr of Some r \<Rightarrow> pr_reason_if_refused r | None \<Rightarrow> None),
          tr_transfer_acked = (ta \<noteq> None),
          tr_transfer_digest_ok = (case ta of Some a \<Rightarrow> ta_digest_ok a | None \<Rightarrow> False),
          tr_commit_acked = (case ca of Some a \<Rightarrow> ca_receipt_committed a | None \<Rightarrow> False),
          tr_witness_attested = (case wa of Some a \<Rightarrow> wa_attested a | None \<Rightarrow> False)\<rparr>)"

definition build_quorum_write_summary ::
    "quorum_write_result \<Rightarrow> prepare_response list \<Rightarrow> transfer_ack list \<Rightarrow> commit_ack list \<Rightarrow>
     witness_ack list \<Rightarrow> quorum_write_summary" where
  "build_quorum_write_summary result prs tas cas was =
     \<lparr>qs_write_id = qr_write_id result, qs_write_class = qr_write_class result,
      qs_target_records = map (target_record prs tas cas was) (seen_targets [] prs),
      qs_acks_at_commit = length (filter valid_commit cas),
      qs_acks_at_witness = length (filter wa_attested was),
      qs_min_quorum = qr_quorum_size result,
      qs_degraded = (qr_write_class result = DegradedCommitted),
      qs_refused = (qr_write_class result = RefusedNoQuorum)\<rparr>"

datatype quorum_violation =
    CommittedBelowQuorum nat nat
  | RefusedWithQuorum nat nat
  | DegradedBelowQuorum nat nat
  | DegradedWithAllTargets nat nat
  | NeedsRepairMismatch
  | ReceiptsMismatch nat nat
  | SummaryDegradedMismatch
  | SummaryRefusedMismatch

definition validate_quorum_invariants ::
    "quorum_write_result \<Rightarrow> quorum_write_summary \<Rightarrow> quorum_violation list" where
  "validate_quorum_invariants result summary =
     (let acks = qr_acks_count result; quorum = qr_quorum_size result; targets = qr_target_count result;
          cls = qr_write_class result; receipts = length (qr_placement_receipts result)
      in (if cls = Committed \<and> acks < quorum then [CommittedBelowQuorum acks quorum] else []) @
         (if cls = RefusedNoQuorum \<and> quorum > 0 \<and> acks \<ge> quorum then [RefusedWithQuorum acks quorum] else []) @
         (if cls = DegradedCommitted then
            (if acks < quorum then [DegradedBelowQuorum acks quorum] else []) @
            (if acks \<ge> targets then [DegradedWithAllTargets acks targets] else []) else []) @
         (if qr_needs_repair result \<noteq> (cls = DegradedCommitted) then [NeedsRepairMismatch] else []) @
         (if receipts \<noteq> acks then [ReceiptsMismatch receipts acks] else []) @
         (if qs_degraded summary \<noteq> (cls = DegradedCommitted) then [SummaryDegradedMismatch] else []) @
         (if qs_refused summary \<noteq> (cls = RefusedNoQuorum) then [SummaryRefusedMismatch] else []))"

end
