(* ===== verification/Quorum_Safety.thy ===== *)
theory Quorum_Safety
  imports Quorum_Write
begin

text \<open>
  Correctness of the quorum write: the result of a whole write in terms of the targets that
  acknowledged it, the intersection of any two successful writes, the consistency checks, and reads
  after writes.
\<close>

section \<open>The phases\<close>

text \<open>
  The targets that count as acknowledged: those that accept the preparation, receive the right
  digest and get a receipt id other than zero.
\<close>

definition acked_targets ::
    "quorum_write_protocol \<Rightarrow> (node_id \<times> bool) list \<Rightarrow> (node_id \<times> u64) list \<Rightarrow> node_id list \<Rightarrow>
     (node_id \<times> bool) list \<Rightarrow> node_id list" where
  "acked_targets protocol capacities epochs authorized digest_ok =
     filter (\<lambda>t. fst (prepare_decision protocol capacities epochs authorized t) \<and>
               lookup_or True digest_ok t \<and> receipt_id protocol t \<noteq> 0) (qp_target_nodes protocol)"

lemma prepare_responses:
  "map (\<lambda>pr. (pr_target pr, pr_accepted pr)) (execute_prepare_phase p caps eps auth) =
     map (\<lambda>t. (t, fst (prepare_decision p caps eps auth t))) (qp_target_nodes p)"
  by (simp add: execute_prepare_phase_def case_prod_beta Let_def)

lemma filter_enumerate: "map snd (filter (\<lambda>(_, x). P x) (enumerate n xs)) = filter P xs"
  by (induction xs arbitrary: n) auto

lemma transfer_acks:
  "map (\<lambda>ta. (ta_target ta, ta_digest_ok ta)) (execute_transfer_phase p prs data oks) =
     map (\<lambda>pr. (pr_target pr, lookup_or True oks (pr_target pr))) (filter pr_accepted prs)"
proof -
  have "map (\<lambda>ta. (ta_target ta, ta_digest_ok ta)) (execute_transfer_phase p prs data oks) =
      map (\<lambda>pr. (pr_target pr, lookup_or True oks (pr_target pr)))
        (map snd (filter (\<lambda>(_, pr). pr_accepted pr) (enumerate 0 prs)))"
    by (simp add: execute_transfer_phase_def Let_def case_prod_beta)
  then show ?thesis by (simp only: filter_enumerate)
qed

lemma accepted_targets:
  "map pr_target (filter pr_accepted (execute_prepare_phase p caps eps auth)) =
     filter (\<lambda>t. fst (prepare_decision p caps eps auth t)) (qp_target_nodes p)"
  by (simp add: execute_prepare_phase_def filter_map comp_def case_prod_beta Let_def)

lemma transfer_ok_targets:
  "map ta_target (filter ta_digest_ok (execute_transfer_phase p (execute_prepare_phase p caps eps auth) data oks)) =
     filter (\<lambda>t. fst (prepare_decision p caps eps auth t) \<and> lookup_or True oks t) (qp_target_nodes p)"
proof -
  let ?tas = "execute_transfer_phase p (execute_prepare_phase p caps eps auth) data oks"
  have "map ta_target (filter ta_digest_ok ?tas) =
      map fst (filter snd (map (\<lambda>ta. (ta_target ta, ta_digest_ok ta)) ?tas))"
    by (simp add: filter_map comp_def)
  also have "\<dots> = filter (lookup_or True oks) (map pr_target (filter pr_accepted (execute_prepare_phase p caps eps auth)))"
    unfolding transfer_acks by (simp add: filter_map comp_def)
  finally show ?thesis by (simp add: accepted_targets conj_commute)
qed

lemma commit_targets:
  "map ca_target (filter valid_commit (execute_commit_phase p tas)) =
     filter (\<lambda>t. receipt_id p t \<noteq> 0) (map ta_target (filter ta_digest_ok tas))"
  by (simp add: execute_commit_phase_def valid_commit_def filter_map comp_def)

lemma commit_receipts:
  "map ca_placement_receipt_id (filter valid_commit (execute_commit_phase p tas)) =
     map (receipt_id p) (map ca_target (filter valid_commit (execute_commit_phase p tas)))"
  by (simp add: execute_commit_phase_def filter_map comp_def)

lemma transfer_all_ok:
  "list_all ta_digest_ok (execute_transfer_phase p (execute_prepare_phase p caps eps auth) data oks) \<longleftrightarrow>
     (\<forall>t \<in> set (qp_target_nodes p). fst (prepare_decision p caps eps auth t) \<longrightarrow> lookup_or True oks t)"
proof -
  let ?tas = "execute_transfer_phase p (execute_prepare_phase p caps eps auth) data oks"
  have "list_all ta_digest_ok ?tas \<longleftrightarrow> list_all snd (map (\<lambda>ta. (ta_target ta, ta_digest_ok ta)) ?tas)"
    by (simp add: list_all_length)
  also have "\<dots> \<longleftrightarrow> list_all (lookup_or True oks) (map pr_target (filter pr_accepted (execute_prepare_phase p caps eps auth)))"
    unfolding transfer_acks by (simp add: list_all_iff)
  finally show ?thesis by (auto simp: accepted_targets list_all_iff)
qed

lemma attesting_targets:
  "map wa_target (filter wa_attested (execute_witness_phase p cas wits)) =
     filter (lookup_or True wits) (map ca_target cas)"
  by (simp add: execute_witness_phase_def Let_def filter_map comp_def)

text \<open>The result of a whole write in terms of the acknowledged targets.\<close>

lemma full_write_result:
  assumes p_def: "p = quorum_write_protocol_new write_id ticket key mode writer targets bytes expected epoch"
    and acked_def: "acked = acked_targets p caps eps auth oks"
    and r_def: "r = execute_full_quorum_write write_id ticket key mode writer targets bytes expected epoch
      caps eps auth data oks wits"
  shows "qr_acks_count r = length acked" and "qr_target_count r = length targets"
    and "qr_quorum_size r = mode_min_quorum mode (length targets)"
    and "qr_write_class r = classify_write (length acked) (mode_min_quorum mode (length targets)) (length targets)"
    and "qr_placement_receipts r = map (receipt_id p) acked"
    and "qr_witnesses r = filter (lookup_or True wits)
      (filter (\<lambda>t. fst (prepare_decision p caps eps auth t) \<and> lookup_or True oks t) targets)"
    and "qr_needs_repair r \<longleftrightarrow> qr_write_class r = DegradedCommitted"
    and "qr_digests_matched r \<longleftrightarrow> (\<forall>t \<in> set targets. fst (prepare_decision p caps eps auth t) \<longrightarrow> lookup_or True oks t)"
proof -
  let ?tas = "execute_transfer_phase p (execute_prepare_phase p caps eps auth) data oks"
  let ?cas = "execute_commit_phase p ?tas"
  have targets: "qp_target_nodes p = targets" and mode: "qp_durability_mode p = mode"
    by (simp_all add: p_def quorum_write_protocol_new_def)
  have acked: "map ca_target (filter valid_commit ?cas) = acked"
    unfolding commit_targets transfer_ok_targets acked_def acked_targets_def
    by (simp add: conj_ac conj_commute)
  have r: "r = evaluate_quorum_result p ?tas ?cas (execute_witness_phase p ?cas wits)"
    by (simp add: r_def p_def execute_full_quorum_write_def Let_def)
  have n: "length (filter valid_commit ?cas) = length acked" by (simp flip: acked)
  show "qr_acks_count r = length acked" "qr_target_count r = length targets"
    "qr_quorum_size r = mode_min_quorum mode (length targets)"
    "qr_write_class r = classify_write (length acked) (mode_min_quorum mode (length targets)) (length targets)"
    "qr_needs_repair r \<longleftrightarrow> qr_write_class r = DegradedCommitted"
    by (simp_all add: r evaluate_quorum_result_def Let_def n targets mode min_quorum_def)
  show "qr_placement_receipts r = map (receipt_id p) acked"
    by (simp add: r evaluate_quorum_result_def Let_def commit_receipts acked)
  show "qr_digests_matched r \<longleftrightarrow> (\<forall>t \<in> set targets. fst (prepare_decision p caps eps auth t) \<longrightarrow> lookup_or True oks t)"
    by (simp add: r evaluate_quorum_result_def Let_def transfer_all_ok targets)
  have "map ca_target ?cas = map ta_target (filter ta_digest_ok ?tas)"
    by (simp add: execute_commit_phase_def)
  then show "qr_witnesses r = filter (lookup_or True wits)
      (filter (\<lambda>t. fst (prepare_decision p caps eps auth t) \<and> lookup_or True oks t) targets)"
    by (simp add: r evaluate_quorum_result_def Let_def attesting_targets transfer_ok_targets targets)
qed

lemma length_filter_eq: "length (filter P xs) = length xs \<longleftrightarrow> (\<forall>x \<in> set xs. P x)"
  by (induction xs) (auto simp: length_filter_le [THEN le_imp_less_Suc, THEN less_imp_neq])

lemma acked_targets_subset: "set (acked_targets p caps eps auth oks) \<subseteq> set (qp_target_nodes p)"
  by (auto simp: acked_targets_def)

lemma acked_targets_length: "length (acked_targets p caps eps auth oks) \<le> length (qp_target_nodes p)"
  by (simp add: acked_targets_def)

section \<open>Quorum systems\<close>

text \<open>
  What a client of replicated writes relies on: quorums are sets of more than half of the nodes,
  so any two of them share a node, and a quorum survives the loss of fewer nodes than it has.
\<close>

locale quorum_system =
  fixes nodes :: "'n set"
    and quorum :: "'n set \<Rightarrow> bool"
  assumes finite_nodes: "finite nodes"
    and quorum_nodes: "quorum S \<Longrightarrow> S \<subseteq> nodes"
    and quorum_majority: "quorum S \<Longrightarrow> card nodes < 2 * card S"
begin

lemma quorum_intersect:
  assumes "quorum S" and "quorum T"
  shows "S \<inter> T \<noteq> {}"
proof
  assume "S \<inter> T = {}"
  moreover have "finite S" and "finite T" and "S \<union> T \<subseteq> nodes"
    using assms quorum_nodes finite_nodes finite_subset by blast+
  ultimately have "card S + card T \<le> card nodes"
    by (metis card_Un_disjoint card_mono finite_nodes)
  with quorum_majority [OF assms(1)] quorum_majority [OF assms(2)] show False by simp
qed

lemma quorum_nonempty: "quorum S \<Longrightarrow> S \<noteq> {}"
  using quorum_intersect by blast

lemma quorum_survives:
  assumes "quorum S" and "finite F" and "card F < card S"
  shows "S - F \<noteq> {}"
proof
  assume "S - F = {}"
  then have "card S \<le> card F" using assms(2) by (intro card_mono) auto
  with assms(3) show False by simp
qed

end

definition write_quorum :: "node_id list \<Rightarrow> node_id set \<Rightarrow> bool" where
  "write_quorum targets S \<longleftrightarrow>
     targets \<noteq> [] \<and> S \<subseteq> set targets \<and> (\<exists>mode. mode_min_quorum mode (length targets) \<le> card S)"

lemma min_quorum_majority: "0 < n \<Longrightarrow> n < 2 * mode_min_quorum mode n"
  by (cases mode) auto

interpretation write_quorums: quorum_system "set targets" "write_quorum targets" for targets
proof
  fix S assume "write_quorum targets S"
  then obtain mode where "targets \<noteq> []" "mode_min_quorum mode (length targets) \<le> card S"
    by (auto simp: write_quorum_def)
  moreover have "card (set targets) \<le> length targets" by (rule card_length)
  moreover have "length targets < 2 * mode_min_quorum mode (length targets)"
    using \<open>targets \<noteq> []\<close> by (intro min_quorum_majority) simp
  ultimately show "card (set targets) < 2 * card S" by linarith
qed (auto simp: write_quorum_def)

lemma classify_success:
  "write_class_is_success (classify_write acks min_q n) \<longleftrightarrow> min_q \<le> acks"
  by (simp add: classify_write_def)

lemma successful_write_quorum:
  assumes "distinct targets" and "targets \<noteq> []"
    and "write_class_is_success (qr_write_class (execute_full_quorum_write write_id ticket key mode writer
      targets bytes expected epoch caps eps auth data oks wits))"
  defines "p \<equiv> quorum_write_protocol_new write_id ticket key mode writer targets bytes expected epoch"
  shows "write_quorum targets (set (acked_targets p caps eps auth oks))"
proof -
  let ?acked = "acked_targets p caps eps auth oks"
  have t: "qp_target_nodes p = targets" by (simp add: p_def quorum_write_protocol_new_def)
  have "distinct ?acked" using assms(1) by (simp add: acked_targets_def t)
  moreover have "mode_min_quorum mode (length targets) \<le> length ?acked"
    using assms(3) by (simp add: full_write_result(4) [OF refl refl refl] classify_success p_def)
  ultimately show ?thesis
    using assms(2) acked_targets_subset [of p] by (auto simp: write_quorum_def t distinct_card)
qed

section \<open>Degraded reads\<close>

definition readable_replica :: "(node_id \<times> 8 word list option) list \<Rightarrow> node_id \<Rightarrow> bool" where
  "readable_replica replicas t \<longleftrightarrow> (\<exists>data. lookup_or None replicas t = Some data \<and> data \<noteq> [])"

lemma degraded_read_loop_none:
  "\<forall>t \<in> set ts. \<not> readable_replica replicas t \<Longrightarrow>
     degraded_read_loop primary ts replicas tried = (Unavailable, None, tried @ ts)"
  by (induction ts arbitrary: tried) (auto simp: readable_replica_def Let_def split: option.splits)

lemma degraded_read_loop_first:
  assumes "\<forall>t \<in> set xs. \<not> readable_replica replicas t"
    and "lookup_or None replicas t = Some data" and "data \<noteq> []"
  shows "degraded_read_loop primary (xs @ t # ys) replicas tried =
    (if t = primary then Exact else DegradedButValid, Some data, tried @ xs @ [t])"
  using assms
  by (induction xs arbitrary: tried) (auto simp: readable_replica_def Let_def split: option.splits)

lemma degraded_read_loop_cases:
  obtains "\<forall>t \<in> set ts. \<not> readable_replica replicas t"
  | xs t ys data where "ts = xs @ t # ys" and "\<forall>t \<in> set xs. \<not> readable_replica replicas t"
    and "lookup_or None replicas t = Some data" and "data \<noteq> []"
proof (cases "\<exists>t \<in> set ts. readable_replica replicas t")
  case True
  then obtain xs t ys where "ts = xs @ t # ys" "readable_replica replicas t"
    "\<forall>t \<in> set xs. \<not> readable_replica replicas t"
    using split_list_first_prop [of ts "readable_replica replicas"] by blast
  then show thesis using that(2) by (auto simp: readable_replica_def)
qed (use that(1) in blast)

lemma execute_degraded_read_first:
  assumes "targets = xs @ t # ys" and "\<forall>t \<in> set xs. \<not> readable_replica replicas t"
    and "lookup_or None replicas t = Some data" and "data \<noteq> []"
  shows "execute_degraded_read targets replicas =
    (if t = hd targets then Exact else DegradedButValid, Some data, xs @ [t])"
proof -
  obtain h ts where "targets = h # ts" by (cases "xs @ t # ys") (simp_all add: assms(1))
  then have "execute_degraded_read targets replicas = degraded_read_loop (hd targets) targets replicas []"
    by (simp add: execute_degraded_read_def)
  then show ?thesis using degraded_read_loop_first [OF assms(2-4)] by (simp add: assms(1))
qed

lemma execute_degraded_read_none:
  assumes "\<forall>t \<in> set targets. \<not> readable_replica replicas t"
  shows "execute_degraded_read targets replicas = (Unavailable, None, targets)"
  using degraded_read_loop_none [OF assms, of "hd targets" "[]"]
  by (cases targets) (simp_all add: execute_degraded_read_def)




lemma acked_all_iff:
  "length (acked_targets p caps eps auth oks) = length (qp_target_nodes p) \<longleftrightarrow>
     acked_targets p caps eps auth oks = qp_target_nodes p"
  unfolding acked_targets_def by (simp add: filter_id_conv length_filter_eq)


section \<open>Properties\<close>

text \<open>
  C14. The outcome of a quorum write: with \<open>acked\<close> the targets that accept the preparation, receive
  the right digest and get a nonzero receipt id, the write is refused exactly when fewer targets
  acknowledge than the durability mode asks for, committed when all do, and degraded otherwise; the
  counts, the receipts, the repair flag, the witnesses and the digest flag are those of these targets.
\<close>

theorem quorum_write_outcome:
  fixes write_id :: u64
  assumes "p = quorum_write_protocol_new write_id ticket key mode writer targets bytes expected epoch"
    and "acked = acked_targets p caps eps auth oks"
    and "r = execute_full_quorum_write write_id ticket key mode writer targets bytes expected epoch
      caps eps auth data oks wits"
  shows "qr_acks_count r = length acked \<and> qr_target_count r = length targets \<and>
    qr_quorum_size r = mode_min_quorum mode (length targets) \<and>
    (qr_write_class r = RefusedNoQuorum \<longleftrightarrow> length acked < mode_min_quorum mode (length targets)) \<and>
    (qr_write_class r = Committed \<longleftrightarrow> mode_min_quorum mode (length targets) \<le> length acked \<and> acked = targets) \<and>
    (qr_needs_repair r \<longleftrightarrow> qr_write_class r = DegradedCommitted) \<and>
    qr_placement_receipts r = map (receipt_id p) acked \<and>
    set (qr_witnesses r) \<subseteq> {t \<in> set targets. lookup_or True wits t} \<and>
    (qr_digests_matched r \<longleftrightarrow> (\<forall>t \<in> set targets. fst (prepare_decision p caps eps auth t) \<longrightarrow> lookup_or True oks t))"
proof -
  note w = full_write_result [OF assms]
  have "qp_target_nodes p = targets" by (simp add: assms(1) quorum_write_protocol_new_def)
  then have all: "length acked = length targets \<longleftrightarrow> acked = targets"
    using acked_all_iff [of p caps eps auth oks] by (simp add: assms(2))
  have cls: "(classify_write a m n = RefusedNoQuorum \<longleftrightarrow> a < m) \<and> (classify_write a m n = Committed \<longleftrightarrow> m \<le> a \<and> a = n)"
    for a m n by (simp add: classify_write_def)
  have "set (qr_witnesses r) \<subseteq> {t \<in> set targets. lookup_or True wits t}" unfolding w(6) by auto
  then show ?thesis unfolding w(1-3,5,7,8) w(4) cls [THEN conjunct1] cls [THEN conjunct2] all by blast
qed

text \<open>
  C19. Any two successful writes to the same distinct targets, in whatever durability modes and with
  whatever answers, are acknowledged by a common target.
\<close>

theorem successful_writes_intersect:
  assumes "distinct targets" and "targets \<noteq> []"
    and "write_class_is_success (qr_write_class (execute_full_quorum_write w1 k1 key1 mode1 writer1
      targets bytes1 expected1 epoch1 caps1 eps1 auth1 data1 oks1 wits1))"
    and "write_class_is_success (qr_write_class (execute_full_quorum_write w2 k2 key2 mode2 writer2
      targets bytes2 expected2 epoch2 caps2 eps2 auth2 data2 oks2 wits2))"
  shows "set (acked_targets (quorum_write_protocol_new w1 k1 key1 mode1 writer1 targets bytes1 expected1 epoch1)
        caps1 eps1 auth1 oks1) \<inter>
      set (acked_targets (quorum_write_protocol_new w2 k2 key2 mode2 writer2 targets bytes2 expected2 epoch2)
        caps2 eps2 auth2 oks2) \<noteq> {}"
  by (rule write_quorums.quorum_intersect [OF successful_write_quorum [OF assms(1-3)]
        successful_write_quorum [OF assms(1,2,4)]])


text \<open>
  The consistency checks of the crate accept every result and summary that its own pipeline
  produces.
\<close>

theorem pipeline_invariants_hold:
  assumes "prs = execute_prepare_phase p caps eps auth" and "tas = execute_transfer_phase p prs data oks"
    and "cas = execute_commit_phase p tas" and "was = execute_witness_phase p cas wits"
    and "r = evaluate_quorum_result p tas cas was"
  shows "validate_quorum_invariants r (build_quorum_write_summary r prs tas cas was) = []"
proof -
  have "length (filter valid_commit cas) = length (acked_targets p caps eps auth oks)"
    using arg_cong [OF commit_targets [of p tas], of length]
    by (simp add: assms transfer_ok_targets acked_targets_def conj_ac)
  then have "length (filter valid_commit cas) \<le> length (qp_target_nodes p)"
    using acked_targets_length by simp
  then show ?thesis
    by (auto simp: assms(5) validate_quorum_invariants_def build_quorum_write_summary_def
        evaluate_quorum_result_def Let_def classify_write_def)
qed

text \<open>
  A degraded read returns the replica of the first target that has a non-empty one, is exact only
  for the first target, reports the targets it tried, and is unavailable exactly when no target has one.
\<close>

theorem degraded_read_correct:
  "case execute_degraded_read targets replicas of
     (cls, None, tried) \<Rightarrow> cls = Unavailable \<and> tried = targets \<and> (\<forall>t \<in> set targets. \<not> readable_replica replicas t)
   | (cls, Some data, tried) \<Rightarrow> (\<exists>xs t ys. targets = xs @ t # ys \<and> tried = xs @ [t] \<and>
       (\<forall>x \<in> set xs. \<not> readable_replica replicas x) \<and> lookup_or None replicas t = Some data \<and> data \<noteq> [] \<and>
       cls = (if t = hd targets then Exact else DegradedButValid))"
proof (rule degraded_read_loop_cases [of targets replicas])
  assume "\<forall>t \<in> set targets. \<not> readable_replica replicas t"
  then show ?thesis by (simp add: execute_degraded_read_none)
next
  fix xs t ys data
  assume "targets = xs @ t # ys" "\<forall>t \<in> set xs. \<not> readable_replica replicas t"
    "lookup_or None replicas t = Some data" "data \<noteq> []"
  note * = this
  show ?thesis unfolding execute_degraded_read_first [OF *] using * by auto
qed

text \<open>
  The witness phase has no influence on the write class: in witness mode, a write to three targets
  none of which attests is still reported as committed.
\<close>

theorem witnesses_do_not_count:
  "let r = execute_full_quorum_write 1 2 ''k'' QuorumWitness 9 [1, 2, 3] 0 [] 5
        [(1, True), (2, True), (3, True)] [(1, 5), (2, 5), (3, 5)] [9] [] []
        [(1, False), (2, False), (3, False)]
   in qr_write_class r = Committed \<and> qr_witnesses r = [] \<and> qr_quorum_size r = 2"
  by (simp add: full_write_result [OF refl refl refl] acked_targets_def quorum_write_protocol_new_def
      prepare_decision_def lookup_or_def receipt_id_def classify_write_def Let_def)

section \<open>Sample writes\<close>

definition sample_protocol :: quorum_write_protocol where
  "sample_protocol = quorum_write_protocol_new 1 2 ''k'' QuorumWitness 9 [1, 2, 3] 0 [] 5"

definition sample_write :: "node_id \<Rightarrow> quorum_write_result" where
  "sample_write full = execute_full_quorum_write 1 2 ''k'' QuorumWitness 9 [1, 2, 3] 0 [] 5
     (filter (\<lambda>(n, _). n \<noteq> full) [(1, True), (2, True), (3, True)]) [(1, 5), (2, 5), (3, 5)] [9] [7] [] []"

definition sample_acked :: "node_id \<Rightarrow> node_id list" where
  "sample_acked full = acked_targets sample_protocol
     (filter (\<lambda>(n, _). n \<noteq> full) [(1, True), (2, True), (3, True)]) [(1, 5), (2, 5), (3, 5)] [9] []"

lemma sample_acked_eval: "sample_acked 3 = [1, 2]" "sample_acked 1 = [2, 3]"
  by (simp_all add: sample_acked_def acked_targets_def sample_protocol_def quorum_write_protocol_new_def
      prepare_decision_def lookup_or_def receipt_id_def)

lemma sample_write_success:
  "write_class_is_success (qr_write_class (sample_write 3))"
  "write_class_is_success (qr_write_class (sample_write 1))"
  using sample_acked_eval
  by (simp_all add: sample_write_def full_write_result [OF refl refl refl] classify_success
      sample_acked_def sample_protocol_def)

theorem quorum_write_outcome_witness:
  "qr_acks_count (sample_write 3) = 2 \<and> qr_write_class (sample_write 3) \<noteq> RefusedNoQuorum \<and>
   qr_write_class (sample_write 3) \<noteq> Committed \<and> qr_placement_receipts (sample_write 3) = [63, 64]"
proof -
  from quorum_write_outcome [OF refl sample_acked_def [of 3, unfolded sample_protocol_def] sample_write_def [of 3]]
  show ?thesis
    by (simp add: sample_acked_eval receipt_id_def quorum_write_protocol_new_def)
qed

theorem successful_writes_intersect_witness:
  "distinct [1, 2, 3 :: node_id] \<and> [1, 2, 3 :: node_id] \<noteq> [] \<and>
   write_class_is_success (qr_write_class (sample_write 3)) \<and>
   write_class_is_success (qr_write_class (sample_write 1)) \<and>
   set (sample_acked 3) \<inter> set (sample_acked 1) \<noteq> {}"
proof -
  have d: "distinct [1, 2, 3 :: node_id]" by simp
  show ?thesis
    using successful_writes_intersect [OF d _ sample_write_success(1) [unfolded sample_write_def]
        sample_write_success(2) [unfolded sample_write_def]] sample_write_success
    by (simp add: sample_acked_def sample_protocol_def)
qed


theorem degraded_read_correct_witness:
  "execute_degraded_read [1, 2] [(2, Some [7])] = (DegradedButValid, Some [7], [1, 2]) \<and>
   \<not> readable_replica [(2, Some [7])] 1 \<and> lookup_or None [(2, Some [7])] 2 = Some [7 :: 8 word]"
proof -
  have e: "execute_degraded_read [1, 2] [(2, Some [7])] = (DegradedButValid, Some [7], [1, 2])"
    by (simp add: execute_degraded_read_def lookup_or_def)
  show ?thesis using degraded_read_correct [of "[1, 2]" "[(2, Some [7])]"] unfolding e by auto
qed

theorem pipeline_invariants_hold_witness:
  "let prs = execute_prepare_phase sample_protocol [(1, True)] [(1, 5)] [9];
       tas = execute_transfer_phase sample_protocol prs [7] [];
       cas = execute_commit_phase sample_protocol tas;
       was = execute_witness_phase sample_protocol cas [];
       r = evaluate_quorum_result sample_protocol tas cas was
   in validate_quorum_invariants r (build_quorum_write_summary r prs tas cas was) = []"
  unfolding Let_def by (rule pipeline_invariants_hold [OF refl refl refl refl refl])

end
