(* ===== verification/Lease_Machine.thy ===== *)
theory Lease_Machine
  imports Tide_Prelude
begin

text \<open>
  The lease state machine of the lease crate (\<open>lease_state_machine.rs\<close>), which arbitrates the
  single writer of a domain: grant, renew, revoke, fence and time-based expiry. Instants and durations
  are natural numbers and \<open>duration_since\<close> saturates at zero. The methods that read the clock
  themselves and their \<open>_at\<close> variants are one definition that takes the instant. The
  properties are about the traces of a fresh machine: who held the lease, and what made it what it is.
\<close>

section \<open>Definitions\<close>

datatype lease_state =
    Idle
  | Granted (lease_holder: nat) (lease_ttl: nat) (granted_at: nat)
  | Fenced
  | Revoked
  | Expired

fun lease_is_terminal :: "lease_state \<Rightarrow> bool" where
  "lease_is_terminal Fenced = True"
| "lease_is_terminal Revoked = True"
| "lease_is_terminal Expired = True"
| "lease_is_terminal _ = False"

datatype transition_error = NotIdle | NotGrantedForFence | NotGranted | AlreadyExpired | HolderMismatch

definition lease_new :: lease_state where
  "lease_new = Idle"

fun grant_at :: "nat \<Rightarrow> nat \<Rightarrow> nat \<Rightarrow> lease_state \<Rightarrow> (transition_error + unit) \<times> lease_state" where
  "grant_at holder ttl now Idle = (Inr (), Granted holder ttl now)"
| "grant_at holder ttl now s = (Inl NotIdle, s)"

fun revoke :: "lease_state \<Rightarrow> (transition_error + unit) \<times> lease_state" where
  "revoke (Granted _ _ _) = (Inr (), Revoked)"
| "revoke Expired = (Inl AlreadyExpired, Expired)"
| "revoke s = (Inl NotGranted, s)"

fun renew_at :: "nat \<Rightarrow> nat \<Rightarrow> nat \<Rightarrow> lease_state \<Rightarrow> (transition_error + unit) \<times> lease_state" where
  "renew_at holder ttl now (Granted h t g) =
     (if h \<noteq> holder then (Inl HolderMismatch, Granted h t g) else (Inr (), Granted holder ttl now))"
| "renew_at holder ttl now Expired = (Inl AlreadyExpired, Expired)"
| "renew_at holder ttl now s = (Inl NotGranted, s)"

fun fence :: "lease_state \<Rightarrow> (transition_error + unit) \<times> lease_state" where
  "fence (Granted _ _ _) = (Inr (), Fenced)"
| "fence Expired = (Inl AlreadyExpired, Expired)"
| "fence s = (Inl NotGrantedForFence, s)"

fun tick_at :: "nat \<Rightarrow> lease_state \<Rightarrow> lease_state" where
  "tick_at now (Granted h ttl g) = (if now - g \<ge> ttl then Expired else Granted h ttl g)"
| "tick_at now s = s"

fun is_active_at :: "nat \<Rightarrow> lease_state \<Rightarrow> bool" where
  "is_active_at now (Granted h ttl g) \<longleftrightarrow> now - g < ttl"
| "is_active_at now s \<longleftrightarrow> False"

datatype lease_cmd = Grant nat nat nat | Revoke | Renew nat nat nat | Fence | Tick nat

fun lease_step :: "lease_cmd \<Rightarrow> lease_state \<Rightarrow> (transition_error + unit) \<times> lease_state" where
  "lease_step (Grant h ttl now) s = grant_at h ttl now s"
| "lease_step Revoke s = revoke s"
| "lease_step (Renew h ttl now) s = renew_at h ttl now s"
| "lease_step Fence s = fence s"
| "lease_step (Tick now) s = (Inr (), tick_at now s)"

section \<open>What one operation establishes\<close>

text \<open>
  An operation establishes a grant when it succeeds as the grant or the renewal with these values, and
  is harmless to a grant in force when it is refused or has no effect on it.
\<close>

fun establishes :: "nat \<Rightarrow> nat \<Rightarrow> nat \<Rightarrow> lease_cmd \<Rightarrow> lease_state \<Rightarrow> bool" where
  "establishes h ttl t (Grant h' ttl' t') s \<longleftrightarrow> h' = h \<and> ttl' = ttl \<and> t' = t \<and> fst (grant_at h ttl t s) = Inr ()"
| "establishes h ttl t (Renew h' ttl' t') s \<longleftrightarrow> h' = h \<and> ttl' = ttl \<and> t' = t \<and> fst (renew_at h ttl t s) = Inr ()"
| "establishes h ttl t _ s \<longleftrightarrow> False"

fun harmless :: "nat \<Rightarrow> nat \<Rightarrow> nat \<Rightarrow> lease_cmd \<Rightarrow> bool" where
  "harmless h ttl t (Grant _ _ _) \<longleftrightarrow> True"
| "harmless h ttl t (Renew h' _ _) \<longleftrightarrow> h' \<noteq> h"
| "harmless h ttl t (Tick u) \<longleftrightarrow> u - t < ttl"
| "harmless h ttl t _ \<longleftrightarrow> False"

abbreviation lease_run :: "lease_cmd list \<Rightarrow> lease_state" where
  "lease_run cs \<equiv> snd (run_commands lease_step cs lease_new)"

text \<open>Some operation of the trace is the given one and succeeds where it is issued.\<close>

definition lease_did :: "lease_cmd \<Rightarrow> lease_cmd list \<Rightarrow> bool" where
  "lease_did c cs \<longleftrightarrow> (\<exists>as bs. cs = as @ c # bs \<and> fst (lease_step c (lease_run as)) = Inr ())"

lemma lease_did_snoc:
  "lease_did c (cs @ [x]) \<longleftrightarrow> lease_did c cs \<or> (x = c \<and> fst (lease_step c (lease_run cs)) = Inr ())"
proof
  assume "lease_did c (cs @ [x])"
  then obtain as bs where "cs @ [x] = as @ c # bs" and "fst (lease_step c (lease_run as)) = Inr ()"
    by (auto simp: lease_did_def)
  then show "lease_did c cs \<or> (x = c \<and> fst (lease_step c (lease_run cs)) = Inr ())"
    by (cases bs rule: rev_cases) (auto simp: lease_did_def)
next
  assume "lease_did c cs \<or> (x = c \<and> fst (lease_step c (lease_run cs)) = Inr ())"
  then show "lease_did c (cs @ [x])"
    unfolding lease_did_def by (metis append.assoc append_Cons append_Nil)
qed

lemma lease_step_granted:
  "snd (lease_step c s) = Granted h ttl t \<longleftrightarrow>
     establishes h ttl t c s \<or> (s = Granted h ttl t \<and> harmless h ttl t c)"
  by (cases c; cases s; auto)

lemma lease_step_ended:
  "snd (lease_step c s) = Revoked \<longleftrightarrow> s = Revoked \<or> (c = Revoke \<and> fst (lease_step c s) = Inr ())"
  "snd (lease_step c s) = Fenced \<longleftrightarrow> s = Fenced \<or> (c = Fence \<and> fst (lease_step c s) = Inr ())"
  by (cases c; cases s; auto)+

lemma lease_step_idle:
  "snd (lease_step c s) = Idle \<longleftrightarrow>
     s = Idle \<and> \<not> (\<exists>h ttl t. c = Grant h ttl t \<and> fst (lease_step c s) = Inr ())"
  by (cases c; cases s; auto)

lemma lease_run_idle: "lease_run cs = Idle \<longleftrightarrow> (\<nexists>h ttl t. lease_did (Grant h ttl t) cs)"
  by (induction cs rule: rev_induct)
     (auto simp: lease_new_def lease_did_def [of _ "[]"] lease_did_snoc run_commands_snoc lease_step_idle)

lemma lease_run_ended:
  "lease_run cs = Revoked \<longleftrightarrow> lease_did Revoke cs"
  "lease_run cs = Fenced \<longleftrightarrow> lease_did Fence cs"
  by (induction cs rule: rev_induct)
     (auto simp: lease_new_def lease_did_def [of _ "[]"] lease_did_snoc run_commands_snoc lease_step_ended)

lemma lease_run_granted:
  "lease_run cs = Granted h ttl t \<longleftrightarrow>
     (\<exists>as c bs. cs = as @ c # bs \<and> establishes h ttl t c (lease_run as) \<and> (\<forall>b\<in>set bs. harmless h ttl t b))"
  (is "_ \<longleftrightarrow> ?R cs")
proof (induction cs rule: rev_induct)
  case Nil
  show ?case by (simp add: lease_new_def)
next
  case (snoc x cs)
  have "?R (cs @ [x]) \<longleftrightarrow> establishes h ttl t x (lease_run cs) \<or> (?R cs \<and> harmless h ttl t x)"
  proof
    assume "?R (cs @ [x])"
    then obtain as c bs where "cs @ [x] = as @ c # bs" "establishes h ttl t c (lease_run as)"
      "\<forall>b\<in>set bs. harmless h ttl t b" by blast
    then show "establishes h ttl t x (lease_run cs) \<or> (?R cs \<and> harmless h ttl t x)"
      by (cases bs rule: rev_cases) auto
  next
    assume "establishes h ttl t x (lease_run cs) \<or> (?R cs \<and> harmless h ttl t x)"
    then show "?R (cs @ [x])"
    proof
      assume "establishes h ttl t x (lease_run cs)"
      then show ?thesis by (intro exI [of _ cs] exI [of _ x] exI [of _ "[]"]) simp
    next
      assume *: "?R cs \<and> harmless h ttl t x"
      then obtain as c bs where "cs = as @ c # bs" "establishes h ttl t c (lease_run as)"
        "\<forall>b\<in>set bs. harmless h ttl t b" by blast
      with * show ?thesis by (intro exI [of _ as] exI [of _ c] exI [of _ "bs @ [x]"]) simp
    qed
  qed
  then show ?case by (simp only: run_commands_snoc lease_step_granted snoc.IH)
qed

lemma is_active_at_iff: "is_active_at now s \<longleftrightarrow> (\<exists>h ttl t. s = Granted h ttl t \<and> now - t < ttl)"
  by (cases s) auto

lemma lease_terminal_stuck:
  assumes "lease_is_terminal s"
  shows "snd (lease_step c s) = s" and "fst (lease_step c s) = Inr () \<Longrightarrow> \<exists>now. c = Tick now"
  using assms by (cases c; cases s; simp)+

section \<open>Traces\<close>

text \<open>The holders that the successful grants and renewals of a trace established.\<close>

fun established :: "lease_cmd list \<Rightarrow> (transition_error + unit) list \<Rightarrow> nat list" where
  "established (c # cs) (r # rs) =
     (case (c, r) of
        (Grant h _ _, Inr _) \<Rightarrow> [h]
      | (Renew h _ _, Inr _) \<Rightarrow> [h]
      | _ \<Rightarrow> []) @ established cs rs"
| "established _ _ = []"

abbreviation lease_trace :: "lease_cmd list \<Rightarrow> lease_state \<Rightarrow> nat list" where
  "lease_trace cs s \<equiv> established cs (fst (run_commands lease_step cs s))"

lemma lease_trace_Cons:
  "lease_trace (c # cs) s = established [c] [fst (lease_step c s)] @ lease_trace cs (snd (lease_step c s))"
  by (simp add: Let_def case_prod_beta)

lemma run_lease_Cons:
  "snd (run_commands lease_step (c # cs) s) = snd (run_commands lease_step cs (snd (lease_step c s)))"
  by (simp add: Let_def case_prod_beta)

lemma terminal_trace:
  "lease_is_terminal s \<Longrightarrow> lease_trace cs s = [] \<and> snd (run_commands lease_step cs s) = s"
proof (induction cs)
  case (Cons c cs)
  note stuck = lease_terminal_stuck [OF Cons.prems, of c]
  have "established [c] [fst (lease_step c s)] = []"
    using stuck(2) by (cases c; cases "fst (lease_step c s)"; force)
  with Cons.IH [OF Cons.prems] stuck(1) show ?case
    by (simp only: lease_trace_Cons run_lease_Cons append_Nil)
qed simp

lemma granted_trace: "set (lease_trace cs (Granted h ttl g)) \<subseteq> {h}"
proof (induction cs arbitrary: ttl g)
  case (Cons c cs)
  show ?case
  proof (cases "lease_is_terminal (snd (lease_step c (Granted h ttl g)))")
    case True
    then have "lease_trace (c # cs) (Granted h ttl g) = established [c] [fst (lease_step c (Granted h ttl g))]"
      using terminal_trace by (simp only: lease_trace_Cons append_Nil2)
    then show ?thesis by (cases c) (auto split: if_splits)
  next
    case False
    then obtain ttl' g' where "snd (lease_step c (Granted h ttl g)) = Granted h ttl' g'"
      by (cases c) (auto split: if_splits)
    moreover have "set (established [c] [fst (lease_step c (Granted h ttl g))]) \<subseteq> {h}"
      by (cases c) (auto split: if_splits)
    ultimately show ?thesis using Cons.IH by (auto simp only: lease_trace_Cons set_append)
  qed
qed simp

lemma idle_trace: "\<exists>h. set (lease_trace cs Idle) \<subseteq> {h}"
proof (induction cs)
  case (Cons c cs)
  show ?case
  proof (cases c)
    case (Grant h ttl now)
    have "set (lease_trace (c # cs) Idle) = {h} \<union> set (lease_trace cs (Granted h ttl now))"
      unfolding lease_trace_Cons by (simp add: Grant)
    then show ?thesis using granted_trace [of cs h ttl now] by blast
  next
    case (Renew h ttl now)
    with Cons.IH show ?thesis unfolding lease_trace_Cons by simp
  qed (use Cons.IH in \<open>simp_all add: lease_trace_Cons del: run_commands.simps\<close>)
qed simp

lemma granted_run:
  "is_active_at now (snd (run_commands lease_step cs (Granted h ttl g))) \<Longrightarrow>
     lease_holder (snd (run_commands lease_step cs (Granted h ttl g))) = h"
proof (induction cs arbitrary: ttl g)
  case (Cons c cs)
  let ?s = "snd (lease_step c (Granted h ttl g))"
  show ?case
  proof (cases "lease_is_terminal ?s")
    case True
    then have "snd (run_commands lease_step (c # cs) (Granted h ttl g)) = ?s"
      using terminal_trace by (simp only: run_lease_Cons)
    with Cons.prems True show ?thesis by (cases ?s) simp_all
  next
    case False
    then obtain ttl' g' where "?s = Granted h ttl' g'" by (cases c) (auto split: if_splits)
    with Cons show ?thesis by (simp only: run_lease_Cons)
  qed
qed simp

lemma idle_run:
  "is_active_at now (snd (run_commands lease_step cs Idle)) \<Longrightarrow>
     lease_holder (snd (run_commands lease_step cs Idle)) \<in> set (lease_trace cs Idle)"
proof (induction cs)
  case (Cons c cs)
  show ?case
  proof (cases c)
    case (Grant h ttl t)
    have "lease_holder (snd (run_commands lease_step (c # cs) Idle)) = h"
      using Cons.prems granted_run unfolding run_lease_Cons by (simp add: Grant)
    moreover have "h \<in> set (lease_trace (c # cs) Idle)" unfolding lease_trace_Cons by (simp add: Grant)
    ultimately show ?thesis by simp
  qed (use Cons in \<open>simp_all add: lease_trace_Cons run_lease_Cons del: run_commands.simps\<close>)
qed simp

section \<open>Properties\<close>

text \<open>
  C36. What a sequence of operations on a fresh lease makes of it. The lease is idle exactly when no
  grant succeeded, revoked exactly when some revoke succeeded, and fenced exactly when some fence succeeded. Holder \<open>h\<close> has the lease,
  active at time \<open>now\<close>, exactly when some grant or renewal for \<open>h\<close> succeeded, its term has not
  passed at \<open>now\<close>, and nothing after it was a revoke, a fence, a renewal by \<open>h\<close>, or a tick
  at which the term had passed.
\<close>

theorem lease_outcome:
  "(lease_run cs = Idle \<longleftrightarrow> (\<nexists>h ttl t. lease_did (Grant h ttl t) cs)) \<and>
   (lease_run cs = Revoked \<longleftrightarrow> lease_did Revoke cs) \<and>
   (lease_run cs = Fenced \<longleftrightarrow> lease_did Fence cs) \<and>
   (is_active_at now (lease_run cs) \<and> lease_holder (lease_run cs) = h \<longleftrightarrow>
     (\<exists>as c bs ttl t. cs = as @ c # bs \<and> establishes h ttl t c (lease_run as) \<and> now - t < ttl \<and>
        (\<forall>b\<in>set bs. harmless h ttl t b)))"
proof -
  have "is_active_at now (lease_run cs) \<and> lease_holder (lease_run cs) = h \<longleftrightarrow>
      (\<exists>ttl t. lease_run cs = Granted h ttl t \<and> now - t < ttl)"
    by (auto simp: is_active_at_iff)
  also have "\<dots> \<longleftrightarrow> (\<exists>as c bs ttl t. cs = as @ c # bs \<and> establishes h ttl t c (lease_run as) \<and> now - t < ttl \<and>
        (\<forall>b\<in>set bs. harmless h ttl t b))"
    unfolding lease_run_granted by blast
  finally show ?thesis by (simp add: lease_run_ended lease_run_idle)
qed

text \<open>
  C26. A lease has a single holder in its lifetime: over any sequence of operations on a fresh machine
  all successful grants and renewals are for the same holder, and whenever the lease is active at the
  end, it is that holder who holds it.
\<close>

theorem lease_single_holder:
  "\<exists>h. set (lease_trace cs lease_new) \<subseteq> {h} \<and>
     (is_active_at now (snd (run_commands lease_step cs lease_new)) \<longrightarrow>
        lease_holder (snd (run_commands lease_step cs lease_new)) = h)"
  using idle_trace [of cs] idle_run [of now cs] by (auto simp: lease_new_def)

theorem lease_single_holder_witness:
  "is_active_at 12 (snd (run_commands lease_step [Grant 3 10 0, Grant 4 9 1, Renew 3 5 8, Tick 9] lease_new)) \<and>
   lease_trace [Grant 3 10 0, Grant 4 9 1, Renew 3 5 8, Tick 9] lease_new = [3, 3] \<and>
   lease_holder (snd (run_commands lease_step [Grant 3 10 0, Grant 4 9 1, Renew 3 5 8, Tick 9] lease_new)) = 3"
proof -
  have "is_active_at 12 (snd (run_commands lease_step [Grant 3 10 0, Grant 4 9 1, Renew 3 5 8, Tick 9] lease_new))"
    and "lease_trace [Grant 3 10 0, Grant 4 9 1, Renew 3 5 8, Tick 9] lease_new = [3, 3]"
    by (simp_all add: lease_new_def)
  with lease_single_holder [of "[Grant 3 10 0, Grant 4 9 1, Renew 3 5 8, Tick 9]" 12] show ?thesis by auto
qed

theorem lease_outcome_witness:
  "\<exists>as c bs ttl t. [Grant 3 10 0, Grant 4 9 1, Renew 3 5 8, Renew 4 5 9, Tick 9] = as @ c # bs \<and>
     establishes 3 ttl t c (lease_run as) \<and> 12 - t < ttl \<and> (\<forall>b\<in>set bs. harmless 3 ttl t b)"
proof -
  let ?cs = "[Grant 3 10 0, Grant 4 9 1, Renew 3 5 8, Renew 4 5 9, Tick 9]"
  have "is_active_at 12 (lease_run ?cs) \<and> lease_holder (lease_run ?cs) = 3" by (simp add: lease_new_def)
  with lease_outcome [of ?cs 12 3] show ?thesis by (simp only: simp_thms)
qed

end
