(* ===== verification/Commit_Group.thy ===== *)
theory Commit_Group
  imports Tide_Prelude "HOL-Library.Word"
begin

text \<open>
  The two state machines of the commit\_group crate (\<open>state_machine.rs\<close>): the life cycle of a
  single commit group with its chain digest, and the multi-member group commit with durability
  acknowledgements, checkpoint and recovery. The BLAKE3 functions are parameters: \<open>derive_key\<close>
  of a context and key material, and \<open>keyed_hash\<close> of a key and the concatenated input. Rejection
  messages are the constructor that carries the operation and the state found.
\<close>

section \<open>The commit group life cycle\<close>

type_synonym bytes = "8 word list"

datatype commit_group_state = Open | Sealing | Sealed | Committing | Committed | Applied | Aborted

fun cgs_is_applied :: "commit_group_state \<Rightarrow> bool" where
  "cgs_is_applied Applied = True"
| "cgs_is_applied _ = False"

fun cgs_is_terminal :: "commit_group_state \<Rightarrow> bool" where
  "cgs_is_terminal Committed = True"
| "cgs_is_terminal Applied = True"
| "cgs_is_terminal Aborted = True"
| "cgs_is_terminal _ = False"

fun cgs_accepts_writes :: "commit_group_state \<Rightarrow> bool" where
  "cgs_accepts_writes Open = True"
| "cgs_accepts_writes _ = False"

datatype 's commit_group_error =
    CommitPhaseRejected string 's
  | NotAMember nat nat
  | EmptyCommitGroup

record commit_group =
  cg_state :: commit_group_state
  cg_txg_id :: nat
  cg_chain_digest :: bytes

type_synonym 'a cg_result = "(commit_group_state commit_group_error + 'a) \<times> commit_group"

definition zero_digest :: bytes where
  "zero_digest = replicate 32 0"

definition commit_group_new :: "nat \<Rightarrow> bytes \<Rightarrow> commit_group" where
  "commit_group_new txg prior = \<lparr>cg_state = Open, cg_txg_id = txg, cg_chain_digest = prior\<rparr>"

definition cg_open :: "commit_group \<Rightarrow> unit cg_result" where
  "cg_open g =
     (case cg_state g of
        Aborted \<Rightarrow> (Inr (), g\<lparr>cg_state := Open, cg_chain_digest := zero_digest\<rparr>)
      | Open \<Rightarrow> (Inr (), g\<lparr>cg_state := Open, cg_chain_digest := zero_digest\<rparr>)
      | s \<Rightarrow> (Inl (CommitPhaseRejected ''open'' s), g))"

definition require_state ::
    "commit_group_state \<Rightarrow> string \<Rightarrow> commit_group \<Rightarrow> commit_group_state commit_group_error + unit" where
  "require_state expected op g =
     (if cg_state g \<noteq> expected then Inl (CommitPhaseRejected op (cg_state g)) else Inr ())"

definition cg_seal :: "commit_group \<Rightarrow> unit cg_result" where
  "cg_seal g =
     (case require_state Open ''seal'' g of
        Inl e \<Rightarrow> (Inl e, g)
      | Inr _ \<Rightarrow> (Inr (), g\<lparr>cg_state := Sealed\<rparr>))"

definition begin_commit :: "commit_group \<Rightarrow> unit cg_result" where
  "begin_commit g =
     (case require_state Sealed ''begin_commit'' g of
        Inl e \<Rightarrow> (Inl e, g)
      | Inr _ \<Rightarrow> (Inr (), g\<lparr>cg_state := Committing\<rparr>))"

definition chain_context :: string where
  "chain_context = ''TideFS CommitGroup Chain v1''"

definition chain_domain_discriminant :: "8 word" where
  "chain_domain_discriminant = 0x0B"

definition compute_chain_digest ::
    "(string \<Rightarrow> bytes \<Rightarrow> 'k) \<Rightarrow> ('k \<Rightarrow> bytes \<Rightarrow> bytes) \<Rightarrow> bytes \<Rightarrow> bytes \<Rightarrow> bytes" where
  "compute_chain_digest derive_key keyed_hash prior data =
     keyed_hash (derive_key chain_context [chain_domain_discriminant]) (prior @ data)"

definition complete_commit ::
    "(string \<Rightarrow> bytes \<Rightarrow> 'k) \<Rightarrow> ('k \<Rightarrow> bytes \<Rightarrow> bytes) \<Rightarrow> bytes \<Rightarrow> commit_group \<Rightarrow> unit cg_result" where
  "complete_commit derive_key keyed_hash data g =
     (case require_state Committing ''complete_commit'' g of
        Inl e \<Rightarrow> (Inl e, g)
      | Inr _ \<Rightarrow>
          (Inr (), g\<lparr>cg_chain_digest := compute_chain_digest derive_key keyed_hash (cg_chain_digest g) data,
                     cg_state := Committed\<rparr>))"

definition cg_apply :: "commit_group \<Rightarrow> unit cg_result" where
  "cg_apply g =
     (case require_state Committed ''apply'' g of
        Inl e \<Rightarrow> (Inl e, g)
      | Inr _ \<Rightarrow> (Inr (), g\<lparr>cg_state := Applied\<rparr>))"

definition cg_abort :: "commit_group \<Rightarrow> unit cg_result" where
  "cg_abort g =
     (case cg_state g of
        Committed \<Rightarrow> (Inl (CommitPhaseRejected ''abort'' Committed), g)
      | Applied \<Rightarrow> (Inl (CommitPhaseRejected ''abort'' Applied), g)
      | Aborted \<Rightarrow> (Inr (), g)
      | _ \<Rightarrow> (Inr (), g\<lparr>cg_state := Aborted\<rparr>))"

datatype cg_cmd = CgOpen | CgSeal | CgBegin | CgComplete bytes | CgApply | CgAbort

fun cg_step :: "(string \<Rightarrow> bytes \<Rightarrow> 'k) \<Rightarrow> ('k \<Rightarrow> bytes \<Rightarrow> bytes) \<Rightarrow> cg_cmd \<Rightarrow> commit_group \<Rightarrow> unit cg_result" where
  "cg_step dk kh CgOpen g = cg_open g"
| "cg_step dk kh CgSeal g = cg_seal g"
| "cg_step dk kh CgBegin g = begin_commit g"
| "cg_step dk kh (CgComplete data) g = complete_commit dk kh data g"
| "cg_step dk kh CgApply g = cg_apply g"
| "cg_step dk kh CgAbort g = cg_abort g"

section \<open>The multi-member group commit\<close>

datatype group_commit_state = GroupOpen | GroupCommitting | GroupCommitted | GroupCheckpoint

fun gcs_is_terminal :: "group_commit_state \<Rightarrow> bool" where
  "gcs_is_terminal GroupCheckpoint = True"
| "gcs_is_terminal _ = False"

fun gcs_accepts_writes :: "group_commit_state \<Rightarrow> bool" where
  "gcs_accepts_writes GroupOpen = True"
| "gcs_accepts_writes _ = False"

fun gcs_accepts_acks :: "group_commit_state \<Rightarrow> bool" where
  "gcs_accepts_acks GroupCommitting = True"
| "gcs_accepts_acks _ = False"

record group_commit =
  gc_txg_id :: nat
  gc_state :: group_commit_state
  member_ids :: "nat list"
  durability_acks :: "nat list"

type_synonym gc_result = "(group_commit_state commit_group_error + unit) \<times> group_commit"

definition group_commit_new :: "nat \<Rightarrow> nat list \<Rightarrow> group_commit" where
  "group_commit_new txg members =
     \<lparr>gc_txg_id = txg, gc_state = GroupOpen, member_ids = members, durability_acks = []\<rparr>"

definition unacked_members :: "group_commit \<Rightarrow> nat list" where
  "unacked_members g = filter (\<lambda>m. \<not> List.member (durability_acks g) m) (member_ids g)"

definition all_members_acked :: "group_commit \<Rightarrow> bool" where
  "all_members_acked g \<longleftrightarrow> length (durability_acks g) = length (member_ids g)"

definition has_member_acked :: "group_commit \<Rightarrow> nat \<Rightarrow> bool" where
  "has_member_acked g m \<longleftrightarrow> List.member (durability_acks g) m"

definition gc_require_state ::
    "group_commit_state \<Rightarrow> string \<Rightarrow> group_commit \<Rightarrow> group_commit_state commit_group_error + unit" where
  "gc_require_state expected op g =
     (if gc_state g \<noteq> expected then Inl (CommitPhaseRejected op (gc_state g)) else Inr ())"

text \<open>
  The member list is ascending; \<open>binary_search\<close> finds a present member, and otherwise gives
  the position after the smaller ones.
\<close>

definition add_member :: "nat \<Rightarrow> group_commit \<Rightarrow> gc_result" where
  "add_member m g =
     (case gc_require_state GroupOpen ''add_member'' g of
        Inl e \<Rightarrow> (Inl e, g)
      | Inr _ \<Rightarrow>
          if List.member (member_ids g) m then (Inr (), g)
          else (Inr (), g\<lparr>member_ids := takeWhile (\<lambda>x. x < m) (member_ids g) @ m #
                                          dropWhile (\<lambda>x. x < m) (member_ids g)\<rparr>))"

definition remove_member :: "nat \<Rightarrow> group_commit \<Rightarrow> gc_result" where
  "remove_member m g =
     (case gc_require_state GroupOpen ''remove_member'' g of
        Inl e \<Rightarrow> (Inl e, g)
      | Inr _ \<Rightarrow> (Inr (), g\<lparr>member_ids := filter (\<lambda>x. x \<noteq> m) (member_ids g)\<rparr>))"

definition gc_close :: "group_commit \<Rightarrow> gc_result" where
  "gc_close g =
     (case gc_require_state GroupOpen ''close'' g of
        Inl e \<Rightarrow> (Inl e, g)
      | Inr _ \<Rightarrow> if member_ids g = [] then (Inl EmptyCommitGroup, g) else (Inr (), g\<lparr>gc_state := GroupCommitting\<rparr>))"

definition acknowledge_durability :: "nat \<Rightarrow> group_commit \<Rightarrow> gc_result" where
  "acknowledge_durability m g =
     (case gc_require_state GroupCommitting ''acknowledge_durability'' g of
        Inl e \<Rightarrow> (Inl e, g)
      | Inr _ \<Rightarrow>
          if \<not> List.member (member_ids g) m then (Inl (NotAMember m (gc_txg_id g)), g)
          else let g' = (if \<not> List.member (durability_acks g) m
                         then g\<lparr>durability_acks := durability_acks g @ [m]\<rparr> else g)
               in (Inr (), if all_members_acked g' then g'\<lparr>gc_state := GroupCommitted\<rparr> else g'))"

definition write_checkpoint :: "group_commit \<Rightarrow> gc_result" where
  "write_checkpoint g =
     (case gc_require_state GroupCommitted ''write_checkpoint'' g of
        Inl e \<Rightarrow> (Inl e, g)
      | Inr _ \<Rightarrow> (Inr (), g\<lparr>gc_state := GroupCheckpoint\<rparr>))"

definition recover :: "nat \<Rightarrow> nat list \<Rightarrow> nat option \<Rightarrow> group_commit" where
  "recover txg members last_checkpoint =
     \<lparr>gc_txg_id = txg,
      gc_state = (case last_checkpoint of
                    Some checkpoint \<Rightarrow> if txg \<le> checkpoint then GroupCheckpoint else GroupOpen
                  | None \<Rightarrow> GroupOpen),
      member_ids = members, durability_acks = []\<rparr>"

definition needs_replay :: "group_commit \<Rightarrow> nat option \<Rightarrow> bool" where
  "needs_replay g last_checkpoint =
     (case last_checkpoint of Some checkpoint \<Rightarrow> gc_txg_id g > checkpoint | None \<Rightarrow> True)"

definition determine_replay_txgs :: "nat list \<Rightarrow> nat option \<Rightarrow> nat list" where
  "determine_replay_txgs known last_checkpoint =
     (case last_checkpoint of Some checkpoint \<Rightarrow> filter (\<lambda>t. t > checkpoint) known | None \<Rightarrow> known)"

datatype gc_cmd = AddMember nat | RemoveMember nat | Close | Acknowledge nat | WriteCheckpoint

fun gc_step :: "gc_cmd \<Rightarrow> group_commit \<Rightarrow> gc_result" where
  "gc_step (AddMember m) g = add_member m g"
| "gc_step (RemoveMember m) g = remove_member m g"
| "gc_step Close g = gc_close g"
| "gc_step (Acknowledge m) g = acknowledge_durability m g"
| "gc_step WriteCheckpoint g = write_checkpoint g"

section \<open>The life cycle\<close>

lemmas cg_defs = cg_open_def cg_seal_def begin_commit_def complete_commit_def cg_apply_def cg_abort_def
  require_state_def

text \<open>The commands of a run that succeed, the state that a command leads to, and the digest on which
  a group that is reopened at all is sealed.\<close>

fun cg_successes ::
    "(string \<Rightarrow> bytes \<Rightarrow> 'k) \<Rightarrow> ('k \<Rightarrow> bytes \<Rightarrow> bytes) \<Rightarrow> cg_cmd list \<Rightarrow> commit_group \<Rightarrow> cg_cmd list" where
  "cg_successes dk kh [] g = []"
| "cg_successes dk kh (c # cs) g =
     (if fst (cg_step dk kh c g) = Inr () then [c] else []) @ cg_successes dk kh cs (snd (cg_step dk kh c g))"

fun cg_target :: "cg_cmd \<Rightarrow> commit_group_state" where
  "cg_target CgOpen = Open"
| "cg_target CgSeal = Sealed"
| "cg_target CgBegin = Committing"
| "cg_target (CgComplete _) = Committed"
| "cg_target CgApply = Applied"
| "cg_target CgAbort = Aborted"

definition sealed_on :: "bytes \<Rightarrow> cg_cmd list \<Rightarrow> bytes \<Rightarrow> bool" where
  "sealed_on prior pre d \<longleftrightarrow> (pre = [] \<or> last pre = CgOpen) \<and> d = (if pre = [] then prior else zero_digest)"

lemma cg_successes_snoc:
  "cg_successes dk kh (cs @ [c]) g = cg_successes dk kh cs g @
     (if fst (cg_step dk kh c (snd (run_commands (cg_step dk kh) cs g))) = Inr () then [c] else [])"
  by (induction cs arbitrary: g) (simp_all add: Let_def case_prod_beta)

lemma cg_rejected_unchanged:
  "fst (cg_step dk kh c g) \<noteq> Inr () \<Longrightarrow> snd (cg_step dk kh c g) = g"
  by (cases c; cases "cg_state g"; simp add: cg_defs)

lemma cg_success_target:
  "fst (cg_step dk kh c g) = Inr () \<Longrightarrow> cg_state (snd (cg_step dk kh c g)) = cg_target c"
  by (cases c; cases "cg_state g"; simp add: cg_defs)

text \<open>What the successful commands were, by the state that the group is in.\<close>

definition cg_past ::
    "(string \<Rightarrow> bytes \<Rightarrow> 'k) \<Rightarrow> ('k \<Rightarrow> bytes \<Rightarrow> bytes) \<Rightarrow> bytes \<Rightarrow> cg_cmd list \<Rightarrow> commit_group \<Rightarrow> bool" where
  "cg_past dk kh prior succ g \<longleftrightarrow>
     (case cg_state g of
        Open \<Rightarrow> sealed_on prior succ (cg_chain_digest g)
      | Sealing \<Rightarrow> False
      | Sealed \<Rightarrow> \<exists>pre. succ = pre @ [CgSeal] \<and> sealed_on prior pre (cg_chain_digest g)
      | Committing \<Rightarrow> \<exists>pre. succ = pre @ [CgSeal, CgBegin] \<and> sealed_on prior pre (cg_chain_digest g)
      | Committed \<Rightarrow> \<exists>pre data d. succ = pre @ [CgSeal, CgBegin, CgComplete data] \<and> sealed_on prior pre d \<and>
          cg_chain_digest g = compute_chain_digest dk kh d data
      | Applied \<Rightarrow> \<exists>pre data d. succ = pre @ [CgSeal, CgBegin, CgComplete data, CgApply] \<and>
          sealed_on prior pre d \<and> cg_chain_digest g = compute_chain_digest dk kh d data
      | Aborted \<Rightarrow> True)"

lemma cg_past_step:
  assumes "cg_past dk kh prior succ g" and "fst (cg_step dk kh c g) = Inr ()"
  shows "cg_past dk kh prior (succ @ [c]) (snd (cg_step dk kh c g))"
proof (cases c)
  case CgOpen
  with assms show ?thesis by (cases "cg_state g") (auto simp: cg_past_def cg_defs sealed_on_def)
next
  case CgAbort
  with assms show ?thesis by (cases "cg_state g") (auto simp: cg_past_def cg_defs)
qed (use assms in \<open>cases "cg_state g"; fastforce simp: cg_past_def cg_defs\<close>)+

lemma cg_past_run:
  "cg_past dk kh prior (cg_successes dk kh cs (commit_group_new txg prior))
     (snd (run_commands (cg_step dk kh) cs (commit_group_new txg prior)))"
proof (induction cs rule: rev_induct)
  case Nil
  show ?case by (simp add: cg_past_def sealed_on_def commit_group_new_def)
next
  case (snoc c cs)
  show ?case
    using cg_past_step [OF snoc, of c] snoc
    by (simp add: cg_successes_snoc run_commands_snoc cg_rejected_unchanged)
qed

lemma cg_state_run:
  "cg_state (snd (run_commands (cg_step dk kh) cs g)) =
     (if cg_successes dk kh cs g = [] then cg_state g else cg_target (last (cg_successes dk kh cs g)))"
proof (induction cs rule: rev_induct)
  case (snoc c cs)
  then show ?case
    by (simp add: cg_successes_snoc run_commands_snoc cg_success_target cg_rejected_unchanged)
qed simp

text \<open>A committed group is never lost: from then on only \<open>apply\<close> succeeds.\<close>

lemma committed_stays:
  assumes "cg_state g \<in> {Committed, Applied}"
  shows "cg_state (snd (cg_step dk kh c g)) \<in> {Committed, Applied} \<and>
    cg_chain_digest (snd (cg_step dk kh c g)) = cg_chain_digest g"
  using assms by (cases c) (auto simp: cg_defs)

interpretation committed_group: guarded_machine "cg_step dk kh"
  "\<lambda>g. cg_state g \<in> {Committed, Applied} \<and> cg_chain_digest g = d" for dk kh d
  by unfold_locales (use committed_stays in blast)

section \<open>The commit chain\<close>

text \<open>
  A history of commits: each group is opened on the digest of its predecessor and driven through
  seal, begin and complete.
\<close>

definition commit_one ::
    "(string \<Rightarrow> bytes \<Rightarrow> 'k) \<Rightarrow> ('k \<Rightarrow> bytes \<Rightarrow> bytes) \<Rightarrow> nat \<Rightarrow> bytes \<Rightarrow> bytes \<Rightarrow> commit_group" where
  "commit_one dk kh txg prior data =
     snd (run_commands (cg_step dk kh) [CgSeal, CgBegin, CgComplete data] (commit_group_new txg prior))"

fun commit_history ::
    "(string \<Rightarrow> bytes \<Rightarrow> 'k) \<Rightarrow> ('k \<Rightarrow> bytes \<Rightarrow> bytes) \<Rightarrow> nat \<Rightarrow> bytes \<Rightarrow> bytes list \<Rightarrow> bytes" where
  "commit_history dk kh txg prior [] = prior"
| "commit_history dk kh txg prior (data # ds) =
     commit_history dk kh (Suc txg) (cg_chain_digest (commit_one dk kh txg prior data)) ds"

lemma commit_one_eq:
  "commit_one dk kh txg prior data =
     \<lparr>cg_state = Committed, cg_txg_id = txg, cg_chain_digest = compute_chain_digest dk kh prior data\<rparr>"
  by (simp add: commit_one_def commit_group_new_def cg_defs Let_def)

fun chain_inputs ::
    "(string \<Rightarrow> bytes \<Rightarrow> 'k) \<Rightarrow> ('k \<Rightarrow> bytes \<Rightarrow> bytes) \<Rightarrow> bytes \<Rightarrow> bytes list \<Rightarrow> bytes set" where
  "chain_inputs dk kh prior [] = {}"
| "chain_inputs dk kh prior (data # ds) =
     insert (prior @ data) (chain_inputs dk kh (compute_chain_digest dk kh prior data) ds)"

lemma commit_history_snoc:
  "commit_history dk kh txg prior (ds @ [d]) =
     compute_chain_digest dk kh (commit_history dk kh txg prior ds) d"
  by (induction ds arbitrary: txg prior) (simp_all add: commit_one_eq)

lemma chain_inputs_snoc:
  "chain_inputs dk kh prior (ds @ [d]) =
     insert (commit_history dk kh txg prior ds @ d) (chain_inputs dk kh prior ds)"
  by (induction ds arbitrary: txg prior) (auto simp: commit_one_eq)

lemma commit_history_length:
  assumes "\<And>k x. length (kh k x) = 32" and "length prior = 32"
  shows "length (commit_history dk kh txg prior ds) = 32"
  using assms by (cases ds rule: rev_cases) (simp_all add: commit_history_snoc compute_chain_digest_def)

lemma history_is_hash:
  "ds \<noteq> [] \<Longrightarrow> commit_history dk kh txg prior ds \<in>
     kh (dk chain_context [chain_domain_discriminant]) ` chain_inputs dk kh prior ds"
  by (cases ds rule: rev_cases)
     (auto simp: commit_history_snoc chain_inputs_snoc [where txg = txg] compute_chain_digest_def)

lemma histories_equal:
  assumes len: "\<And>k x. length (kh k x) = 32" "length prior = 32"
  shows "inj_on (kh (dk chain_context [chain_domain_discriminant]))
      (chain_inputs dk kh prior ds \<union> chain_inputs dk kh prior es) \<Longrightarrow>
    prior \<notin> kh (dk chain_context [chain_domain_discriminant]) `
      (chain_inputs dk kh prior ds \<union> chain_inputs dk kh prior es) \<Longrightarrow>
    commit_history dk kh txg prior ds = commit_history dk kh txg prior es \<Longrightarrow> ds = es"
proof (induction ds arbitrary: es rule: rev_induct)
  case Nil
  then show ?case using history_is_hash [of es dk kh txg prior] by (cases "es = []") auto
next
  case (snoc d ds)
  let ?k = "dk chain_context [chain_domain_discriminant]"
  have "commit_history dk kh txg prior (ds @ [d]) \<noteq> prior"
    using history_is_hash [of "ds @ [d]" dk kh txg prior] snoc.prems(2) by auto
  with snoc.prems(3) have "es \<noteq> []" by auto
  then obtain es' e where es: "es = es' @ [e]" by (cases es rule: rev_cases) auto
  let ?p = "commit_history dk kh txg prior ds" and ?q = "commit_history dk kh txg prior es'"
  have sub: "chain_inputs dk kh prior ds \<union> chain_inputs dk kh prior es' \<subseteq>
      chain_inputs dk kh prior (ds @ [d]) \<union> chain_inputs dk kh prior es"
    by (auto simp: es chain_inputs_snoc [where txg = txg])
  have "kh ?k (?p @ d) = kh ?k (?q @ e)"
    using snoc.prems(3) by (simp add: es commit_history_snoc compute_chain_digest_def)
  then have "?p @ d = ?q @ e"
    by (rule inj_onD [OF snoc.prems(1)]) (auto simp: es chain_inputs_snoc [where txg = txg])
  moreover have "length ?p = length ?q" by (simp add: commit_history_length [OF len])
  ultimately have "?p = ?q" and "d = e" by auto
  moreover have "ds = es'"
    by (rule snoc.IH [OF inj_on_subset [OF snoc.prems(1) sub] _ \<open>?p = ?q\<close>]) (use snoc.prems(2) sub in blast)
  ultimately show ?case by (simp add: es)
qed

section \<open>Group commit invariant\<close>

definition gc_inv :: "group_commit \<Rightarrow> bool" where
  "gc_inv g \<longleftrightarrow> bset (member_ids g) \<and> distinct (durability_acks g) \<and>
     set (durability_acks g) \<subseteq> set (member_ids g) \<and>
     (gc_state g = GroupOpen \<longrightarrow> durability_acks g = []) \<and>
     (gc_state g = GroupCommitting \<longrightarrow> set (durability_acks g) \<noteq> set (member_ids g)) \<and>
     (gc_state g \<in> {GroupCommitted, GroupCheckpoint} \<longrightarrow> set (durability_acks g) = set (member_ids g))"

lemma insert_member_bset:
  "bset xs \<Longrightarrow> m \<notin> set xs \<Longrightarrow> takeWhile (\<lambda>x. x < m) xs @ m # dropWhile (\<lambda>x. x < m) xs = bset_insert m xs"
  by (induction xs) auto

lemma all_acked_iff:
  assumes "distinct (durability_acks g)" and "distinct (member_ids g)"
    and "set (durability_acks g) \<subseteq> set (member_ids g)"
  shows "all_members_acked g \<longleftrightarrow> set (durability_acks g) = set (member_ids g)"
  using assms card_subset_eq [of "set (member_ids g)" "set (durability_acks g)"]
  by (auto simp: all_members_acked_def simp flip: distinct_card)

lemma gc_step_inv:
  assumes "gc_inv g"
  shows "gc_inv (snd (gc_step c g))"
proof (cases c)
  case (AddMember m)
  with assms show ?thesis
    by (auto simp: gc_inv_def add_member_def gc_require_state_def insert_member_bset)
next
  case (RemoveMember m)
  with assms show ?thesis
    by (auto simp: gc_inv_def remove_member_def gc_require_state_def sorted_wrt_filter)
next
  case Close
  with assms show ?thesis by (auto simp: gc_inv_def gc_close_def gc_require_state_def)
next
  case (Acknowledge m)
  have "distinct (member_ids g)" using assms by (auto simp: gc_inv_def bset_distinct)
  with assms show ?thesis
    by (auto simp: Acknowledge gc_inv_def acknowledge_durability_def gc_require_state_def Let_def
        all_acked_iff)
next
  case WriteCheckpoint
  with assms show ?thesis by (auto simp: gc_inv_def write_checkpoint_def gc_require_state_def)
qed

interpretation group_commit_machine: guarded_machine gc_step gc_inv
  by unfold_locales (rule gc_step_inv)

lemma gc_inv_new: "bset members \<Longrightarrow> gc_inv (group_commit_new txg members)"
  by (simp add: gc_inv_def group_commit_new_def)

text \<open>Acknowledgements never leave the states after \<open>close\<close>, never change the members, and count.\<close>

lemma acknowledge_progress:
  fixes m :: nat
  assumes "gc_inv g" and "gc_state g \<in> {GroupCommitting, GroupCommitted}"
  defines "g' \<equiv> snd (gc_step (Acknowledge m) g)"
  shows "gc_state g' \<in> {GroupCommitting, GroupCommitted}" and "member_ids g' = member_ids g"
    and "set (durability_acks g) \<union> ({m} \<inter> set (member_ids g)) \<subseteq> set (durability_acks g')"
  using assms
  by (auto simp: g'_def acknowledge_durability_def gc_require_state_def Let_def gc_inv_def)

lemma acknowledge_all:
  "gc_inv g \<Longrightarrow> gc_state g \<in> {GroupCommitting, GroupCommitted} \<Longrightarrow>
     set (member_ids g) \<subseteq> set (durability_acks g) \<union> set ms \<Longrightarrow>
     gc_state (snd (run_commands gc_step (map Acknowledge ms) g)) = GroupCommitted"
proof (induction ms arbitrary: g)
  case Nil
  then show ?case by (auto simp: gc_inv_def)
next
  case (Cons m ms)
  let ?g = "snd (gc_step (Acknowledge m) g)"
  note p = acknowledge_progress [OF Cons.prems(1,2), of m]
  have "set (member_ids ?g) \<subseteq> set (durability_acks ?g) \<union> set ms"
    using p(2,3) Cons.prems(3) by auto
  from Cons.IH [OF gc_step_inv [OF Cons.prems(1)] p(1) this] show ?case
    by (simp add: Let_def case_prod_beta)
qed

section \<open>Properties\<close>

text \<open>
  C37. A commit goes through every phase, in order. After any sequence of operations on a new group,
  the state is the one that the last successful operation leads to, and a group that is committed or
  applied got there by seal, begin and complete as consecutive successes, with at most one apply
  after them; before the seal there was either no success at all, and then the chain digest is that
  of the given prior digest and the committed data, or a last successful open, which reset the prior
  digest to zero.
\<close>

theorem commit_group_phases:
  assumes "g = snd (run_commands (cg_step dk kh) cs (commit_group_new txg prior))"
    and "succ = cg_successes dk kh cs (commit_group_new txg prior)"
  shows "cg_state g = (if succ = [] then Open else cg_target (last succ)) \<and>
    (cg_state g \<in> {Committed, Applied} \<longrightarrow>
      (\<exists>pre data post. succ = pre @ [CgSeal, CgBegin, CgComplete data] @ post \<and>
         post = (if cg_state g = Applied then [CgApply] else []) \<and> (pre = [] \<or> last pre = CgOpen) \<and>
         cg_chain_digest g = compute_chain_digest dk kh (if pre = [] then prior else zero_digest) data))"
proof
  show "cg_state g = (if succ = [] then Open else cg_target (last succ))"
    unfolding assms by (simp add: cg_state_run commit_group_new_def)
  have past: "cg_past dk kh prior succ g" unfolding assms by (rule cg_past_run)
  have "\<exists>pre data d. succ = pre @ [CgSeal, CgBegin, CgComplete data] @ (if cg_state g = Applied then [CgApply] else []) \<and>
      sealed_on prior pre d \<and> cg_chain_digest g = compute_chain_digest dk kh d data"
    if "cg_state g \<in> {Committed, Applied}"
    using that past by (cases "cg_state g") (simp_all add: cg_past_def)
  then show "cg_state g \<in> {Committed, Applied} \<longrightarrow>
      (\<exists>pre data post. succ = pre @ [CgSeal, CgBegin, CgComplete data] @ post \<and>
         post = (if cg_state g = Applied then [CgApply] else []) \<and> (pre = [] \<or> last pre = CgOpen) \<and>
         cg_chain_digest g = compute_chain_digest dk kh (if pre = [] then prior else zero_digest) data)"
    unfolding sealed_on_def by blast
qed

text \<open>
  C31. A committed group is never lost: whatever operations follow, it stays committed or becomes
  applied, and its chain digest does not change.
\<close>

theorem committed_group_stays:
  assumes "cg_state g \<in> {Committed, Applied}"
  shows "cg_state (snd (run_commands (cg_step dk kh) cs g)) \<in> {Committed, Applied} \<and>
    cg_chain_digest (snd (run_commands (cg_step dk kh) cs g)) = cg_chain_digest g"
  using committed_group.run_inv [of g "cg_chain_digest g" dk kh cs] assms by blast

text \<open>
  C21. The commit chain is tamper evident: as long as the keyed hash returns 32 bytes, has no
  collision among the inputs that occur in the two histories and maps none of them to the digest that
  the chain starts from, two histories from the same start have the same final digest exactly when they
  committed the same data in the same order. In particular no commit can be changed, swapped, dropped
  or added unnoticed.
\<close>

theorem commit_chain_tamper_evident:
  assumes "\<And>k x. length (keyed_hash k x) = 32" and "length prior = 32"
    and "inj_on (keyed_hash (derive_key chain_context [chain_domain_discriminant]))
      (chain_inputs derive_key keyed_hash prior ds \<union> chain_inputs derive_key keyed_hash prior es)"
    and "prior \<notin> keyed_hash (derive_key chain_context [chain_domain_discriminant]) `
      (chain_inputs derive_key keyed_hash prior ds \<union> chain_inputs derive_key keyed_hash prior es)"
  shows "commit_history derive_key keyed_hash txg prior ds = commit_history derive_key keyed_hash txg prior es
    \<longleftrightarrow> ds = es"
  using histories_equal [where kh = keyed_hash and dk = derive_key and txg = txg, OF assms] by auto

text \<open>
  C15. Durability: over any sequence of operations on a new group with an ascending member list, the
  group is committed or checkpointed only when every member has acknowledged, and each member is
  counted once.
\<close>

theorem group_commit_durable:
  assumes "bset members" and "g = snd (run_commands gc_step cs (group_commit_new txg members))"
  shows "(gc_state g \<in> {GroupCommitted, GroupCheckpoint} \<longrightarrow>
      set (durability_acks g) = set (member_ids g) \<and> unacked_members g = []) \<and>
    distinct (durability_acks g) \<and> set (durability_acks g) \<subseteq> set (member_ids g)"
proof -
  have "gc_inv g" unfolding assms(2) by (rule group_commit_machine.run_inv [OF gc_inv_new [OF assms(1)]])
  then show ?thesis by (auto simp: gc_inv_def unacked_members_def)
qed

text \<open>
  C32. Progress: once the group is closed, acknowledgements from all members, in any order, repeated
  and mixed with those of strangers, bring it to the committed state.
\<close>

theorem group_commit_completes:
  assumes "gc_inv g" and "gc_state g = GroupCommitting" and "set (member_ids g) \<subseteq> set ms"
  shows "gc_state (snd (run_commands gc_step (map Acknowledge ms) g)) = GroupCommitted"
  using assms by (intro acknowledge_all) auto

text \<open>
  Recovery is consistent: the transaction groups selected for replay are exactly the known ones
  whose recovered machine is not already checkpointed, which are exactly those that report that they
  need replay.
\<close>

theorem replay_selection_agrees:
  "determine_replay_txgs known cp = filter (\<lambda>t. gc_state (recover t ms cp) \<noteq> GroupCheckpoint) known \<and>
   determine_replay_txgs known cp = filter (\<lambda>t. needs_replay (recover t ms cp) cp) known"
  by (cases cp) (auto simp: determine_replay_txgs_def recover_def needs_replay_def not_le intro: filter_cong)

section \<open>Witnesses\<close>

definition sample_hash :: "nat \<Rightarrow> bytes \<Rightarrow> bytes" where
  "sample_hash k x = take 32 (drop 32 x @ x @ replicate 32 0)"

theorem committed_group_stays_witness:
  "cg_state (commit_one (\<lambda>_ _. 0) sample_hash 1 zero_digest [7]) \<in> {Committed, Applied} \<and>
   cg_state (snd (run_commands (cg_step (\<lambda>_ _. 0) sample_hash) [CgAbort, CgOpen, CgApply, CgAbort]
     (commit_one (\<lambda>_ _. 0) sample_hash 1 zero_digest [7]))) \<in> {Committed, Applied}"
proof -
  have *: "cg_state (commit_one (\<lambda>_ _. 0) sample_hash 1 zero_digest [7]) \<in> {Committed, Applied}"
    by (simp add: commit_one_eq)
  from committed_group_stays [OF *] * show ?thesis by blast
qed

theorem commit_group_phases_witness:
  "\<exists>g succ. g = snd (run_commands (cg_step (\<lambda>_ _. 0) sample_hash)
       [CgBegin, CgSeal, CgAbort, CgOpen, CgSeal, CgOpen, CgBegin, CgComplete [7], CgAbort] (commit_group_new 1 [9])) \<and>
     succ = [CgSeal, CgAbort, CgOpen, CgSeal, CgBegin, CgComplete [7]] \<and> cg_state g = Committed \<and>
     (\<exists>pre data. succ = pre @ [CgSeal, CgBegin, CgComplete data] \<and> pre \<noteq> [] \<and>
        cg_chain_digest g = compute_chain_digest (\<lambda>_ _. 0) sample_hash zero_digest data)"
proof -
  let ?cs = "[CgBegin, CgSeal, CgAbort, CgOpen, CgSeal, CgOpen, CgBegin, CgComplete [7], CgAbort]"
  let ?g = "snd (run_commands (cg_step (\<lambda>_ _. 0) sample_hash) ?cs (commit_group_new 1 [9]))"
  let ?succ = "cg_successes (\<lambda>_ _. 0) sample_hash ?cs (commit_group_new 1 [9])"
  have succ: "?succ = [CgSeal, CgAbort, CgOpen, CgSeal, CgBegin, CgComplete [7]]"
    by (simp add: cg_defs commit_group_new_def)
  obtain g where g: "g = ?g" by simp
  note run = commit_group_phases [OF g refl, unfolded succ]
  then have st: "cg_state g = Committed" by simp
  with run obtain pre data where
    pre: "[CgSeal, CgAbort, CgOpen, CgSeal, CgBegin, CgComplete [7]] = pre @ [CgSeal, CgBegin, CgComplete data]" and
    d: "cg_chain_digest g = compute_chain_digest (\<lambda>_ _. 0) sample_hash (if pre = [] then [9] else zero_digest) data"
    by auto
  from pre have ne: "pre \<noteq> []" by auto
  with d have "cg_chain_digest g = compute_chain_digest (\<lambda>_ _. 0) sample_hash zero_digest data" by simp
  with g st pre ne show ?thesis by blast
qed

theorem commit_chain_tamper_evident_witness:
  "length (sample_hash 0 (zero_digest @ [7])) = 32 \<and>
   inj_on (sample_hash 0) (chain_inputs (\<lambda>_ _. 0) sample_hash zero_digest [[7]] \<union>
     chain_inputs (\<lambda>_ _. 0) sample_hash zero_digest [[7], [9]]) \<and>
   zero_digest \<notin> sample_hash 0 ` (chain_inputs (\<lambda>_ _. 0) sample_hash zero_digest [[7]] \<union>
     chain_inputs (\<lambda>_ _. 0) sample_hash zero_digest [[7], [9]]) \<and>
   commit_history (\<lambda>_ _. 0) sample_hash 1 zero_digest [[7]] \<noteq>
     commit_history (\<lambda>_ _. 0) sample_hash 1 zero_digest [[7], [9]]"
proof -
  have len: "length (sample_hash k x) = 32" for k x by (simp add: sample_hash_def)
  have a: "sample_hash 0 (zero_digest @ [7]) = 7 # replicate 31 0"
    and b: "sample_hash 0 (7 # replicate 31 0 @ [9]) = 9 # 7 # replicate 30 0"
    by (simp_all add: sample_hash_def zero_digest_def numeral_eq_Suc)
  have ins: "chain_inputs (\<lambda>_ _. 0) sample_hash zero_digest [[7]] \<union>
      chain_inputs (\<lambda>_ _. 0) sample_hash zero_digest [[7], [9]] =
      {zero_digest @ [7], 7 # replicate 31 0 @ [9]}"
    by (auto simp: compute_chain_digest_def a)
  have hd_zero: "zero_digest \<noteq> x # xs" if "x \<noteq> 0" for x xs
    using that by (auto simp: zero_digest_def numeral_eq_Suc)
  have inj: "inj_on (sample_hash 0) (chain_inputs (\<lambda>_ _. 0) sample_hash zero_digest [[7]] \<union>
      chain_inputs (\<lambda>_ _. 0) sample_hash zero_digest [[7], [9]])"
    unfolding ins by (simp add: inj_on_def a b)
  have pre: "zero_digest \<notin> sample_hash 0 ` (chain_inputs (\<lambda>_ _. 0) sample_hash zero_digest [[7]] \<union>
      chain_inputs (\<lambda>_ _. 0) sample_hash zero_digest [[7], [9]])"
    unfolding ins by (simp add: a b hd_zero)
  have "length zero_digest = 32" by (simp add: zero_digest_def)
  from commit_chain_tamper_evident [of sample_hash, OF len this inj pre, of 1] len inj pre show ?thesis by simp
qed

definition sample_group :: group_commit where
  "sample_group = snd (run_commands gc_step [AddMember 2, Close, Acknowledge 4, Acknowledge 1, Acknowledge 2]
     (group_commit_new 9 [1, 4]))"

theorem group_commit_durable_witness:
  "bset [1, 4 :: nat] \<and> gc_state sample_group = GroupCommitted \<and> set (durability_acks sample_group) = {1, 2, 4}"
proof -
  have r: "sample_group = \<lparr>gc_txg_id = 9, gc_state = GroupCommitted, member_ids = [1, 2, 4], durability_acks = [4, 1, 2]\<rparr>"
    by (simp add: sample_group_def group_commit_new_def add_member_def gc_close_def acknowledge_durability_def
        gc_require_state_def all_members_acked_def Let_def)
  have "gc_state sample_group = GroupCommitted" and "set (member_ids sample_group) = {1, 2, 4}"
    unfolding r by simp_all
  moreover have b: "bset [1, 4 :: nat]" by simp
  ultimately show ?thesis using group_commit_durable [OF b sample_group_def] by simp
qed

theorem group_commit_completes_witness:
  "\<exists>g. gc_inv g \<and> gc_state g = GroupCommitting \<and> set (member_ids g) \<subseteq> {3, 1, 5} \<and>
     gc_state (snd (run_commands gc_step (map Acknowledge [3, 1, 3, 5]) g)) = GroupCommitted"
proof -
  let ?g = "snd (gc_close (group_commit_new 9 [1, 3]))"
  have "gc_inv ?g" and "gc_state ?g = GroupCommitting" and "set (member_ids ?g) \<subseteq> set [3, 1, 3, 5]"
    by (auto simp: gc_inv_def group_commit_new_def gc_close_def gc_require_state_def)
  with group_commit_completes [OF this] show ?thesis by fastforce
qed

end
