(* ===== verification/Reserve_Record.thy ===== *)
theory Reserve_Record
  imports Le_Bytes
begin

text \<open>
  The persistent reserve-ledger record: 52 bytes holding a magic number, a version, the number of
  reserved segments and the segment capacity in little-endian order, followed by the BLAKE3 hash
  of these 20 bytes. The hash function is a parameter; of it only the length of its output is used.
\<close>

section \<open>Definitions\<close>

definition reserve_ledger_magic :: nat where
  "reserve_ledger_magic = 0x56424C44"

definition reserve_ledger_version :: nat where
  "reserve_ledger_version = 1"

definition reserve_ledger_record_size :: nat where
  "reserve_ledger_record_size = 4 + 4 + 4 + 8 + 32"

record reserve_ledger_record =
  reserved_count :: nat
  record_segment_capacity :: nat

definition reserve_record_new :: "nat \<Rightarrow> nat \<Rightarrow> reserve_ledger_record" where
  "reserve_record_new reserved capacity =
     \<lparr>reserved_count = reserved, record_segment_capacity = capacity\<rparr>"

definition reserve_record_header :: "reserve_ledger_record \<Rightarrow> byte list" where
  "reserve_record_header r =
     le_bytes 4 reserve_ledger_magic @ le_bytes 4 reserve_ledger_version
       @ le_bytes 4 (reserved_count r) @ le_bytes 8 (record_segment_capacity r)"

definition reserve_record_encode :: "(byte list \<Rightarrow> byte list) \<Rightarrow> reserve_ledger_record \<Rightarrow> byte list" where
  "reserve_record_encode blake3 r = reserve_record_header r @ blake3 (reserve_record_header r)"

definition reserve_record_decode ::
    "(byte list \<Rightarrow> byte list) \<Rightarrow> byte list \<Rightarrow> reserve_ledger_record option" where
  "reserve_record_decode blake3 buf =
     (if length buf < reserve_ledger_record_size then None
      else if le_nat (slice 0 4 buf) \<noteq> reserve_ledger_magic then None
      else if le_nat (slice 4 8 buf) \<noteq> reserve_ledger_version then None
      else if slice 20 52 buf \<noteq> blake3 (slice 0 20 buf) then None
      else Some \<lparr>reserved_count = le_nat (slice 8 12 buf),
                 record_segment_capacity = le_nat (slice 12 20 buf)\<rparr>)"

definition stored_hash :: "(byte list \<Rightarrow> byte list) \<Rightarrow> reserve_ledger_record \<Rightarrow> byte list" where
  "stored_hash blake3 r = slice 20 52 (reserve_record_encode blake3 r)"

definition reserve_record_verify :: "(byte list \<Rightarrow> byte list) \<Rightarrow> reserve_ledger_record \<Rightarrow> bool" where
  "reserve_record_verify blake3 r =
     (blake3 (slice 0 20 (reserve_record_encode blake3 r)) = slice 20 52 (reserve_record_encode blake3 r))"

section \<open>Reading back what was written\<close>

text \<open>The fields are a \<open>u32\<close> and a \<open>u64\<close>, and the hash has 32 bytes.\<close>

definition record_in_range :: "reserve_ledger_record \<Rightarrow> bool" where
  "record_in_range r \<longleftrightarrow> reserved_count r < 256 ^ 4 \<and> record_segment_capacity r < 256 ^ 8"

definition writable_record :: "(byte list \<Rightarrow> byte list) \<Rightarrow> reserve_ledger_record \<Rightarrow> bool" where
  "writable_record blake3 r \<longleftrightarrow> record_in_range r \<and> length (blake3 (reserve_record_header r)) = 32"

lemma length_reserve_record_header [simp]: "length (reserve_record_header r) = 20"
  by (simp add: reserve_record_header_def)

lemma reserve_record_header_slices:
  "slice 0 4 (reserve_record_header r @ xs) = le_bytes 4 reserve_ledger_magic"
  "slice 4 8 (reserve_record_header r @ xs) = le_bytes 4 reserve_ledger_version"
  "slice 8 12 (reserve_record_header r @ xs) = le_bytes 4 (reserved_count r)"
  "slice 12 20 (reserve_record_header r @ xs) = le_bytes 8 (record_segment_capacity r)"
  "slice 0 20 (reserve_record_header r @ xs) = reserve_record_header r"
  by (simp_all add: reserve_record_header_def slice_def)

lemma reserve_record_hash_slice:
  "length h = 32 \<Longrightarrow> slice 20 52 ((reserve_record_header r @ h) @ xs) = h"
  by (simp add: slice_def)

interpretation reserve_codec: record_codec "reserve_record_encode h" "reserve_record_decode h" "writable_record h"
  for h
proof
  fix r rest
  assume "writable_record h r"
  then have "reserved_count r < 256 ^ 4" "record_segment_capacity r < 256 ^ 8"
    and len: "length (h (reserve_record_header r)) = 32"
    by (simp_all only: writable_record_def record_in_range_def)
  moreover have "reserve_ledger_magic < 256 ^ 4" "reserve_ledger_version < 256 ^ 4"
    by (simp_all add: reserve_ledger_magic_def reserve_ledger_version_def)
  moreover have "slice 20 52 (reserve_record_header r @ h (reserve_record_header r) @ rest)
      = h (reserve_record_header r)"
    using reserve_record_hash_slice [OF len, of r rest] by simp
  ultimately show "reserve_record_decode h (reserve_record_encode h r @ rest) = Some r"
    by (simp add: reserve_record_decode_def reserve_record_encode_def reserve_ledger_record_size_def
        reserve_record_header_slices del: power_numeral)
qed

lemma decode_le_slices:
  assumes "b \<le> length buf" and "b - a = k" and "le_nat (slice a b buf) = n"
  shows "slice a b buf = le_bytes k n"
  using assms le_bytes_le_nat [of "slice a b buf"] by simp

lemma reserve_record_decode_header:
  assumes "reserve_record_decode h buf = Some r"
  shows "slice 0 20 buf = reserve_record_header r" and "slice 20 52 buf = h (slice 0 20 buf)"
    and "52 \<le> length buf" and "record_in_range r"
proof -
  have len: "52 \<le> length buf"
    and m: "le_nat (slice 0 4 buf) = reserve_ledger_magic"
    and v: "le_nat (slice 4 8 buf) = reserve_ledger_version"
    and h: "slice 20 52 buf = h (slice 0 20 buf)"
    and c: "le_nat (slice 8 12 buf) = reserved_count r"
    and s: "le_nat (slice 12 20 buf) = record_segment_capacity r"
    using assms by (auto simp: reserve_record_decode_def reserve_ledger_record_size_def split: if_splits)
  have "slice 0 20 buf = slice 0 4 buf @ slice 4 8 buf @ slice 8 12 buf @ slice 12 20 buf"
    using slice_split [of 0 4 20 buf] slice_split [of 4 8 20 buf] slice_split [of 8 12 20 buf] by simp
  moreover have "slice 0 4 buf = le_bytes 4 reserve_ledger_magic"
    by (rule decode_le_slices [OF _ _ m]) (use len in simp_all)
  moreover have "slice 4 8 buf = le_bytes 4 reserve_ledger_version"
    by (rule decode_le_slices [OF _ _ v]) (use len in simp_all)
  moreover have "slice 8 12 buf = le_bytes 4 (reserved_count r)"
    by (rule decode_le_slices [OF _ _ c]) (use len in simp_all)
  moreover have "slice 12 20 buf = le_bytes 8 (record_segment_capacity r)"
    by (rule decode_le_slices [OF _ _ s]) (use len in simp_all)
  ultimately show "slice 0 20 buf = reserve_record_header r"
    by (simp only: reserve_record_header_def)
  show "slice 20 52 buf = h (slice 0 20 buf)" "52 \<le> length buf" by fact+
  show "record_in_range r"
    using le_nat_less [of "slice 8 12 buf"] le_nat_less [of "slice 12 20 buf"] len
    by (simp add: record_in_range_def c s)
qed

text \<open>
  C30. Decoding characterises the format exactly: a buffer is read as a record if and only if it
  starts with the encoding of that record, whose fields fit their widths. So every record written
  is read back, also from a longer buffer, and no other bytes are accepted for it.
\<close>

theorem reserve_record_decode_iff:
  assumes "\<forall>xs. length (blake3 xs) = 32"
  shows "reserve_record_decode blake3 buf = Some r \<longleftrightarrow>
    record_in_range r \<and> (\<exists>rest. buf = reserve_record_encode blake3 r @ rest)"
proof (intro iffI conjI)
  assume d: "reserve_record_decode blake3 buf = Some r"
  show "record_in_range r" by (rule reserve_record_decode_header [OF d])
  have "slice 0 52 buf = slice 0 20 buf @ slice 20 52 buf" by (rule slice_split) simp_all
  also have "\<dots> = reserve_record_encode blake3 r"
    using reserve_record_decode_header(1,2) [OF d] by (simp add: reserve_record_encode_def)
  finally have "buf = reserve_record_encode blake3 r @ drop 52 buf"
    by (metis append_take_drop_id diff_zero drop0 slice_def)
  then show "\<exists>rest. buf = reserve_record_encode blake3 r @ rest" ..
next
  assume "record_in_range r \<and> (\<exists>rest. buf = reserve_record_encode blake3 r @ rest)"
  then obtain rest where "writable_record blake3 r" "buf = reserve_record_encode blake3 r @ rest"
    using assms by (auto simp: writable_record_def)
  then show "reserve_record_decode blake3 buf = Some r" by (simp only: reserve_codec.decode_encode)
qed

lemma reserve_record_verifies:
  "length (h (reserve_record_header r)) = 32 \<Longrightarrow> reserve_record_verify h r"
  using reserve_record_hash_slice [of "h (reserve_record_header r)" r "[]"]
  by (simp add: reserve_record_verify_def reserve_record_encode_def reserve_record_header_slices)

theorem reserve_record_decode_iff_witness:
  "(\<forall>xs :: byte list. length ((\<lambda>_. replicate 32 0) xs :: byte list) = 32) \<and>
   reserve_record_decode (\<lambda>_. replicate 32 0)
     (reserve_record_encode (\<lambda>_. replicate 32 0) (reserve_record_new 3 100)) = Some (reserve_record_new 3 100)"
proof -
  have h: "\<forall>xs :: byte list. length ((\<lambda>_. replicate 32 0) xs :: byte list) = 32" by simp
  have "record_in_range (reserve_record_new 3 100)"
    by (simp add: record_in_range_def reserve_record_new_def)
  with reserve_record_decode_iff [OF h] h show ?thesis by (metis append_Nil2)
qed

end
