(* ===== verification/Claim_Ledger.thy ===== *)
theory Claim_Ledger
  imports Le_Bytes "HOL-Library.Char_ord" "HOL-Library.List_Lexorder"
begin

text \<open>
  The claim ledger of a budget domain: every write registers a claim for a number of bytes and
  releases it later. Identifiers are compared only, so a claim id and an authority token are byte
  lists and a budget domain is its name. Sums that the source writes with an unchecked \<open>+=\<close> wrap
  at 64 bits.
\<close>

named_theorems claim_defs \<open>the operations of the claim ledger\<close>

section \<open>Definitions\<close>

type_synonym claim_id = "byte list"
type_synonym authority_token = "byte list"
type_synonym budget_domain_id = string
type_synonym inode_id = nat

definition token_absent :: authority_token where
  "token_absent = replicate 16 0"

datatype claim_class = Product | Rebuild | AntiEntropy | Failover

primrec claim_class_as_u8 :: "claim_class \<Rightarrow> nat" where
  "claim_class_as_u8 Product = 0"
| "claim_class_as_u8 Rebuild = 1"
| "claim_class_as_u8 AntiEntropy = 2"
| "claim_class_as_u8 Failover = 3"

primrec claim_class_as_str :: "claim_class \<Rightarrow> string" where
  "claim_class_as_str Product = ''product''"
| "claim_class_as_str Rebuild = ''rebuild''"
| "claim_class_as_str AntiEntropy = ''anti_entropy''"
| "claim_class_as_str Failover = ''failover''"

definition is_reserve_class :: "claim_class \<Rightarrow> bool" where
  "is_reserve_class c \<longleftrightarrow> c = Rebuild \<or> c = AntiEntropy \<or> c = Failover"

primrec claim_admission_priority :: "claim_class \<Rightarrow> nat" where
  "claim_admission_priority Product = 0"
| "claim_admission_priority AntiEntropy = 1"
| "claim_admission_priority Rebuild = 2"
| "claim_admission_priority Failover = 3"

text \<open>The derived order of the enumeration is that of its discriminants.\<close>

lemma claim_class_as_u8_inject [simp]: "claim_class_as_u8 c = claim_class_as_u8 d \<longleftrightarrow> c = d"
  by (cases c; cases d) simp_all

instantiation claim_class :: linorder
begin

definition less_eq_claim_class :: "claim_class \<Rightarrow> claim_class \<Rightarrow> bool" where
  "less_eq_claim_class c d \<longleftrightarrow> claim_class_as_u8 c \<le> claim_class_as_u8 d"

definition less_claim_class :: "claim_class \<Rightarrow> claim_class \<Rightarrow> bool" where
  "less_claim_class c d \<longleftrightarrow> claim_class_as_u8 c < claim_class_as_u8 d"

instance
  by standard (auto simp: less_eq_claim_class_def less_claim_class_def antisym)

end

datatype claim_ledger_error =
    ZeroByteClaim
  | BudgetExhausted (exhausted_domain: string) (exhausted_requested: nat) (exhausted_available: nat)
  | ClaimNotFound claim_id
  | InvalidClaimClass nat

definition claim_class_try_from :: "nat \<Rightarrow> claim_ledger_error + claim_class" where
  "claim_class_try_from v =
     (if v = 0 then Inr Product else if v = 1 then Inr Rebuild else if v = 2 then Inr AntiEntropy
      else if v = 3 then Inr Failover else Inl (InvalidClaimClass v))"

datatype claimant_ref =
    Process (claimant_pid: nat) (claimant_name: string)
  | Cohort (cohort_id: nat) (cohort_label: string)
  | Service (service_name: string)

record lease_deadline_record =
  deadline_millis :: nat
  auto_reclaim :: bool

record claim_entry =
  claim_id :: claim_id
  claimant_ref :: claimant_ref
  claim_class :: claim_class
  claimed_bytes :: nat
  committed_bytes :: nat
  claim_inode_id :: "inode_id option"
  freshness_fence_ref :: "nat option"
  claim_receipt_ref :: authority_token
  expiration_deadline :: "lease_deadline_record option"

definition claim_entry_new :: "claim_id \<Rightarrow> claimant_ref \<Rightarrow> claim_class \<Rightarrow> nat \<Rightarrow> claim_entry" where
  "claim_entry_new i who cls bytes =
     \<lparr>claim_id = i, claimant_ref = who, claim_class = cls, claimed_bytes = bytes, committed_bytes = 0,
      claim_inode_id = None, freshness_fence_ref = None, claim_receipt_ref = token_absent,
      expiration_deadline = None\<rparr>"

definition commit_bytes :: "nat \<Rightarrow> claim_entry \<Rightarrow> claim_entry" where
  "commit_bytes bytes e = e\<lparr>committed_bytes := sat_add64 (committed_bytes e) bytes\<rparr>"

record claim_ledger =
  ledger_id :: nat
  budget_domain_ref :: budget_domain_id
  total_claimed_bytes :: nat
  total_committed_bytes :: nat
  claim_entries :: "claim_entry list"
  issuance_receipt_ref :: authority_token

definition claim_ledger_new :: "nat \<Rightarrow> budget_domain_id \<Rightarrow> claim_ledger" where
  "claim_ledger_new i domain =
     \<lparr>ledger_id = i, budget_domain_ref = domain, total_claimed_bytes = 0, total_committed_bytes = 0,
      claim_entries = [], issuance_receipt_ref = token_absent\<rparr>"

definition register_claim ::
    "claim_entry \<Rightarrow> nat \<Rightarrow> claim_ledger \<Rightarrow> (claim_ledger_error + claim_id) \<times> claim_ledger" where
  "register_claim e available l =
     (if claimed_bytes e = 0 then (Inl ZeroByteClaim, l)
      else
        let after = sat_add64 (total_claimed_bytes l) (claimed_bytes e)
        in if after > available
           then (Inl (BudgetExhausted (budget_domain_ref l) (claimed_bytes e)
                        (available - total_claimed_bytes l)), l)
           else (Inr (claim_id e),
                 l\<lparr>total_claimed_bytes := after, claim_entries := claim_entries l @ [e]\<rparr>))"

definition release_claim :: "claim_id \<Rightarrow> claim_ledger \<Rightarrow> nat \<times> claim_ledger" where
  "release_claim i l =
     (let freed = fold (\<lambda>e freed. if claim_id e = i then claimed_bytes e else freed) (claim_entries l) 0
      in (freed, l\<lparr>claim_entries := filter (\<lambda>e. claim_id e \<noteq> i) (claim_entries l),
                   total_claimed_bytes := total_claimed_bytes l - freed\<rparr>))"

definition release_claims_for_inode :: "inode_id \<Rightarrow> claim_ledger \<Rightarrow> nat \<times> claim_ledger" where
  "release_claims_for_inode ino l =
     (let freed = fold (\<lambda>e freed. if claim_inode_id e = Some ino then wrap_add64 freed (claimed_bytes e)
                                  else freed) (claim_entries l) 0
      in (freed, l\<lparr>claim_entries := filter (\<lambda>e. claim_inode_id e \<noteq> Some ino) (claim_entries l),
                   total_claimed_bytes := total_claimed_bytes l - freed\<rparr>))"

fun update_first :: "('a \<Rightarrow> bool) \<Rightarrow> ('a \<Rightarrow> 'a) \<Rightarrow> 'a list \<Rightarrow> 'a list" where
  "update_first P f [] = []"
| "update_first P f (x # xs) = (if P x then f x # xs else x # update_first P f xs)"

definition commit_claim ::
    "claim_id \<Rightarrow> nat \<Rightarrow> claim_ledger \<Rightarrow> (claim_ledger_error + unit) \<times> claim_ledger" where
  "commit_claim i bytes l =
     (case find (\<lambda>e. claim_id e = i) (claim_entries l) of
        None \<Rightarrow> (Inl (ClaimNotFound i), l)
      | Some _ \<Rightarrow>
          (Inr (), l\<lparr>claim_entries := update_first (\<lambda>e. claim_id e = i) (commit_bytes bytes) (claim_entries l),
                     total_committed_bytes := sat_add64 (total_committed_bytes l) bytes\<rparr>))"

definition bmap_add :: "'k::linorder \<Rightarrow> (nat \<Rightarrow> nat) \<Rightarrow> ('k \<times> nat) list \<Rightarrow> ('k \<times> nat) list" where
  "bmap_add k f m = bmap_put k (f (case map_of m k of None \<Rightarrow> 0 | Some v \<Rightarrow> v)) m"

definition count_by_class :: "claim_ledger \<Rightarrow> (claim_class \<times> nat) list" where
  "count_by_class l = fold (\<lambda>e. bmap_add (claim_class e) Suc) (claim_entries l) []"

definition bytes_by_class :: "claim_ledger \<Rightarrow> (claim_class \<times> nat) list" where
  "bytes_by_class l =
     fold (\<lambda>e. bmap_add (claim_class e) (\<lambda>v. wrap_add64 v (claimed_bytes e))) (claim_entries l) []"

definition claim_count :: "claim_ledger \<Rightarrow> nat" where
  "claim_count l = length (claim_entries l)"

record claim_ledger_report =
  report_ledger_id :: nat
  report_budget_domain :: string
  report_claimed_bytes :: nat
  report_committed_bytes :: nat
  report_claim_count :: nat
  report_bytes_by_class :: "(string \<times> nat) list"
  report_counts_by_class :: "(string \<times> nat) list"

definition claim_report :: "claim_ledger \<Rightarrow> claim_ledger_report" where
  "claim_report l =
     (let (bytes, counts) =
        fold (\<lambda>e (bytes, counts).
                (bmap_add (claim_class_as_str (claim_class e)) (\<lambda>v. wrap_add64 v (claimed_bytes e)) bytes,
                 bmap_add (claim_class_as_str (claim_class e)) Suc counts))
          (claim_entries l) ([], [])
      in \<lparr>report_ledger_id = ledger_id l, report_budget_domain = budget_domain_ref l,
          report_claimed_bytes = total_claimed_bytes l, report_committed_bytes = total_committed_bytes l,
          report_claim_count = claim_count l, report_bytes_by_class = bytes,
          report_counts_by_class = counts\<rparr>)"

lemmas [claim_defs] = register_claim_def release_claim_def release_claims_for_inode_def commit_claim_def
  Let_def

section \<open>Commands of a budget domain's ledger\<close>

datatype claim_command =
    RegisterClaim claim_entry
  | ReleaseClaim claim_id
  | ReleaseInode inode_id
  | CommitClaim claim_id nat

datatype claim_result = Registered "claim_ledger_error + claim_id" | Freed nat | CommitDone "claim_ledger_error + unit"

primrec claim_step :: "nat \<Rightarrow> claim_command \<Rightarrow> claim_ledger \<Rightarrow> claim_result \<times> claim_ledger" where
  "claim_step available (RegisterClaim e) l = map_prod Registered id (register_claim e available l)"
| "claim_step available (ReleaseClaim i) l = map_prod Freed id (release_claim i l)"
| "claim_step available (ReleaseInode ino) l = map_prod Freed id (release_claims_for_inode ino l)"
| "claim_step available (CommitClaim i bytes) l = map_prod CommitDone id (commit_claim i bytes l)"

definition outstanding :: "claim_ledger \<Rightarrow> nat" where
  "outstanding l = sum_list (map claimed_bytes (claim_entries l))"

section \<open>Sums over the entries\<close>

lemma sum_list_filter_split:
  "sum_list (map f (filter P xs)) + sum_list (map f (filter (\<lambda>x. \<not> P x) xs)) = (sum_list (map f xs) :: nat)"
  by (induction xs) simp_all

lemma fold_last_match:
  "fold (\<lambda>e freed. if P e then f e else freed) xs (v :: nat)
     = (if filter P xs = [] then v else f (last (filter P xs)))"
  by (induction xs arbitrary: v) auto

lemma last_match_le:
  "fold (\<lambda>e freed. if P e then f e else freed) xs (0 :: nat) \<le> sum_list (map f (filter P xs))"
proof (cases "filter P xs = []")
  case False
  then have "f (last (filter P xs)) \<in> set (map f (filter P xs))"
    unfolding set_map by (intro imageI last_in_set)
  then show ?thesis using False unfolding fold_last_match by (simp only: if_False member_le_sum_list)
qed (simp add: fold_last_match)

lemma fold_wrapping_sum:
  "v + sum_list (map f (filter P xs)) \<le> u64_max \<Longrightarrow>
     fold (\<lambda>e freed. if P e then wrap_add64 freed (f e) else freed) xs v
       = v + sum_list (map f (filter P xs))"
  by (induction xs arbitrary: v) (auto simp: wrap_add64_exact add.assoc)

lemma single_match:
  "distinct (map g xs) \<Longrightarrow> x \<in> set xs \<Longrightarrow> filter (\<lambda>e. g e = g x) xs = [x]"
  by (induction xs) (auto simp: filter_empty_conv intro: rev_image_eqI)

lemma last_match_distinct:
  assumes "distinct (map g xs)"
  shows "fold (\<lambda>e freed. if g e = i then f e else freed) xs (0 :: nat)
    = sum_list (map f (filter (\<lambda>e. g e = i) xs))"
proof (cases "filter (\<lambda>e. g e = i) xs = []")
  case False
  then obtain x where x: "x \<in> set xs" "g x = i" by (auto simp: filter_empty_conv)
  have "filter (\<lambda>e. g e = i) xs = [x]" using single_match [OF assms x(1)] x(2) by simp
  then show ?thesis by (simp add: fold_last_match)
qed (simp add: fold_last_match)

lemma map_update_first [simp]: "(\<And>x. h (f x) = h x) \<Longrightarrow> map h (update_first P f xs) = map h xs"
  by (induction xs) simp_all

lemma commit_bytes_fields [simp]:
  "claim_id (commit_bytes b e) = claim_id e" "claimed_bytes (commit_bytes b e) = claimed_bytes e"
  by (simp_all add: commit_bytes_def)

section \<open>The budget is never exceeded\<close>

definition ledger_bounded :: "nat \<Rightarrow> claim_ledger \<Rightarrow> bool" where
  "ledger_bounded available l \<longleftrightarrow> outstanding l \<le> total_claimed_bytes l \<and> total_claimed_bytes l \<le> available"

lemma ledger_bounded_new [simp]: "ledger_bounded available (claim_ledger_new i d)"
  by (simp add: ledger_bounded_def outstanding_def claim_ledger_new_def)

lemma register_claim_bounded:
  assumes "ledger_bounded available l" and "available < u64_max"
  shows "ledger_bounded available (snd (register_claim e available l))"
  using assms by (auto simp: ledger_bounded_def outstanding_def register_claim_def sat_add64_def)

lemma release_claim_bounded:
  assumes "ledger_bounded available l"
  shows "ledger_bounded available (snd (release_claim i l))"
  using assms last_match_le [of "\<lambda>e. claim_id e = i" claimed_bytes "claim_entries l"]
    sum_list_filter_split [of claimed_bytes "\<lambda>e. claim_id e = i" "claim_entries l"]
  by (auto simp: ledger_bounded_def outstanding_def release_claim_def Let_def)

lemma inode_freed:
  assumes "ledger_bounded available l" and "available \<le> u64_max"
  shows "fst (release_claims_for_inode ino l)
    = sum_list (map claimed_bytes (filter (\<lambda>e. claim_inode_id e = Some ino) (claim_entries l)))"
proof -
  have "sum_list (map claimed_bytes (filter (\<lambda>e. claim_inode_id e = Some ino) (claim_entries l))) \<le> u64_max"
    using assms sum_list_filter_split [of claimed_bytes "\<lambda>e. claim_inode_id e = Some ino" "claim_entries l"]
    by (simp add: ledger_bounded_def outstanding_def)
  then show ?thesis
    using fold_wrapping_sum [of 0 claimed_bytes "\<lambda>e. claim_inode_id e = Some ino" "claim_entries l"]
    by (simp add: release_claims_for_inode_def Let_def)
qed

lemma release_inode_state:
  "snd (release_claims_for_inode ino l) =
     l\<lparr>claim_entries := filter (\<lambda>e. claim_inode_id e \<noteq> Some ino) (claim_entries l),
       total_claimed_bytes := total_claimed_bytes l - fst (release_claims_for_inode ino l)\<rparr>"
  by (simp add: release_claims_for_inode_def Let_def)

lemma release_inode_bounded:
  assumes "ledger_bounded available l" and "available \<le> u64_max"
  shows "ledger_bounded available (snd (release_claims_for_inode ino l))"
  using assms sum_list_filter_split [of claimed_bytes "\<lambda>e. claim_inode_id e = Some ino" "claim_entries l"]
  unfolding release_inode_state inode_freed [OF assms]
  by (auto simp: ledger_bounded_def outstanding_def)

lemma commit_claim_state:
  "total_claimed_bytes (snd (commit_claim i b l)) = total_claimed_bytes l"
  "map claimed_bytes (claim_entries (snd (commit_claim i b l))) = map claimed_bytes (claim_entries l)"
  "map claim_id (claim_entries (snd (commit_claim i b l))) = map claim_id (claim_entries l)"
  by (simp_all add: commit_claim_def split: option.splits)

lemma claim_step_bounded:
  assumes "available < u64_max" and "ledger_bounded available l"
  shows "ledger_bounded available (snd (claim_step available c l))"
proof (cases c)
  case (CommitClaim i b)
  then show ?thesis using assms(2) by (simp add: ledger_bounded_def outstanding_def commit_claim_state)
qed (use assms in \<open>simp_all add: register_claim_bounded release_claim_bounded release_inode_bounded\<close>)

text \<open>The ledger as a guarded machine, for a budget below the saturation point.\<close>

interpretation claim_machine: guarded_machine "claim_step available"
    "\<lambda>l. available < u64_max \<longrightarrow> ledger_bounded available l" for available
  by unfold_locales (simp add: claim_step_bounded)

text \<open>
  C24. A budget domain is never over-committed: whatever claims are registered, committed and
  released, in whatever order and with whatever identifiers, the claims held by the ledger never
  exceed its total, and the total never exceeds the bytes it was given.
\<close>

theorem claims_within_budget:
  assumes "available < u64_max" and "snd (run_commands (claim_step available) cs (claim_ledger_new i d)) = l"
  shows "sum_list (map claimed_bytes (claim_entries l)) \<le> total_claimed_bytes l \<and>
    total_claimed_bytes l \<le> available"
  using claim_machine.run_inv [of available "claim_ledger_new i d" cs] assms(1)
  by (simp add: assms(2)) (simp add: ledger_bounded_def outstanding_def)

section \<open>With distinct identifiers the total is exact\<close>

definition ledger_exact :: "nat \<Rightarrow> claim_ledger \<Rightarrow> bool" where
  "ledger_exact available l \<longleftrightarrow> ledger_bounded available l \<and> total_claimed_bytes l = outstanding l \<and>
     distinct (map claim_id (claim_entries l))"

primrec registered_ids :: "claim_command \<Rightarrow> claim_id list" where
  "registered_ids (RegisterClaim e) = [claim_id e]"
| "registered_ids (ReleaseClaim i) = []"
| "registered_ids (ReleaseInode ino) = []"
| "registered_ids (CommitClaim i bytes) = []"

lemma claim_step_exact:
  assumes a: "available < u64_max" and l: "ledger_exact available l"
    and fresh: "set (registered_ids c) \<inter> claim_id ` set (claim_entries l) = {}"
  shows "ledger_exact available (snd (claim_step available c l))"
proof -
  have b: "ledger_bounded available (snd (claim_step available c l))"
    using a l by (simp add: claim_step_bounded ledger_exact_def)
  show ?thesis
  proof (cases c)
    case (RegisterClaim e)
    have "total_claimed_bytes l = outstanding l" "distinct (map claim_id (claim_entries l))"
      using l by (simp_all add: ledger_exact_def)
    then show ?thesis using a b fresh unfolding RegisterClaim
      by (auto simp: ledger_exact_def register_claim_def outstanding_def sat_add64_def)
  next
    case (ReleaseClaim i)
    then show ?thesis using b l
        sum_list_filter_split [of claimed_bytes "\<lambda>e. claim_id e = i" "claim_entries l"]
      by (simp add: ledger_exact_def release_claim_def Let_def outstanding_def last_match_distinct
          distinct_map_filter)
  next
    case (ReleaseInode ino)
    have lb: "ledger_bounded available l" using l by (simp add: ledger_exact_def)
    have f: "fst (release_claims_for_inode ino l)
      = sum_list (map claimed_bytes (filter (\<lambda>e. claim_inode_id e = Some ino) (claim_entries l)))"
      using a by (intro inode_freed [OF lb]) simp
    show ?thesis using b l unfolding ReleaseInode
      using sum_list_filter_split [of claimed_bytes "\<lambda>e. claim_inode_id e = Some ino" "claim_entries l"]
      by (simp add: ledger_exact_def release_inode_state f outstanding_def distinct_map_filter)
  next
    case (CommitClaim i bytes)
    then show ?thesis using b l by (simp add: ledger_exact_def outstanding_def commit_claim_state)
  qed
qed

lemma claim_step_ids:
  "claim_id ` set (claim_entries (snd (claim_step available c l)))
     \<subseteq> claim_id ` set (claim_entries l) \<union> set (registered_ids c)"
proof (cases c)
  case (CommitClaim i bytes)
  then show ?thesis
    using arg_cong [OF commit_claim_state(3) [of i bytes l], of set] by simp
qed (auto simp: claim_defs)

lemma run_claims_exact:
  assumes "available < u64_max" and "ledger_exact available l"
    and "distinct (concat (map registered_ids cs))"
    and "set (concat (map registered_ids cs)) \<inter> claim_id ` set (claim_entries l) = {}"
  shows "ledger_exact available (snd (run_commands (claim_step available) cs l))"
  using assms
proof (induction cs arbitrary: l)
  case (Cons c cs)
  let ?l = "snd (claim_step available c l)"
  have "ledger_exact available ?l" using Cons.prems by (intro claim_step_exact) auto
  moreover have "set (concat (map registered_ids cs)) \<inter> claim_id ` set (claim_entries ?l) = {}"
  proof -
    let ?R = "set (concat (map registered_ids cs))"
    have "?R \<inter> set (registered_ids c) = {}" using Cons.prems(3) by auto
    moreover have "?R \<inter> claim_id ` set (claim_entries l) = {}" using Cons.prems(4) by auto
    ultimately show ?thesis using claim_step_ids [of available c l] by blast
  qed
  ultimately have "ledger_exact available (snd (run_commands (claim_step available) cs ?l))"
    using Cons.prems by (intro Cons.IH) simp_all
  then show ?case by (simp add: Let_def case_prod_beta)
qed simp

text \<open>
  C34. When no claim identifier is registered twice, the ledger's total is exactly the sum of the
  claims it holds after every sequence of operations: no byte is leaked and none is freed twice.
\<close>

theorem claim_accounting_exact:
  assumes "available < u64_max" and "distinct (concat (map registered_ids cs))"
    and "snd (run_commands (claim_step available) cs (claim_ledger_new i d)) = l"
  shows "total_claimed_bytes l = sum_list (map claimed_bytes (claim_entries l)) \<and>
    distinct (map claim_id (claim_entries l))"
proof -
  have "ledger_exact available (claim_ledger_new i d)"
    by (simp add: ledger_exact_def) (simp add: claim_ledger_new_def outstanding_def)
  then have "ledger_exact available (snd (run_commands (claim_step available) cs (claim_ledger_new i d)))"
    using assms(1,2) by (intro run_claims_exact) (simp_all add: claim_ledger_new_def)
  then show ?thesis by (simp add: assms(3) ledger_exact_def outstanding_def)
qed

text \<open>A repeated identifier leaks: releasing it removes both claims and frees one of them.\<close>

lemma duplicate_claim_leaks:
  assumes "claim_entries l = [e, e']" and "claim_id e = i" and "claim_id e' = i"
    and "total_claimed_bytes l = claimed_bytes e + claimed_bytes e'"
  shows "claim_entries (snd (release_claim i l)) = []"
    and "total_claimed_bytes (snd (release_claim i l)) = claimed_bytes e"
  using assms by (simp_all add: release_claim_def)

section \<open>Summaries by class\<close>

lemma map_of_bmap_add:
  "map_of (bmap_add k f m) k' = (if k' = k then Some (f (case map_of m k of None \<Rightarrow> 0 | Some v \<Rightarrow> v)) else map_of m k')"
  by (simp add: bmap_add_def)

lemma count_fold:
  "map_of (fold (\<lambda>e. bmap_add (g e) Suc) xs m) k =
     (if \<forall>e \<in> set xs. g e \<noteq> k then map_of m k
      else Some ((case map_of m k of None \<Rightarrow> 0 | Some v \<Rightarrow> v) + length (filter (\<lambda>e. g e = k) xs)))"
  by (induction xs arbitrary: m) (auto simp: map_of_bmap_add filter_empty_conv split: option.splits)

lemma count_by_class_correct:
  "map_of (count_by_class l) c =
     (let n = length (filter (\<lambda>e. claim_class e = c) (claim_entries l)) in if n = 0 then None else Some n)"
  by (auto simp: count_by_class_def count_fold Let_def filter_empty_conv)

lemma report_fold:
  "fold (\<lambda>e (bytes, counts). (f e bytes, h e counts)) xs (b, c) = (fold f xs b, fold h xs c)"
  by (induction xs arbitrary: b c) simp_all

lemma claim_class_as_str_inject: "claim_class_as_str c = claim_class_as_str d \<longleftrightarrow> c = d"
  by (cases c; cases d) simp_all

text \<open>The report's counts are those of the ledger, under the names of the classes.\<close>

lemma report_counts_agree:
  "map_of (report_counts_by_class (claim_report l)) (claim_class_as_str c) = map_of (count_by_class l) c"
  by (simp add: claim_report_def report_fold count_by_class_def count_fold claim_class_as_str_inject)

section \<open>Sample runs\<close>

definition sample_claims :: "claim_command list" where
  "sample_claims = [RegisterClaim (claim_entry_new [1] (Service ''rebuild'') Rebuild 40),
     RegisterClaim (claim_entry_new [2] (Service ''app'') Product 70),
     RegisterClaim (claim_entry_new [3] (Service ''app'') Product 30), ReleaseClaim [1]]"

lemma sample_claims_total:
  "total_claimed_bytes (snd (run_commands (claim_step 100) sample_claims (claim_ledger_new 1 ''d''))) = 30"
  "map claimed_bytes (claim_entries (snd (run_commands (claim_step 100) sample_claims (claim_ledger_new 1 ''d'')))) = [30]"
  by (simp_all add: sample_claims_def claim_defs claim_entry_new_def claim_ledger_new_def sat_add64_def
      u64_max_def)

theorem claims_within_budget_witness:
  "(100 :: nat) < u64_max \<and>
   total_claimed_bytes (snd (run_commands (claim_step 100) sample_claims (claim_ledger_new 1 ''d''))) \<le> 100"
proof -
  have "(100 :: nat) < u64_max" by (simp add: u64_max_def)
  with claims_within_budget [OF this refl] show ?thesis by blast
qed

theorem claim_accounting_exact_witness:
  "distinct (concat (map registered_ids sample_claims)) \<and>
   total_claimed_bytes (snd (run_commands (claim_step 100) sample_claims (claim_ledger_new 1 ''d''))) = 30"
proof -
  have a: "(100 :: nat) < u64_max" by (simp add: u64_max_def)
  have d: "distinct (concat (map registered_ids sample_claims))"
    by (simp add: sample_claims_def claim_entry_new_def)
  show ?thesis using claim_accounting_exact [OF a d refl, of 1 "''d''"] d sample_claims_total by simp
qed

end
