(* ===== verification/Reserve_Ledger.thy ===== *)
theory Reserve_Ledger
  imports Claim_Ledger
begin

text \<open>
  The reserve ledger: the pressure state machine that decides whether product writes are admitted,
  the holders of the byte reserve, and the segment reservations that the allocation pipeline takes
  and returns. A \<open>u32\<close> segment counter saturates at its maximum; a panicking constructor is
  an optional result; unchecked sums of bytes wrap at 64 bits.
\<close>

named_theorems reserve_defs \<open>the operations of the reserve ledger\<close>

section \<open>Definitions\<close>

datatype reserve_class = Rebuild | AntiEntropy | Failover | Snapshot | Operator

primrec reserve_class_as_u8 :: "reserve_class \<Rightarrow> nat" where
  "reserve_class_as_u8 reserve_class.Rebuild = 0"
| "reserve_class_as_u8 reserve_class.AntiEntropy = 1"
| "reserve_class_as_u8 reserve_class.Failover = 2"
| "reserve_class_as_u8 Snapshot = 3"
| "reserve_class_as_u8 Operator = 4"

primrec reserve_class_as_str :: "reserve_class \<Rightarrow> string" where
  "reserve_class_as_str reserve_class.Rebuild = ''rebuild''"
| "reserve_class_as_str reserve_class.AntiEntropy = ''anti_entropy''"
| "reserve_class_as_str reserve_class.Failover = ''failover''"
| "reserve_class_as_str Snapshot = ''snapshot''"
| "reserve_class_as_str Operator = ''operator''"

primrec to_claim_class :: "reserve_class \<Rightarrow> claim_class" where
  "to_claim_class reserve_class.Rebuild = claim_class.Rebuild"
| "to_claim_class reserve_class.AntiEntropy = claim_class.AntiEntropy"
| "to_claim_class reserve_class.Failover = claim_class.Failover"
| "to_claim_class Snapshot = Product"
| "to_claim_class Operator = claim_class.Failover"

primrec reserve_admission_priority :: "reserve_class \<Rightarrow> nat" where
  "reserve_admission_priority Snapshot = 0"
| "reserve_admission_priority reserve_class.AntiEntropy = 1"
| "reserve_admission_priority reserve_class.Rebuild = 2"
| "reserve_admission_priority reserve_class.Failover = 3"
| "reserve_admission_priority Operator = 4"

datatype reserve_ledger_error =
    ReserveCeilingExceeded (ceiling_requested: nat) (ceiling_bytes: nat)
  | HolderNotFound nat
  | HolderExhausted (exhausted_holder: nat) (exhausted_reserved: nat) (exhausted_attempted: nat)
  | InvalidReserveClass nat
  | InsufficientSegments (segments_requested: nat) (segments_available: nat)
  | InvalidSegmentCount

definition reserve_class_try_from :: "nat \<Rightarrow> reserve_ledger_error + reserve_class" where
  "reserve_class_try_from v =
     (if v = 0 then Inr reserve_class.Rebuild else if v = 1 then Inr reserve_class.AntiEntropy
      else if v = 2 then Inr reserve_class.Failover else if v = 3 then Inr Snapshot
      else if v = 4 then Inr Operator else Inl (InvalidReserveClass v))"

datatype pressure_state = Healthy | Encroached | Violated | Emergency

primrec pressure_as_str :: "pressure_state \<Rightarrow> string" where
  "pressure_as_str Healthy = ''healthy''"
| "pressure_as_str Encroached = ''encroached''"
| "pressure_as_str Violated = ''violated''"
| "pressure_as_str Emergency = ''emergency''"

definition admits_product_writes :: "pressure_state \<Rightarrow> bool" where
  "admits_product_writes s \<longleftrightarrow> s = Healthy \<or> s = Encroached"

definition admits_reserve_writes :: "pressure_state \<Rightarrow> bool" where
  "admits_reserve_writes s \<longleftrightarrow> True"

definition checked_mul64 :: "nat \<Rightarrow> nat \<Rightarrow> nat option" where
  "checked_mul64 a b = (if a * b \<le> u64_max then Some (a * b) else None)"

definition pressure_transition :: "pressure_state \<Rightarrow> nat \<Rightarrow> nat \<Rightarrow> nat \<Rightarrow> pressure_state" where
  "pressure_transition s free_bytes floor_bytes total_capacity =
     (let effective = min free_bytes total_capacity;
          exhausted = (floor_bytes = 0 \<or> effective = 0);
          unsatisfied = (floor_bytes > total_capacity);
          encroached = (case checked_mul64 floor_bytes 2 of Some e \<Rightarrow> effective < e | None \<Rightarrow> True);
          violated = (unsatisfied \<or> effective < floor_bytes);
          emergency = (exhausted \<or> (floor_bytes > 0 \<and> effective < floor_bytes div 4))
      in case s of
           Healthy \<Rightarrow>
             if emergency then Emergency else if violated then Violated
             else if encroached then Encroached else Healthy
         | Encroached \<Rightarrow>
             if emergency then Emergency else if violated then Violated
             else if \<not> encroached then Healthy else Encroached
         | Violated \<Rightarrow>
             if emergency then Emergency
             else if \<not> violated then (if encroached then Encroached else Healthy)
             else Violated
         | Emergency \<Rightarrow>
             if \<not> exhausted \<and> \<not> emergency
             then (if violated then Violated else if encroached then Encroached else Healthy)
             else Emergency)"

record reserve_holder =
  holder_id :: nat
  holder_name :: string
  reserved_bytes :: nat
  consumed_bytes :: nat

record reservation_token =
  token_id :: nat
  generation :: nat
  token_count :: nat

datatype write_priority = Normal | Critical

definition is_normal :: "write_priority \<Rightarrow> bool" where
  "is_normal p \<longleftrightarrow> p = Normal"

record reserve_ledger =
  reservation_id :: nat
  reserve_class :: reserve_class
  reserve_floor_bytes :: nat
  reserve_ceiling_bytes :: nat
  pressure_state :: pressure_state
  reserve_holders :: "reserve_holder list"
  segment_capacity :: nat
  segments_reserved :: nat
  next_token_id :: nat
  token_generation :: nat

definition reserve_ledger_new ::
    "nat \<Rightarrow> reserve_class \<Rightarrow> nat \<Rightarrow> nat \<Rightarrow> reserve_ledger option" where
  "reserve_ledger_new i cls floor_bytes ceiling =
     (if floor_bytes \<le> ceiling
      then Some \<lparr>reservation_id = i, reserve_class = cls, reserve_floor_bytes = floor_bytes,
                 reserve_ceiling_bytes = ceiling, pressure_state = Healthy, reserve_holders = [],
                 segment_capacity = 0, segments_reserved = 0, next_token_id = 1, token_generation = 1\<rparr>
      else None)"

definition wrapping_sum :: "nat list \<Rightarrow> nat" where
  "wrapping_sum ns = fold (\<lambda>n s. wrap_add64 s n) ns 0"

definition total_reserved_bytes :: "reserve_ledger \<Rightarrow> nat" where
  "total_reserved_bytes l = wrapping_sum (map reserved_bytes (reserve_holders l))"

definition total_consumed_bytes :: "reserve_ledger \<Rightarrow> nat" where
  "total_consumed_bytes l = wrapping_sum (map consumed_bytes (reserve_holders l))"

definition available_reserve_bytes :: "reserve_ledger \<Rightarrow> nat" where
  "available_reserve_bytes l = reserve_floor_bytes l - total_consumed_bytes l"

definition add_holder :: "reserve_holder \<Rightarrow> reserve_ledger \<Rightarrow> (reserve_ledger_error + unit) \<times> reserve_ledger" where
  "add_holder h l =
     (let after = wrap_add64 (total_reserved_bytes l) (reserved_bytes h)
      in if after > reserve_ceiling_bytes l
         then (Inl (ReserveCeilingExceeded (reserved_bytes h) (reserve_ceiling_bytes l)), l)
         else (Inr (), l\<lparr>reserve_holders := reserve_holders l @ [h]\<rparr>))"

definition reserve_consume ::
    "nat \<Rightarrow> nat \<Rightarrow> reserve_ledger \<Rightarrow> (reserve_ledger_error + unit) \<times> reserve_ledger" where
  "reserve_consume i bytes l =
     (case find (\<lambda>h. holder_id h = i) (reserve_holders l) of
        None \<Rightarrow> (Inl (HolderNotFound i), l)
      | Some h \<Rightarrow>
          let after = sat_add64 (consumed_bytes h) bytes
          in if after > reserved_bytes h
             then (Inl (HolderExhausted i (reserved_bytes h) after), l)
             else (Inr (), l\<lparr>reserve_holders :=
                     update_first (\<lambda>h. holder_id h = i) (\<lambda>h. h\<lparr>consumed_bytes := after\<rparr>) (reserve_holders l)\<rparr>))"

definition reserve_evaluate_pressure :: "nat \<Rightarrow> nat \<Rightarrow> reserve_ledger \<Rightarrow> pressure_state \<times> reserve_ledger" where
  "reserve_evaluate_pressure free_bytes total_capacity l =
     (let s = pressure_transition (pressure_state l) free_bytes (reserve_floor_bytes l) total_capacity
      in (s, l\<lparr>pressure_state := s\<rparr>))"

definition reserve_available :: "reserve_ledger \<Rightarrow> nat" where
  "reserve_available l = min (segment_capacity l - segments_reserved l) u32_max"

definition reserve :: "nat \<Rightarrow> reserve_ledger \<Rightarrow> (reserve_ledger_error + reservation_token) \<times> reserve_ledger" where
  "reserve count l =
     (if count = 0 then (Inl InvalidSegmentCount, l)
      else if reserve_available l < count
      then (Inl (InsufficientSegments count (reserve_available l)), l)
      else (Inr \<lparr>token_id = next_token_id l, generation = token_generation l, token_count = count\<rparr>,
            l\<lparr>segments_reserved := sat_add32 (segments_reserved l) count,
              next_token_id := wrap_add64 (next_token_id l) 1\<rparr>))"

definition release :: "reservation_token \<Rightarrow> reserve_ledger \<Rightarrow> reserve_ledger" where
  "release t l =
     (if generation t = token_generation l
      then l\<lparr>segments_reserved := segments_reserved l - token_count t\<rparr>
      else l)"

definition set_capacity :: "nat \<Rightarrow> reserve_ledger \<Rightarrow> reserve_ledger" where
  "set_capacity total_segments l = l\<lparr>segment_capacity := total_segments\<rparr>"

definition reserve_for_critical :: "nat \<Rightarrow> reserve_ledger \<Rightarrow> bool \<times> reserve_ledger" where
  "reserve_for_critical count l =
     (if count = 0 then (False, l)
      else if segment_capacity l = 0 then (False, l)
      else if segments_reserved l + count > segment_capacity l then (False, l)
      else (True, l\<lparr>segments_reserved := sat_add32 (segments_reserved l) count\<rparr>))"

definition can_reserve :: "nat \<Rightarrow> reserve_ledger \<Rightarrow> bool" where
  "can_reserve count l \<longleftrightarrow> reserve_available l \<ge> count"

primrec reserve_check :: "write_priority \<Rightarrow> nat \<Rightarrow> reserve_ledger \<Rightarrow> reserve_ledger_error + unit" where
  "reserve_check Normal count l =
     (if \<not> can_reserve count l then Inl (InsufficientSegments count (reserve_available l)) else Inr ())"
| "reserve_check Critical count l = Inr ()"

lemmas [reserve_defs] = reserve_def release_def set_capacity_def reserve_for_critical_def
  reserve_available_def add_holder_def reserve_consume_def Let_def

section \<open>The pressure state\<close>

text \<open>The state as a function of the present space only, in unbounded arithmetic.\<close>

definition pressure_of :: "nat \<Rightarrow> nat \<Rightarrow> nat \<Rightarrow> pressure_state" where
  "pressure_of free_bytes floor_bytes total_capacity =
     (let effective = min free_bytes total_capacity
      in if floor_bytes = 0 \<or> effective = 0 \<or> effective < floor_bytes div 4 then Emergency
         else if effective < floor_bytes then Violated
         else if effective < 2 * floor_bytes then Encroached
         else Healthy)"

primrec severity :: "pressure_state \<Rightarrow> nat" where
  "severity Healthy = 0"
| "severity Encroached = 1"
| "severity Violated = 2"
| "severity Emergency = 3"

lemma encroached_unbounded:
  "e \<le> u64_max \<Longrightarrow> (case checked_mul64 f 2 of Some x \<Rightarrow> e < x | None \<Rightarrow> True) \<longleftrightarrow> e < 2 * f"
  by (auto simp: checked_mul64_def)

lemma pressure_transition_pressure_of:
  assumes "total_capacity \<le> u64_max"
  shows "pressure_transition s free_bytes floor_bytes total_capacity = pressure_of free_bytes floor_bytes total_capacity"
proof -
  have e: "min free_bytes total_capacity \<le> u64_max" using assms by simp
  show ?thesis
    unfolding pressure_transition_def pressure_of_def Let_def encroached_unbounded [OF e]
    by (cases s) auto
qed

lemma pressure_of_mono:
  "free_bytes \<le> free_bytes' \<Longrightarrow>
     severity (pressure_of free_bytes' floor_bytes cap) \<le> severity (pressure_of free_bytes floor_bytes cap)"
  by (auto simp: pressure_of_def Let_def)

text \<open>
  C35. The pressure state machine keeps no memory: after any number of evaluations the state is
  determined by the last free space, the floor and the capacity as in the reference
  classification, without overflow in the doubled floor; more free space never gives a more severe
  state; and product writes are admitted exactly when a positive floor is fully covered by free space.
\<close>

theorem pressure_state_reference:
  assumes "total_capacity \<le> u64_max"
  shows "fst (reserve_evaluate_pressure free_bytes total_capacity l)
        = pressure_of free_bytes (reserve_floor_bytes l) total_capacity \<and>
      (free_bytes \<le> free_bytes' \<longrightarrow>
        severity (fst (reserve_evaluate_pressure free_bytes' total_capacity l))
          \<le> severity (fst (reserve_evaluate_pressure free_bytes total_capacity l))) \<and>
      (admits_product_writes (fst (reserve_evaluate_pressure free_bytes total_capacity l)) \<longleftrightarrow>
        0 < reserve_floor_bytes l \<and> reserve_floor_bytes l \<le> min free_bytes total_capacity)"
proof -
  have *: "fst (reserve_evaluate_pressure f total_capacity l)
      = pressure_of f (reserve_floor_bytes l) total_capacity" for f
    by (simp add: reserve_evaluate_pressure_def Let_def pressure_transition_pressure_of [OF assms])
  show ?thesis unfolding *
    by (intro conjI impI pressure_of_mono) (auto simp: pressure_of_def Let_def admits_product_writes_def)
qed

section \<open>Segment reservations\<close>

text \<open>
  Callers of the segment interface: they keep the tokens they were given, and return each of them
  at most once. The third component is what critical writes have taken.
\<close>

datatype pool_command = Take nat | GiveBack nat | TakeCritical nat

type_synonym pool_state = "reserve_ledger \<times> reservation_token list \<times> nat"

fun pool_step :: "pool_command \<Rightarrow> pool_state \<Rightarrow> bool \<times> pool_state" where
  "pool_step (Take n) (l, out, crit) =
     (case reserve n l of
        (Inl _, l') \<Rightarrow> (False, l', out, crit)
      | (Inr t, l') \<Rightarrow> (True, l', out @ [t], crit))"
| "pool_step (GiveBack k) (l, out, crit) =
     (if k < length out then (True, release (out ! k) l, take k out @ drop (Suc k) out, crit)
      else (False, l, out, crit))"
| "pool_step (TakeCritical n) (l, out, crit) =
     (case reserve_for_critical n l of (ok, l') \<Rightarrow> (ok, l', out, if ok then crit + n else crit))"

definition held_segments :: "reservation_token list \<Rightarrow> nat" where
  "held_segments out = sum_list (map token_count out)"

fun pool_inv :: "nat \<Rightarrow> pool_state \<Rightarrow> bool" where
  "pool_inv cap (l, out, crit) \<longleftrightarrow>
     segment_capacity l = cap \<and> segments_reserved l = held_segments out + crit \<and>
     segments_reserved l \<le> cap \<and> (\<forall>t \<in> set out. generation t = token_generation l)"

lemma reserve_cases:
  assumes "segment_capacity l \<le> u32_max" and "segments_reserved l \<le> segment_capacity l"
  obtains (refused) e where "reserve n l = (Inl e, l)" "n = 0 \<or> segment_capacity l < segments_reserved l + n"
  | (granted) t where "reserve n l = (Inr t, l\<lparr>segments_reserved := segments_reserved l + n,
      next_token_id := wrap_add64 (next_token_id l) 1\<rparr>)"
      "0 < n" "segments_reserved l + n \<le> segment_capacity l" "token_count t = n" "generation t = token_generation l"
proof (cases "n = 0 \<or> segment_capacity l < segments_reserved l + n")
  case True
  then have "\<exists>e. reserve n l = (Inl e, l)"
    using assms by (auto simp: reserve_def reserve_available_def)
  with True show ?thesis by (elim exE) (rule refused)
next
  case False
  then show ?thesis using assms
    by (intro granted) (auto simp: reserve_def reserve_available_def sat_add32_exact)
qed

lemma held_segments_nth:
  "k < length out \<Longrightarrow> held_segments out = token_count (out ! k) + held_segments (take k out @ drop (Suc k) out)"
  by (subst id_take_nth_drop [of k out]) (simp_all add: held_segments_def)

lemma pool_step_inv:
  assumes cap: "cap \<le> u32_max" and inv: "pool_inv cap (l, out, crit)"
  shows "pool_inv cap (snd (pool_step c (l, out, crit)))"
proof (cases c)
  case (Take n)
  have "segment_capacity l \<le> u32_max" "segments_reserved l \<le> segment_capacity l"
    using cap inv by simp_all
  then show ?thesis
    by (cases rule: reserve_cases [of l n]) (use inv Take in \<open>auto simp: held_segments_def\<close>)
next
  case (GiveBack k)
  show ?thesis
  proof (cases "k < length out")
    case True
    have "generation (out ! k) = token_generation l" using inv True by simp
    moreover have "set (take k out @ drop (Suc k) out) \<subseteq> set out"
      by (auto dest: in_set_takeD in_set_dropD)
    ultimately show ?thesis
      using inv True held_segments_nth [OF True] by (auto simp: GiveBack release_def)
  qed (use inv GiveBack in simp)
next
  case (TakeCritical n)
  then show ?thesis using cap inv
    by (auto simp: reserve_for_critical_def sat_add32_exact)
qed

interpretation pool_machine: guarded_machine pool_step "\<lambda>s. cap \<le> u32_max \<longrightarrow> pool_inv cap s" for cap
proof
  fix s c
  assume "cap \<le> u32_max \<longrightarrow> pool_inv cap s"
  then show "cap \<le> u32_max \<longrightarrow> pool_inv cap (snd (pool_step c s))"
    by (cases s) (auto intro!: pool_step_inv simp del: pool_inv.simps pool_step.simps)
qed

text \<open>
  C28. Segment reservations are conserved: when every token is returned at most once, the ledger's
  counter is at all times the sum of the tokens still held and of what critical writes took, it
  never exceeds the capacity, and a reservation is granted if and only if it is positive and fits
  into the rest.
\<close>

theorem reservations_conserved:
  assumes "reserve_ledger_new i cls floor_bytes ceiling = Some l0" and "cap \<le> u32_max"
    and "snd (run_commands pool_step cs (set_capacity cap l0, [], 0)) = (l, out, crit)"
  shows "segments_reserved l = sum_list (map token_count out) + crit \<and> segments_reserved l \<le> cap \<and>
    reserve_available l = cap - segments_reserved l \<and>
    ((\<exists>t. fst (reserve n l) = Inr t) \<longleftrightarrow> 0 < n \<and> sum_list (map token_count out) + crit + n \<le> cap)"
proof -
  have "pool_inv cap (set_capacity cap l0, [], 0)"
    using assms(1) by (auto simp: reserve_ledger_new_def set_capacity_def held_segments_def split: if_splits)
  then have "pool_inv cap (l, out, crit)"
    using pool_machine.run_inv [of cap "(set_capacity cap l0, [], 0)" cs] assms(2,3) by simp
  then have inv: "segment_capacity l = cap" "segments_reserved l = sum_list (map token_count out) + crit"
    "segments_reserved l \<le> cap" by (simp_all add: held_segments_def)
  then have "segment_capacity l \<le> u32_max" "segments_reserved l \<le> segment_capacity l"
    using assms(2) by simp_all
  then have "(\<exists>t. fst (reserve n l) = Inr t) \<longleftrightarrow> 0 < n \<and> segments_reserved l + n \<le> cap"
    by (cases rule: reserve_cases [of l n]) (use inv in auto)
  with inv assms(2) show ?thesis by (simp add: reserve_available_def)
qed

text \<open>
  C39. Returning a token twice is not harmless: the second return takes the segments of another
  holder from the counter, so that the ledger offers segments that are still held.
\<close>

theorem double_release_frees_others:
  assumes "segment_capacity l \<le> u32_max" and "segments_reserved l = 0"
    and "reserve a l = (Inr t, l1)" and "reserve b l1 = (Inr u, l2)"
  shows "segments_reserved (release t (release t l2)) = b - a \<and> token_count u = b \<and>
    segments_reserved (release t (release t l2)) < token_count u"
proof -
  have t: "token_count t = a" "generation t = token_generation l" "0 < a"
    and l1: "segments_reserved l1 = a" "segment_capacity l1 = segment_capacity l"
      "token_generation l1 = token_generation l" "a \<le> segment_capacity l"
    using assms(1-3) by (auto simp: reserve_def reserve_available_def sat_add32_def split: if_splits)
  have u: "token_count u = b" "0 < b"
    and l2: "segments_reserved l2 = a + b" "token_generation l2 = token_generation l"
    using assms(1,4) l1 by (auto simp: reserve_def reserve_available_def sat_add32_def split: if_splits)
  show ?thesis using t u l2 by (simp add: release_def)
qed

text \<open>A token of another generation is ignored.\<close>

lemma stale_release: "generation t \<noteq> token_generation l \<Longrightarrow> release t l = l"
  by (simp add: release_def)

section \<open>Holders of the byte reserve\<close>

datatype holder_command = AddHolder reserve_holder | Consume nat nat

primrec holder_step :: "holder_command \<Rightarrow> reserve_ledger \<Rightarrow> (reserve_ledger_error + unit) \<times> reserve_ledger" where
  "holder_step (AddHolder h) l = add_holder h l"
| "holder_step (Consume i bytes) l = reserve_consume i bytes l"

text \<open>What callers are asked: a new holder has not consumed more than it reserves, and its size does not overflow.\<close>

primrec sane_holder :: "nat \<Rightarrow> holder_command \<Rightarrow> bool" where
  "sane_holder ceiling (AddHolder h) \<longleftrightarrow>
     ceiling + reserved_bytes h \<le> u64_max \<and> consumed_bytes h \<le> reserved_bytes h"
| "sane_holder ceiling (Consume i bytes) \<longleftrightarrow> True"

definition holders_inv :: "reserve_ledger \<Rightarrow> bool" where
  "holders_inv l \<longleftrightarrow> sum_list (map reserved_bytes (reserve_holders l)) \<le> reserve_ceiling_bytes l \<and>
     (\<forall>h \<in> set (reserve_holders l). consumed_bytes h \<le> reserved_bytes h)"

lemma fold_wrap_exact: "v + sum_list ns \<le> u64_max \<Longrightarrow> fold (\<lambda>n s. wrap_add64 s n) ns v = v + sum_list ns"
  by (induction ns arbitrary: v) (simp_all add: wrap_add64_exact add.assoc)

lemma wrapping_sum_exact: "sum_list ns \<le> u64_max \<Longrightarrow> wrapping_sum ns = sum_list ns"
  by (simp add: wrapping_sum_def fold_wrap_exact)

lemma set_update_first: "set (update_first P f xs) \<subseteq> set xs \<union> f ` set (filter P xs)"
  by (induction xs) auto

lemma update_first_found: "find P xs = Some x \<Longrightarrow> update_first P f xs = update_first P (\<lambda>_. f x) xs"
  by (induction xs) (auto split: if_splits)

lemma holder_step_inv:
  assumes "holders_inv l" and "reserve_ceiling_bytes l \<le> u64_max" and "sane_holder (reserve_ceiling_bytes l) c"
  shows "holders_inv (snd (holder_step c l)) \<and>
    reserve_ceiling_bytes (snd (holder_step c l)) = reserve_ceiling_bytes l"
proof (cases c)
  case (AddHolder h)
  have r: "total_reserved_bytes l = sum_list (map reserved_bytes (reserve_holders l))"
    using assms(1,2) by (simp add: total_reserved_bytes_def wrapping_sum_exact holders_inv_def)
  have "wrap_add64 (total_reserved_bytes l) (reserved_bytes h) = total_reserved_bytes l + reserved_bytes h"
    using assms AddHolder by (intro wrap_add64_exact) (simp add: r holders_inv_def)
  then show ?thesis using assms AddHolder r by (auto simp: add_holder_def holders_inv_def Let_def)
next
  case (Consume i bytes)
  show ?thesis
  proof (cases "find (\<lambda>h. holder_id h = i) (reserve_holders l)")
    case (Some h)
    let ?a = "sat_add64 (consumed_bytes h) bytes"
    let ?hs = "update_first (\<lambda>h. holder_id h = i) (\<lambda>h. h\<lparr>consumed_bytes := ?a\<rparr>) (reserve_holders l)"
    have "\<forall>x \<in> set ?hs. consumed_bytes x \<le> reserved_bytes x" if "?a \<le> reserved_bytes h"
    proof
      fix x
      assume "x \<in> set ?hs"
      then have "x \<in> set (update_first (\<lambda>h. holder_id h = i) (\<lambda>_. h\<lparr>consumed_bytes := ?a\<rparr>) (reserve_holders l))"
        using update_first_found [OF Some, of "\<lambda>h. h\<lparr>consumed_bytes := ?a\<rparr>"] by (simp only:)
      then have "x \<in> set (reserve_holders l) \<or> x = h\<lparr>consumed_bytes := ?a\<rparr>"
        using set_update_first by fastforce
      then show "consumed_bytes x \<le> reserved_bytes x"
        using assms(1) that by (auto simp: holders_inv_def)
    qed
    then show ?thesis using assms(1) Consume Some
      by (simp add: reserve_consume_def holders_inv_def Let_def)
  qed (use assms(1) Consume in \<open>simp add: reserve_consume_def\<close>)
qed

lemma run_holders_inv:
  "holders_inv l \<Longrightarrow> reserve_ceiling_bytes l \<le> u64_max \<Longrightarrow>
     \<forall>c \<in> set cs. sane_holder (reserve_ceiling_bytes l) c \<Longrightarrow>
     holders_inv (snd (run_commands holder_step cs l)) \<and>
     reserve_ceiling_bytes (snd (run_commands holder_step cs l)) = reserve_ceiling_bytes l"
proof (induction cs arbitrary: l)
  case (Cons c cs)
  have "holders_inv (snd (holder_step c l))"
    "reserve_ceiling_bytes (snd (holder_step c l)) = reserve_ceiling_bytes l"
    using holder_step_inv [of l c] Cons.prems by simp_all
  with Cons.IH [of "snd (holder_step c l)"] Cons.prems show ?case by (simp add: Let_def case_prod_beta)
qed simp

text \<open>
  The byte reserve is never promised twice: for holders of sane size the reservations of all
  holders together stay within the ceiling, no holder consumes more than it reserved, and the
  reported totals are the true sums.
\<close>

theorem reserve_holders_bounded:
  assumes "reserve_ledger_new i cls floor_bytes ceiling = Some l0" and "ceiling \<le> u64_max"
    and "\<forall>c \<in> set cs. sane_holder ceiling c" and "snd (run_commands holder_step cs l0) = l"
  shows "total_reserved_bytes l = sum_list (map reserved_bytes (reserve_holders l)) \<and>
    total_reserved_bytes l \<le> ceiling \<and>
    total_consumed_bytes l = sum_list (map consumed_bytes (reserve_holders l)) \<and>
    total_consumed_bytes l \<le> total_reserved_bytes l"
proof -
  have l0: "holders_inv l0" "reserve_ceiling_bytes l0 = ceiling"
    using assms(1) by (auto simp: reserve_ledger_new_def holders_inv_def split: if_splits)
  then have "holders_inv l" "reserve_ceiling_bytes l = ceiling"
    using run_holders_inv [of l0 cs] assms(2-4) by simp_all
  then have r: "sum_list (map reserved_bytes (reserve_holders l)) \<le> ceiling"
    and c: "sum_list (map consumed_bytes (reserve_holders l)) \<le> sum_list (map reserved_bytes (reserve_holders l))"
    by (auto simp: holders_inv_def intro: sum_list_mono)
  with assms(2) show ?thesis
    by (simp add: total_reserved_bytes_def total_consumed_bytes_def wrapping_sum_exact)
qed

text \<open>Without the bound on a new holder the unchecked sum wraps and the ceiling is passed.\<close>

lemma holder_ceiling_bypassed:
  assumes "reserve_ledger_new i cls 0 1 = Some l0"
    and "h = \<lparr>holder_id = 1, holder_name = ''a'', reserved_bytes = 1, consumed_bytes = 0\<rparr>"
    and "h' = \<lparr>holder_id = 2, holder_name = ''b'', reserved_bytes = u64_max, consumed_bytes = 0\<rparr>"
  shows "fst (run_commands holder_step [AddHolder h, AddHolder h'] l0) = [Inr (), Inr ()]"
  using assms
  by (auto simp: reserve_ledger_new_def add_holder_def total_reserved_bytes_def wrapping_sum_def
      wrap_add64_def u64_max_def)

section \<open>Sample runs\<close>

definition sample_reserve :: reserve_ledger where
  "sample_reserve = \<lparr>reservation_id = 1, reserve_class = Operator, reserve_floor_bytes = 10,
     reserve_ceiling_bytes = 50, pressure_state = Healthy, reserve_holders = [], segment_capacity = 0,
     segments_reserved = 0, next_token_id = 1, token_generation = 1\<rparr>"

lemma sample_reserve_new: "reserve_ledger_new 1 Operator 10 50 = Some sample_reserve"
  by (simp add: reserve_ledger_new_def sample_reserve_def)

theorem pressure_state_reference_witness:
  "(100 :: nat) \<le> u64_max \<and> fst (reserve_evaluate_pressure 15 100 sample_reserve) = Encroached"
proof -
  have "(100 :: nat) \<le> u64_max" by (simp add: u64_max_def)
  with pressure_state_reference [OF this, of 15 sample_reserve] show ?thesis
    by (simp add: pressure_of_def sample_reserve_def)
qed

theorem reservations_conserved_witness:
  "(8 :: nat) \<le> u32_max \<and>
   segments_reserved (fst (snd (run_commands pool_step [Take 3, Take 9, Take 2, GiveBack 0, TakeCritical 4]
     (set_capacity 8 sample_reserve, [], 0)))) = 6"
proof -
  have c: "(8 :: nat) \<le> u32_max" by (simp add: u32_max_def)
  have r: "snd (run_commands pool_step [Take 3, Take 9, Take 2, GiveBack 0, TakeCritical 4]
     (set_capacity 8 sample_reserve, [], 0)) =
     (set_capacity 8 sample_reserve\<lparr>segments_reserved := 6, next_token_id := 3\<rparr>,
      [\<lparr>token_id = 2, generation = 1, token_count = 2\<rparr>], 4)"
    by (simp add: reserve_defs sample_reserve_def sat_add32_def u32_max_def wrap_add64_def)
  show ?thesis using reservations_conserved [OF sample_reserve_new c r] c unfolding r by simp
qed

theorem double_release_frees_others_witness:
  "\<exists>t l1 u l2. reserve 3 (set_capacity 8 sample_reserve) = (Inr t, l1) \<and> reserve 5 l1 = (Inr u, l2) \<and>
     segments_reserved (release t (release t l2)) = 2 \<and> token_count u = 5"
proof -
  let ?l = "set_capacity 8 sample_reserve"
  let ?l1 = "?l\<lparr>segments_reserved := 3, next_token_id := 2\<rparr>"
  let ?l2 = "?l\<lparr>segments_reserved := 8, next_token_id := 3\<rparr>"
  have c: "segment_capacity ?l \<le> u32_max" "segments_reserved ?l = 0"
    by (simp_all add: set_capacity_def sample_reserve_def u32_max_def)
  have "reserve 3 ?l = (Inr \<lparr>token_id = 1, generation = 1, token_count = 3\<rparr>, ?l1)"
    and "reserve 5 ?l1 = (Inr \<lparr>token_id = 2, generation = 1, token_count = 5\<rparr>, ?l2)"
    by (simp_all add: reserve_defs sample_reserve_def sat_add32_def u32_max_def wrap_add64_def)
  with double_release_frees_others [OF c this] show ?thesis by fastforce
qed

theorem reserve_holders_bounded_witness:
  "(50 :: nat) \<le> u64_max \<and>
   sane_holder 50 (AddHolder \<lparr>holder_id = 7, holder_name = ''planner'', reserved_bytes = 20, consumed_bytes = 0\<rparr>) \<and>
   total_reserved_bytes (snd (run_commands holder_step
     [AddHolder \<lparr>holder_id = 7, holder_name = ''planner'', reserved_bytes = 20, consumed_bytes = 0\<rparr>, Consume 7 5]
     sample_reserve)) \<le> 50"
proof -
  let ?h = "\<lparr>holder_id = 7, holder_name = ''planner'', reserved_bytes = 20, consumed_bytes = 0\<rparr>"
  have c: "(50 :: nat) \<le> u64_max" by (simp add: u64_max_def)
  have s: "\<forall>c \<in> set [AddHolder ?h, Consume 7 5]. sane_holder 50 c" by (simp add: u64_max_def)
  from reserve_holders_bounded [OF sample_reserve_new c s refl] c s show ?thesis by simp
qed

end
