(* ===== verification/Budget_Domain.thy ===== *)
theory Budget_Domain
  imports Reserve_Ledger
begin

text \<open>
  A budget domain binds a claim ledger and a reserve ledger: claims are admitted by the pressure
  state of the reserve and by the capacity of the domain.
\<close>

section \<open>Definitions\<close>

record budget_domain =
  domain_id :: budget_domain_id
  domain_name :: string
  total_capacity_bytes :: nat
  quota_ceiling_bytes :: "nat option"
  domain_claims :: claim_ledger
  domain_reserve :: reserve_ledger

datatype budget_domain_error =
    AdmissionDenied (denied_domain: string) (denied_class: claim_class) (denied_pressure: pressure_state)
      (denied_reason: string)
  | ClaimLedgerError claim_ledger_error
  | ReserveLedgerError reserve_ledger_error

definition budget_domain_new ::
    "budget_domain_id \<Rightarrow> string \<Rightarrow> nat \<Rightarrow> reserve_class \<Rightarrow> nat \<Rightarrow> nat \<Rightarrow> budget_domain option" where
  "budget_domain_new i name capacity cls floor_bytes ceiling =
     (case reserve_ledger_new 1 cls floor_bytes ceiling of
        None \<Rightarrow> None
      | Some rl \<Rightarrow>
          Some \<lparr>domain_id = i, domain_name = name, total_capacity_bytes = capacity,
                quota_ceiling_bytes = None, domain_claims = claim_ledger_new 1 i, domain_reserve = rl\<rparr>)"

definition free_bytes :: "budget_domain \<Rightarrow> nat" where
  "free_bytes d = total_capacity_bytes d - total_claimed_bytes (domain_claims d)
                    - total_reserved_bytes (domain_reserve d)"

definition domain_committed_bytes :: "budget_domain \<Rightarrow> nat" where
  "domain_committed_bytes d = total_committed_bytes (domain_claims d)"

definition available_product_bytes :: "budget_domain \<Rightarrow> nat" where
  "available_product_bytes d =
     (case quota_ceiling_bytes d of
        Some ceiling \<Rightarrow> min (ceiling - total_claimed_bytes (domain_claims d)) (free_bytes d)
      | None \<Rightarrow> free_bytes d)"

definition admit_claim ::
    "claim_entry \<Rightarrow> budget_domain \<Rightarrow> (budget_domain_error + claim_id) \<times> budget_domain" where
  "admit_claim e d =
     (if \<not> admits_product_writes (pressure_state (domain_reserve d)) \<and> \<not> is_reserve_class (claim_class e)
      then (Inl (AdmissionDenied (domain_name d) (claim_class e) (pressure_state (domain_reserve d))
                   ''pressure state does not admit non-reserve-class writes''), d)
      else case register_claim e (total_capacity_bytes d) (domain_claims d) of
             (Inl err, cl) \<Rightarrow> (Inl (ClaimLedgerError err), d\<lparr>domain_claims := cl\<rparr>)
           | (Inr i, cl) \<Rightarrow> (Inr i, d\<lparr>domain_claims := cl\<rparr>))"

definition domain_evaluate_pressure :: "budget_domain \<Rightarrow> pressure_state \<times> budget_domain" where
  "domain_evaluate_pressure d =
     (let (s, rl) = reserve_evaluate_pressure (free_bytes d) (total_capacity_bytes d) (domain_reserve d)
      in (s, d\<lparr>domain_reserve := rl\<rparr>))"

definition domain_release_claim :: "claim_id \<Rightarrow> budget_domain \<Rightarrow> budget_domain" where
  "domain_release_claim i d =
     (let d1 = d\<lparr>domain_claims := snd (release_claim i (domain_claims d))\<rparr>;
          rl = snd (reserve_evaluate_pressure (free_bytes d1) (total_capacity_bytes d1) (domain_reserve d1))
      in d1\<lparr>domain_reserve := rl\<rparr>)"

record budget_domain_report =
  rep_domain_id :: string
  rep_domain_name :: string
  rep_total_capacity :: nat
  rep_quota_ceiling :: "nat option"
  rep_claimed :: nat
  rep_committed :: nat
  rep_reserved :: nat
  rep_consumed_reserve :: nat
  rep_free :: nat
  rep_claim_count :: nat
  rep_pressure_state :: pressure_state
  rep_claim_report :: claim_ledger_report

definition domain_report :: "budget_domain \<Rightarrow> budget_domain_report" where
  "domain_report d =
     \<lparr>rep_domain_id = domain_id d, rep_domain_name = domain_name d,
      rep_total_capacity = total_capacity_bytes d, rep_quota_ceiling = quota_ceiling_bytes d,
      rep_claimed = total_claimed_bytes (domain_claims d),
      rep_committed = total_committed_bytes (domain_claims d),
      rep_reserved = total_reserved_bytes (domain_reserve d),
      rep_consumed_reserve = total_consumed_bytes (domain_reserve d), rep_free = free_bytes d,
      rep_claim_count = claim_count (domain_claims d),
      rep_pressure_state = pressure_state (domain_reserve d),
      rep_claim_report = claim_report (domain_claims d)\<rparr>"

section \<open>Operations on the domain\<close>

datatype domain_command = Admit claim_entry | Release claim_id | Evaluate

primrec domain_step :: "domain_command \<Rightarrow> budget_domain \<Rightarrow> bool \<times> budget_domain" where
  "domain_step (Admit e) d = (case admit_claim e d of (r, d') \<Rightarrow> (\<not> isl r, d'))"
| "domain_step (Release i) d = (True, domain_release_claim i d)"
| "domain_step Evaluate d = (True, snd (domain_evaluate_pressure d))"

definition domain_inv :: "budget_domain \<Rightarrow> bool" where
  "domain_inv d \<longleftrightarrow> total_capacity_bytes d < u64_max \<longrightarrow>
     ledger_bounded (total_capacity_bytes d) (domain_claims d)"

lemma admit_claim_state:
  "snd (admit_claim e d) = d \<or>
   snd (admit_claim e d) = d\<lparr>domain_claims := snd (register_claim e (total_capacity_bytes d) (domain_claims d))\<rparr>"
  by (auto simp: admit_claim_def split: prod.splits sum.splits)

lemma domain_step_inv: "domain_inv d \<Longrightarrow> domain_inv (snd (domain_step c d))"
proof (cases c)
  case (Admit e)
  assume "domain_inv d"
  moreover have "snd (domain_step c d) = snd (admit_claim e d)" by (simp add: Admit case_prod_beta)
  ultimately show ?thesis
    using admit_claim_state [of e d] by (auto simp: domain_inv_def register_claim_bounded)
next
  case (Release i)
  assume "domain_inv d"
  then show ?thesis
    by (simp add: Release domain_inv_def domain_release_claim_def Let_def release_claim_bounded)
next
  case Evaluate
  assume "domain_inv d"
  then show ?thesis by (simp add: Evaluate domain_inv_def domain_evaluate_pressure_def Let_def case_prod_beta)
qed

interpretation budget_machine: guarded_machine domain_step domain_inv
  by unfold_locales (rule domain_step_inv)

lemma evaluate_frame [simp]:
  "total_capacity_bytes (snd (domain_evaluate_pressure d)) = total_capacity_bytes d"
  "domain_claims (snd (domain_evaluate_pressure d)) = domain_claims d"
  "free_bytes (snd (domain_evaluate_pressure d)) = free_bytes d"
  by (simp_all add: domain_evaluate_pressure_def reserve_evaluate_pressure_def free_bytes_def
      total_reserved_bytes_def Let_def)

lemma step_params:
  "total_capacity_bytes (snd (domain_step c d)) = total_capacity_bytes d \<and>
   reserve_floor_bytes (domain_reserve (snd (domain_step c d))) = reserve_floor_bytes (domain_reserve d)"
proof (cases c)
  case (Admit e)
  then show ?thesis using admit_claim_state [of e d] by (auto simp: case_prod_beta)
qed (simp_all add: domain_release_claim_def domain_evaluate_pressure_def reserve_evaluate_pressure_def Let_def)

lemma run_params:
  "total_capacity_bytes (snd (run_commands domain_step cs d)) = total_capacity_bytes d \<and>
   reserve_floor_bytes (domain_reserve (snd (run_commands domain_step cs d))) = reserve_floor_bytes (domain_reserve d)"
  by (induction cs arbitrary: d) (simp_all add: case_prod_beta Let_def step_params)

lemma admit_claim_ok_iff:
  "(\<exists>i. fst (admit_claim e d) = Inr i) \<longleftrightarrow>
     (admits_product_writes (pressure_state (domain_reserve d)) \<or> is_reserve_class (claim_class e)) \<and>
     0 < claimed_bytes e \<and>
     sat_add64 (total_claimed_bytes (domain_claims d)) (claimed_bytes e) \<le> total_capacity_bytes d"
  by (auto simp: admit_claim_def register_claim_def Let_def)

lemma domain_pressure:
  assumes "total_capacity_bytes d \<le> u64_max"
  shows "pressure_state (domain_reserve (snd (domain_evaluate_pressure d)))
      = pressure_of (free_bytes d) (reserve_floor_bytes (domain_reserve d)) (total_capacity_bytes d)"
  using assms
  by (simp add: domain_evaluate_pressure_def reserve_evaluate_pressure_def pressure_transition_pressure_of
      Let_def case_prod_beta)

text \<open>
  C29. In every state a domain can reach, the claims fit its capacity; and after the pressure has
  been evaluated, a claim is admitted exactly if it is positive, fits the capacity together with
  the claims already held, and is either of a reserve class or meets a positive reserve floor that
  is covered by the free bytes. Bytes reserved by holders and the quota ceiling do not enter.
\<close>

theorem domain_admission_characterised:
  assumes "budget_domain_new i name capacity cls floor_bytes ceiling = Some d0" and "capacity < u64_max"
    and "snd (run_commands domain_step (cs @ [Evaluate]) d0) = d"
  shows "sum_list (map claimed_bytes (claim_entries (domain_claims d))) \<le> total_claimed_bytes (domain_claims d) \<and>
    total_claimed_bytes (domain_claims d) \<le> capacity \<and>
    ((\<exists>j. fst (admit_claim e d) = Inr j) \<longleftrightarrow>
      0 < claimed_bytes e \<and> total_claimed_bytes (domain_claims d) + claimed_bytes e \<le> capacity \<and>
      (is_reserve_class (claim_class e) \<or> 0 < floor_bytes \<and> floor_bytes \<le> free_bytes d))"
proof -
  define d1 where "d1 = snd (run_commands domain_step cs d0)"
  have d: "d = snd (domain_evaluate_pressure d1)"
    using assms(3) by (simp add: d1_def run_commands_append case_prod_beta Let_def)
  have d0: "domain_inv d0" "total_capacity_bytes d0 = capacity" "reserve_floor_bytes (domain_reserve d0) = floor_bytes"
    using assms(1) by (auto simp: budget_domain_new_def domain_inv_def reserve_ledger_new_def split: if_splits option.splits)
  have d1: "total_capacity_bytes d1 = capacity" "reserve_floor_bytes (domain_reserve d1) = floor_bytes" "domain_inv d1"
    using run_params [of cs d0] d0 budget_machine.run_inv [OF d0(1), of cs] by (simp_all add: d1_def)
  have same: "total_capacity_bytes d = capacity" "domain_claims d = domain_claims d1" "free_bytes d = free_bytes d1"
    using d1 by (simp_all add: d evaluate_frame)
  have b: "ledger_bounded capacity (domain_claims d)" using d1 assms(2) by (simp add: same domain_inv_def)
  have "pressure_state (domain_reserve d) = pressure_of (free_bytes d) floor_bytes capacity"
    using domain_pressure [of d1] d1 assms(2) by (simp add: d evaluate_frame)
  moreover have "free_bytes d \<le> capacity" by (simp add: free_bytes_def same)
  ultimately have adm: "admits_product_writes (pressure_state (domain_reserve d)) \<longleftrightarrow>
      0 < floor_bytes \<and> floor_bytes \<le> free_bytes d"
    by (auto simp: pressure_of_def Let_def admits_product_writes_def)
  have "sat_add64 (total_claimed_bytes (domain_claims d)) (claimed_bytes e) \<le> capacity \<longleftrightarrow>
      total_claimed_bytes (domain_claims d) + claimed_bytes e \<le> capacity"
    using assms(2) by (auto simp: sat_add64_def)
  with b adm show ?thesis
    unfolding admit_claim_ok_iff by (auto simp: same ledger_bounded_def outstanding_def)
qed

section \<open>A product claim takes reserved bytes\<close>

text \<open>
  A domain of 100 bytes whose holders reserve 50 of them, healthy: no product bytes beyond 50 are
  available, yet a product claim for all 100 bytes is admitted.
\<close>

definition sample_domain :: budget_domain where
  "sample_domain =
     \<lparr>domain_id = ''d'', domain_name = ''d'', total_capacity_bytes = 100, quota_ceiling_bytes = None,
      domain_claims = claim_ledger_new 1 ''d'', domain_reserve = sample_reserve\<rparr>"

lemma sample_domain_new: "budget_domain_new ''d'' ''d'' 100 Operator 10 50 = Some sample_domain"
  unfolding budget_domain_new_def sample_reserve_new sample_domain_def by simp

lemma product_claim_takes_reserve:
  assumes "h = \<lparr>holder_id = 1, holder_name = ''planner'', reserved_bytes = 50, consumed_bytes = 0\<rparr>"
    and "d = sample_domain\<lparr>domain_reserve := snd (add_holder h sample_reserve)\<rparr>"
  shows "available_product_bytes d = 50"
    and "fst (admit_claim (claim_entry_new [1] (Service ''app'') Product 100) d) = Inr [1]"
  using assms
  by (simp_all add: sample_domain_def sample_reserve_def add_holder_def total_reserved_bytes_def wrapping_sum_def
      wrap_add64_def Let_def available_product_bytes_def free_bytes_def claim_ledger_new_def admit_claim_def
      admits_product_writes_def register_claim_def claim_entry_new_def sat_add64_def u64_max_def)

theorem domain_admission_characterised_witness:
  "(100 :: nat) < u64_max \<and>
   (\<exists>j. fst (admit_claim (claim_entry_new [2] (Service ''app'') Product 30)
      (snd (run_commands domain_step ([Admit (claim_entry_new [1] (Service ''app'') Product 70)] @ [Evaluate])
        sample_domain))) = Inr j)"
proof -
  let ?d = "snd (run_commands domain_step ([Admit (claim_entry_new [1] (Service ''app'') Product 70)] @ [Evaluate])
        sample_domain)"
  have c: "(100 :: nat) < u64_max" by (simp add: u64_max_def)
  have "total_claimed_bytes (domain_claims ?d) = 70" "free_bytes ?d = 30"
    by (simp_all add: sample_domain_def sample_reserve_def total_reserved_bytes_def wrapping_sum_def
        Let_def free_bytes_def claim_ledger_new_def admit_claim_def domain_evaluate_pressure_def case_prod_beta
        reserve_evaluate_pressure_def
        admits_product_writes_def register_claim_def claim_entry_new_def sat_add64_def u64_max_def)
  with domain_admission_characterised [OF sample_domain_new c refl,
      where e = "claim_entry_new [2] (Service ''app'') Product 30"
        and cs = "[Admit (claim_entry_new [1] (Service ''app'') Product 70)]"] c
  show ?thesis by (simp add: claim_entry_new_def)
qed

end
