(* ===== verification/Reserve_Receipts.thy ===== *)
theory Reserve_Receipts
  imports Reserve_Ledger
begin

text \<open>
  Receipts of reserve allocations and releases, the log that collects them, and the conservation
  audit over a log. The audit works with saturating and checked 64-bit sums; its reference is the
  signed balance of every prefix of the log in unbounded integers.
\<close>

section \<open>Definitions\<close>

datatype validation_tier = Informational | Authoritative

datatype receipt_operation = Allocate | Release

record reserve_receipt =
  receipt_id :: nat
  receipt_class :: reserve_class
  receipt_domain :: budget_domain_id
  receipt_bytes :: nat
  receipt_operation :: receipt_operation
  receipt_pressure :: pressure_state
  receipt_tier :: validation_tier

definition receipt_allocate ::
    "nat \<Rightarrow> reserve_class \<Rightarrow> budget_domain_id \<Rightarrow> nat \<Rightarrow> pressure_state \<Rightarrow> validation_tier \<Rightarrow> reserve_receipt" where
  "receipt_allocate i cls bd bytes p tier =
     \<lparr>receipt_id = i, receipt_class = cls, receipt_domain = bd, receipt_bytes = bytes,
      receipt_operation = Allocate, receipt_pressure = p, receipt_tier = tier\<rparr>"

definition receipt_release ::
    "nat \<Rightarrow> reserve_class \<Rightarrow> budget_domain_id \<Rightarrow> nat \<Rightarrow> pressure_state \<Rightarrow> validation_tier \<Rightarrow> reserve_receipt" where
  "receipt_release i cls bd bytes p tier =
     \<lparr>receipt_id = i, receipt_class = cls, receipt_domain = bd, receipt_bytes = bytes,
      receipt_operation = Release, receipt_pressure = p, receipt_tier = tier\<rparr>"

record receipt_log =
  log_receipts :: "reserve_receipt list"
  log_next_id :: nat

definition receipt_log_new :: receipt_log where
  "receipt_log_new = \<lparr>log_receipts = [], log_next_id = 1\<rparr>"

definition record_allocate ::
    "reserve_class \<Rightarrow> budget_domain_id \<Rightarrow> nat \<Rightarrow> pressure_state \<Rightarrow> validation_tier \<Rightarrow> receipt_log \<Rightarrow> nat \<times> receipt_log" where
  "record_allocate cls bd bytes p tier l =
     (log_next_id l,
      l\<lparr>log_next_id := wrap_add64 (log_next_id l) 1,
        log_receipts := log_receipts l @ [receipt_allocate (log_next_id l) cls bd bytes p tier]\<rparr>)"

definition record_release ::
    "reserve_class \<Rightarrow> budget_domain_id \<Rightarrow> nat \<Rightarrow> pressure_state \<Rightarrow> validation_tier \<Rightarrow> receipt_log \<Rightarrow> nat \<times> receipt_log" where
  "record_release cls bd bytes p tier l =
     (log_next_id l,
      l\<lparr>log_next_id := wrap_add64 (log_next_id l) 1,
        log_receipts := log_receipts l @ [receipt_release (log_next_id l) cls bd bytes p tier]\<rparr>)"

definition saturating_total :: "reserve_receipt list \<Rightarrow> nat" where
  "saturating_total rs = fold (\<lambda>r total. sat_add64 total (receipt_bytes r)) rs 0"

definition total_admitted_bytes :: "receipt_log \<Rightarrow> nat" where
  "total_admitted_bytes l = saturating_total (filter (\<lambda>r. receipt_operation r = Allocate) (log_receipts l))"

definition total_released_bytes :: "receipt_log \<Rightarrow> nat" where
  "total_released_bytes l = saturating_total (filter (\<lambda>r. receipt_operation r = Release) (log_receipts l))"

definition net_admitted_bytes :: "receipt_log \<Rightarrow> nat" where
  "net_admitted_bytes l = total_admitted_bytes l - total_released_bytes l"

definition admitted_for :: "budget_domain_id \<Rightarrow> reserve_class \<Rightarrow> receipt_log \<Rightarrow> nat" where
  "admitted_for bd cls l =
     saturating_total (filter (\<lambda>r. receipt_operation r = Allocate \<and> receipt_domain r = bd \<and>
                                   receipt_class r = cls) (log_receipts l))"

definition released_for :: "budget_domain_id \<Rightarrow> reserve_class \<Rightarrow> receipt_log \<Rightarrow> nat" where
  "released_for bd cls l =
     saturating_total (filter (\<lambda>r. receipt_operation r = Release \<and> receipt_domain r = bd \<and>
                                   receipt_class r = cls) (log_receipts l))"

definition net_for :: "budget_domain_id \<Rightarrow> reserve_class \<Rightarrow> receipt_log \<Rightarrow> nat" where
  "net_for bd cls l = admitted_for bd cls l - released_for bd cls l"

datatype conservation_violation =
    UnderflowRelease (uf_allocated: nat) (uf_released: nat) (uf_domain: string) (uf_class: string)
  | OverAdmission (oa_admitted: nat) (oa_ceiling: nat) (oa_domain: string) (oa_class: string)
  | FloorBreachWithoutViolation (fb_free: nat) (fb_floor: nat) (fb_pressure: string) (fb_domain: string)
  | ProductWriteWhileViolated (pw_domain: string) (pw_pressure: string)
  | ReleaseWithoutAllocation (ra_domain: string) (ra_class: string) (ra_released: nat) (ra_admitted: nat)

definition checked_add64 :: "nat \<Rightarrow> nat \<Rightarrow> nat option" where
  "checked_add64 a b = (if a + b \<le> u64_max then Some (a + b) else None)"

definition is_violated :: "reserve_receipt \<Rightarrow> bool" where
  "is_violated r \<longleftrightarrow> receipt_pressure r = Violated \<or> receipt_pressure r = Emergency"

fun audit_scan ::
    "nat \<Rightarrow> string \<Rightarrow> string \<Rightarrow> reserve_receipt list \<Rightarrow> nat \<Rightarrow> bool \<Rightarrow> conservation_violation list" where
  "audit_scan ceiling bd cls [] balance reported = []"
| "audit_scan ceiling bd cls (r # rs) balance reported =
     (case receipt_operation r of
        Allocate \<Rightarrow>
          let next_balance = checked_add64 balance (receipt_bytes r);
              balance' = (case next_balance of Some b \<Rightarrow> b | None \<Rightarrow> u64_max)
          in if \<not> reported \<and> (next_balance = None \<or> balance' > ceiling)
             then OverAdmission balance' ceiling bd cls # audit_scan ceiling bd cls rs balance' True
             else audit_scan ceiling bd cls rs balance' reported
      | Release \<Rightarrow>
          if receipt_bytes r > balance
          then ReleaseWithoutAllocation bd cls (receipt_bytes r) balance
                 # audit_scan ceiling bd cls rs 0 reported
          else audit_scan ceiling bd cls rs (balance - receipt_bytes r) reported)"

definition audit_pairs :: "reserve_receipt list \<Rightarrow> (budget_domain_id \<times> reserve_class) list" where
  "audit_pairs rs =
     fold (\<lambda>r pairs. let key = (receipt_domain r, receipt_class r)
                     in if key \<in> set pairs then pairs else pairs @ [key]) rs []"

definition audit_pair ::
    "reserve_receipt list \<Rightarrow> nat \<Rightarrow> budget_domain_id \<times> reserve_class \<Rightarrow> conservation_violation list" where
  "audit_pair rs ceiling pair =
     (case pair of (bd, cls) \<Rightarrow>
       let admitted = saturating_total (filter (\<lambda>r. receipt_operation r = Allocate \<and> receipt_class r = cls) rs);
           released = saturating_total (filter (\<lambda>r. receipt_operation r = Release \<and> receipt_class r = cls) rs)
       in (if released > admitted
           then [UnderflowRelease admitted released bd (reserve_class_as_str cls)] else [])
          @ audit_scan ceiling bd (reserve_class_as_str cls) (filter (\<lambda>r. receipt_class r = cls) rs) 0 False)"

definition audit_floor :: "reserve_receipt list \<Rightarrow> nat \<Rightarrow> nat \<Rightarrow> conservation_violation list" where
  "audit_floor rs floor_bytes free =
     (if free < floor_bytes
      then case find (\<lambda>r. \<not> is_violated r) rs of
             None \<Rightarrow> []
           | Some r \<Rightarrow> [FloorBreachWithoutViolation free floor_bytes (pressure_as_str (receipt_pressure r))
                         (receipt_domain r)]
      else [])"

definition audit_product :: "reserve_receipt list \<Rightarrow> conservation_violation list" where
  "audit_product rs =
     map (\<lambda>r. ProductWriteWhileViolated (receipt_domain r) (pressure_as_str (receipt_pressure r)))
       (filter (\<lambda>r. receipt_operation r = Allocate \<and> is_violated r \<and> receipt_class r = Snapshot) rs)"

definition conservation_audit ::
    "reserve_receipt list \<Rightarrow> reserve_ledger \<Rightarrow> budget_domain_id \<Rightarrow> nat \<Rightarrow> conservation_violation list + unit" where
  "conservation_audit receipts l bd free =
     (let rs = filter (\<lambda>r. receipt_domain r = bd) receipts;
          violations = concat (map (audit_pair rs (reserve_ceiling_bytes l)) (audit_pairs rs))
                         @ audit_floor rs (reserve_floor_bytes l) free @ audit_product rs
      in if violations = [] then Inr () else Inl violations)"

section \<open>Balances of a log\<close>

definition signed_bytes :: "reserve_receipt \<Rightarrow> int" where
  "signed_bytes r = (case receipt_operation r of Allocate \<Rightarrow> int (receipt_bytes r)
                                               | Release \<Rightarrow> - int (receipt_bytes r))"

definition balance :: "reserve_receipt list \<Rightarrow> int" where
  "balance rs = sum_list (map signed_bytes rs)"

lemma balance_simps [simp]: "balance [] = 0" "balance (r # rs) = signed_bytes r + balance rs"
  by (simp_all add: balance_def)

lemma all_take_Cons: "(\<forall>n. P (take n (x # xs))) \<longleftrightarrow> P [] \<and> (\<forall>n. P (x # take n xs))"
  by (metis take0 take_Suc_Cons not0_implies_Suc)

text \<open>While nothing was reported, the scan is clean exactly if all balances stay within the bounds.\<close>

lemma audit_scan_clean:
  assumes "ceiling \<le> u64_max" and "b \<le> ceiling"
  shows "audit_scan ceiling bd cls rs b False = [] \<longleftrightarrow>
    (\<forall>n. 0 \<le> int b + balance (take n rs) \<and> int b + balance (take n rs) \<le> int ceiling)"
  using assms(2)
proof (induction rs arbitrary: b)
  case (Cons r rs)
  let ?in = "\<lambda>b xs. 0 \<le> int b + balance xs \<and> int b + balance xs \<le> int ceiling"
  have split: "(\<forall>n. ?in b (take n (r # rs))) \<longleftrightarrow> (\<forall>n. ?in b (r # take n rs))"
    using all_take_Cons [of "?in b" r rs] Cons.prems by simp
  have start: "?in b [r]" if "\<forall>n. ?in b (r # take n rs)" using spec [OF that, of 0] by simp
  show ?case
  proof (cases "receipt_operation r")
    case Allocate
    show ?thesis
    proof (cases "b + receipt_bytes r \<le> ceiling")
      case True
      then have "audit_scan ceiling bd cls (r # rs) b False
          = audit_scan ceiling bd cls rs (b + receipt_bytes r) False"
        using assms(1) Allocate by (simp add: checked_add64_def)
      with Cons.IH [OF True] show ?thesis
        unfolding split by (simp add: signed_bytes_def Allocate add.assoc)
    next
      case False
      then have "\<not> ?in b [r]" using Allocate by (simp add: signed_bytes_def)
      with start show ?thesis unfolding split using False Allocate
        by (auto simp: checked_add64_def Let_def)
    qed
  next
    case Release
    show ?thesis
    proof (cases "receipt_bytes r \<le> b")
      case True
      have "b - receipt_bytes r \<le> ceiling" using Cons.prems by simp
      from Cons.IH [OF this] True show ?thesis
        unfolding split by (simp add: signed_bytes_def Release of_nat_diff algebra_simps)
    next
      case False
      then have "\<not> ?in b [r]" using Release by (simp add: signed_bytes_def)
      with start show ?thesis unfolding split using False Release by auto
    qed
  qed
qed simp

lemma saturating_total_eq: "saturating_total rs = min (sum_list (map receipt_bytes rs)) u64_max"
proof -
  have "fold (\<lambda>r total. sat_add64 total (receipt_bytes r)) rs v = min (v + sum_list (map receipt_bytes rs)) u64_max"
    if "v \<le> u64_max" for v using that
  proof (induction rs arbitrary: v)
    case (Cons r rs)
    from Cons.IH [of "sat_add64 v (receipt_bytes r)"] show ?case by (simp add: sat_add64_def min_def)
  qed simp
  then show ?thesis by (simp add: saturating_total_def)
qed

lemma balance_split:
  "balance (filter (\<lambda>r. receipt_class r = cls) rs) =
     int (sum_list (map receipt_bytes (filter (\<lambda>r. receipt_operation r = Allocate \<and> receipt_class r = cls) rs)))
     - int (sum_list (map receipt_bytes (filter (\<lambda>r. receipt_operation r = Release \<and> receipt_class r = cls) rs)))"
  by (induction rs) (auto simp: signed_bytes_def split: receipt_operation.splits)

lemma audit_pair_clean:
  assumes "ceiling \<le> u64_max"
  shows "audit_pair rs ceiling (bd, cls) = [] \<longleftrightarrow>
    (\<forall>n. 0 \<le> balance (take n (filter (\<lambda>r. receipt_class r = cls) rs)) \<and>
         balance (take n (filter (\<lambda>r. receipt_class r = cls) rs)) \<le> int ceiling)"
    (is "_ \<longleftrightarrow> (\<forall>n. ?in n)")
proof -
  let ?c = "filter (\<lambda>r. receipt_class r = cls) rs"
  have "\<not> saturating_total (filter (\<lambda>r. receipt_operation r = Release \<and> receipt_class r = cls) rs)
      > saturating_total (filter (\<lambda>r. receipt_operation r = Allocate \<and> receipt_class r = cls) rs)"
    if "\<forall>n. ?in n"
  proof -
    have "0 \<le> balance ?c" using spec [OF that, of "length ?c"] by simp
    then show ?thesis unfolding saturating_total_eq balance_split by linarith
  qed
  then show ?thesis
    using audit_scan_clean [OF assms, of 0 bd "reserve_class_as_str cls" ?c]
    by (auto simp: audit_pair_def Let_def)
qed

lemma set_audit_pairs: "set (audit_pairs rs) = (\<lambda>r. (receipt_domain r, receipt_class r)) ` set rs"
proof -
  have "set (fold (\<lambda>r pairs. let key = (receipt_domain r, receipt_class r)
      in if key \<in> set pairs then pairs else pairs @ [key]) rs ps)
    = set ps \<union> (\<lambda>r. (receipt_domain r, receipt_class r)) ` set rs" for ps
    by (induction rs arbitrary: ps) (auto simp: Let_def)
  then show ?thesis by (simp add: audit_pairs_def)
qed

lemma audit_floor_clean: "audit_floor rs floor_bytes free = [] \<longleftrightarrow> (free < floor_bytes \<longrightarrow> (\<forall>r \<in> set rs. is_violated r))"
  by (auto simp: audit_floor_def find_None_iff split: option.splits dest: find_SomeD)

lemma all_values: "(\<And>c. \<forall>r \<in> A. g r \<noteq> c \<Longrightarrow> P c) \<Longrightarrow> (\<forall>r \<in> A. P (g r)) \<longleftrightarrow> (\<forall>c. P c)"
  by metis

text \<open>
  C25. The conservation audit accepts a log exactly if it is conserved: in every prefix of the
  domain's receipts, the bytes of each reserve class allocated minus released are neither negative nor
  above the ceiling; while the free bytes are below the floor every receipt records a violated or emergency
  state; and no snapshot allocation happened in such a state. Saturating and checked 64-bit
  arithmetic hide no violation and invent none.
\<close>

theorem conservation_audit_correct:
  assumes "reserve_ceiling_bytes l \<le> u64_max" and "rs = filter (\<lambda>r. receipt_domain r = bd) receipts"
  shows "conservation_audit receipts l bd free = Inr () \<longleftrightarrow>
    (\<forall>cls n. 0 \<le> balance (take n (filter (\<lambda>r. receipt_class r = cls) rs)) \<and>
       balance (take n (filter (\<lambda>r. receipt_class r = cls) rs)) \<le> int (reserve_ceiling_bytes l)) \<and>
    (free < reserve_floor_bytes l \<longrightarrow> (\<forall>r \<in> set rs. is_violated r)) \<and>
    (\<forall>r \<in> set rs. \<not> (receipt_operation r = Allocate \<and> is_violated r \<and> receipt_class r = Snapshot))"
proof -
  let ?in = "\<lambda>cls. \<forall>n. 0 \<le> balance (take n (filter (\<lambda>r. receipt_class r = cls) rs)) \<and>
       balance (take n (filter (\<lambda>r. receipt_class r = cls) rs)) \<le> int (reserve_ceiling_bytes l)"
  have "(\<forall>r \<in> set rs. ?in (receipt_class r)) \<longleftrightarrow> (\<forall>cls. ?in cls)"
    by (rule all_values) (simp add: filter_False)
  moreover have "concat (map (audit_pair rs (reserve_ceiling_bytes l)) (audit_pairs rs)) = [] \<longleftrightarrow>
      (\<forall>r \<in> set rs. ?in (receipt_class r))"
    by (simp add: set_audit_pairs audit_pair_clean [OF assms(1)])
  moreover have "audit_product rs = [] \<longleftrightarrow>
      (\<forall>r \<in> set rs. \<not> (receipt_operation r = Allocate \<and> is_violated r \<and> receipt_class r = Snapshot))"
    by (simp add: audit_product_def filter_empty_conv)
  moreover have "conservation_audit receipts l bd free = Inr () \<longleftrightarrow>
      concat (map (audit_pair rs (reserve_ceiling_bytes l)) (audit_pairs rs)) = [] \<and>
      audit_floor rs (reserve_floor_bytes l) free = [] \<and> audit_product rs = []"
    unfolding conservation_audit_def Let_def assms(2) [symmetric] by simp
  ultimately show ?thesis unfolding audit_floor_clean by blast
qed

section \<open>Sample log\<close>

definition sample_log :: receipt_log where
  "sample_log =
     snd (record_release Operator ''d'' 40 Healthy Authoritative
       (snd (record_allocate Operator ''d'' 40 Healthy Authoritative receipt_log_new)))"

theorem conservation_audit_correct_witness:
  "reserve_ceiling_bytes sample_reserve \<le> u64_max \<and>
   conservation_audit (log_receipts sample_log) sample_reserve ''d'' 20 = Inr () \<and>
   balance (take 1 (filter (\<lambda>r. receipt_class r = Operator) (log_receipts sample_log))) \<le> 50"
proof -
  have c: "reserve_ceiling_bytes sample_reserve \<le> u64_max" by (simp add: sample_reserve_def u64_max_def)
  have rs: "log_receipts sample_log = filter (\<lambda>r. receipt_domain r = ''d'') (log_receipts sample_log)"
    by (simp add: sample_log_def record_allocate_def record_release_def receipt_allocate_def receipt_release_def
        receipt_log_new_def)
  have "conservation_audit (log_receipts sample_log) sample_reserve ''d'' 20 = Inr ()"
    by (simp add: sample_log_def record_allocate_def record_release_def receipt_allocate_def receipt_release_def
        receipt_log_new_def conservation_audit_def audit_pairs_def audit_pair_def audit_floor_def audit_product_def
        sample_reserve_def saturating_total_def sat_add64_def checked_add64_def u64_max_def Let_def)
  with conservation_audit_correct [OF c rs, of 20] c show ?thesis by (simp add: sample_reserve_def)
qed

end
