(* ===== verification/Gf256.thy ===== *)
theory Gf256
  imports Le_Bytes
begin

text \<open>
  Arithmetic of the finite field with 256 elements, as the erasure coder computes it: exponent and
  logarithm tables for the polynomial 0x11D, multiplication and division by table look-up. The
  tables are shown to compute polynomial multiplication modulo 0x11D, and bytes with exclusive or and
  this multiplication are an instance of the type class of fields.
\<close>

unbundle bit_operations_syntax

named_theorems gf_simps \<open>field operations on bytes, carried over to the field type\<close>

section \<open>Definitions\<close>

definition gf_step :: "16 word \<Rightarrow> 16 word" where
  "gf_step x = (let y = push_bit 1 x in if y AND 0x100 \<noteq> 0 then y XOR 0x11D else y)"

primrec gf_powers :: "nat \<Rightarrow> 16 word \<Rightarrow> byte list" where
  "gf_powers 0 x = []"
| "gf_powers (Suc n) x = ucast x # gf_powers n (gf_step x)"

definition gf_exp :: "byte list" where
  "gf_exp = (let e = gf_powers 255 1 in (e @ e)[255 := 1, 509 := 1])"

definition gf_log :: "nat list" where
  "gf_log = fold (\<lambda>i l. l[unat (gf_exp ! i) := i]) [0..<255] (replicate 256 0)"

definition gf_mul :: "byte \<Rightarrow> byte \<Rightarrow> byte" where
  "gf_mul a b = (if a = 0 \<or> b = 0 then 0 else gf_exp ! (gf_log ! unat a + gf_log ! unat b))"

definition gf_div :: "byte \<Rightarrow> byte \<Rightarrow> byte" where
  "gf_div a b =
     (if a = 0 \<or> b = 0 then 0
      else let la = gf_log ! unat a; lb = gf_log ! unat b in gf_exp ! nat ((int la - int lb + 255) mod 255))"

definition gf_inv :: "byte \<Rightarrow> byte" where
  "gf_inv a = gf_div 1 a"

section \<open>Multiplication by the generator\<close>

definition xtime :: "byte \<Rightarrow> byte" where
  "xtime b = push_bit 1 b XOR (if bit b 7 then 0x1D else 0)"

abbreviation gfe :: "nat \<Rightarrow> byte" where
  "gfe i \<equiv> (xtime ^^ i) 1"

lemma bit_xtime: "bit (xtime b) n \<longleftrightarrow> n < 8 \<and> ((0 < n \<and> bit b (n - 1)) \<noteq> (bit b 7 \<and> bit (0x1D :: byte) n))"
  unfolding xtime_def bit_xor_iff bit_push_bit_iff by (auto dest: bit_imp_le_length)

lemma xtime_xor: "xtime (a XOR b) = xtime a XOR xtime b"
  by (rule bit_word_eqI) (auto simp: bit_xtime bit_xor_iff)

lemma xtime_0 [simp]: "xtime 0 = 0"
  by (simp add: xtime_def)

lemma funpow_xtime_xor: "(xtime ^^ n) (a XOR b) = (xtime ^^ n) a XOR (xtime ^^ n) b"
  by (induction n) (simp_all add: xtime_xor)

lemma funpow_xtime_0 [simp]: "(xtime ^^ n) 0 = 0"
  by (induction n) simp_all

lemma xtime_eq_0 [simp]: "xtime a = 0 \<longleftrightarrow> a = 0"
proof
  assume z: "xtime a = 0"
  have top: "\<not> bit a 7" using bit_xtime [of a 0] by (simp add: z)
  have "\<not> bit a n" for n
  proof -
    consider "n < 7" | "n = 7" | "8 \<le> n" by linarith
    then show ?thesis
      by cases (use bit_xtime [of a "Suc n"] top bit_imp_le_length [of a n] in \<open>auto simp: z\<close>)
  qed
  then show "a = 0" by (intro bit_word_eqI) simp
qed simp

lemma xor_eq_0_iff: "a XOR b = 0 \<longleftrightarrow> a = (b :: byte)"
proof
  assume "a XOR b = 0"
  then have "(a XOR b) XOR b = b" by simp
  then show "a = b" by (simp add: xor.assoc)
qed simp

lemma xtime_inject [simp]: "xtime a = xtime b \<longleftrightarrow> a = b"
  using xtime_eq_0 [of "a XOR b"] by (simp only: xtime_xor xor_eq_0_iff)

lemma funpow_xtime_inject [simp]: "(xtime ^^ n) a = (xtime ^^ n) b \<longleftrightarrow> a = b"
  by (induction n) simp_all

lemma gfe_add: "gfe (i + j) = (xtime ^^ i) (gfe j)"
  by (simp add: funpow_add)

lemma gfe_nonzero [simp]: "gfe i \<noteq> 0"
  using funpow_xtime_inject [of i 1 0] by simp

section \<open>The generator has order 255\<close>

primrec xtime_list :: "nat \<Rightarrow> byte \<Rightarrow> byte list" where
  "xtime_list 0 x = []"
| "xtime_list (Suc n) x = x # xtime_list n (xtime x)"

lemma xtime_list_numeral: "xtime_list (numeral k) x = x # xtime_list (pred_numeral k) (xtime x)"
  by (simp add: numeral_eq_Suc)

lemma xtime_list_funpow: "xtime_list n x = map (\<lambda>i. (xtime ^^ i) x) [0..<n]"
  by (induction n arbitrary: x)
     (simp_all add: upt_conv_Cons map_Suc_upt [symmetric] funpow_Suc_right del: upt_Suc funpow.simps)

lemma funpow_xtime_numeral: "(xtime ^^ numeral k) x = (xtime ^^ pred_numeral k) (xtime x)"
  by (simp add: numeral_eq_Suc funpow_Suc_right del: funpow.simps)

lemma gfe_255: "gfe 255 = 1"
  by (simp add: funpow_xtime_numeral xtime_def)

lemma gfe_no_smaller_period: "1 \<notin> set (xtime_list 254 2)"
  by (simp add: xtime_list_numeral xtime_def)

lemma gfe_not_1:
  assumes "0 < d" and "d < 255"
  shows "gfe d \<noteq> 1"
proof
  assume one: "gfe d = 1"
  obtain i where d: "d = Suc i" using assms(1) by (cases d) auto
  have "xtime 1 = 2" by (simp add: xtime_def)
  then have "(xtime ^^ i) 2 = 1" using one by (simp add: d funpow_Suc_right del: funpow.simps)
  then have "1 \<in> set (xtime_list 254 2)"
    using assms(2) by (force simp: xtime_list_funpow d image_iff)
  then show False using gfe_no_smaller_period by contradiction
qed

lemma gfe_inj: "inj_on gfe {..<255}"
proof (rule linorder_inj_onI)
  fix i j :: nat
  assume "i < j" "j \<in> {..<255}"
  then have "gfe (j - i) \<noteq> 1" by (intro gfe_not_1) auto
  then have "(xtime ^^ i) (gfe (j - i)) \<noteq> gfe i" by simp
  then show "gfe i \<noteq> gfe j" using gfe_add [of i "j - i"] \<open>i < j\<close> by simp
qed auto

lemma gfe_surj:
  assumes "b \<noteq> 0"
  obtains i where "i < 255" "b = gfe i"
proof -
  have u: "card (UNIV :: byte set) = 256" by (simp add: card_word)
  have "card (gfe ` {..<255}) = card (UNIV - {0 :: byte})"
    using card_image [OF gfe_inj] by (simp add: card_Diff_singleton u)
  moreover have "gfe ` {..<255} \<subseteq> UNIV - {0}" using gfe_nonzero by auto
  ultimately have "gfe ` {..<255} = UNIV - {0}" by (intro card_subset_eq) simp_all
  then show ?thesis using assms that by blast
qed

section \<open>The tables\<close>

lemma upt_8: "[0..<8] = [0, 1, 2, 3, 4, 5, 6, 7]"
  by (simp add: upt_rec)

lemma polynomial_low_bits:
  assumes "n < 8"
  shows "bit (0x11D :: 16 word) n \<longleftrightarrow> bit (0x1D :: byte) n"
proof -
  have "list_all (\<lambda>n. bit (0x11D :: 16 word) n \<longleftrightarrow> bit (0x1D :: byte) n) [0..<8]"
    unfolding upt_8 by simp
  then show ?thesis using assms by (simp only: list_all_iff set_upt atLeastLessThan_iff) simp
qed

lemma polynomial_high_bits:
  assumes "9 \<le> n"
  shows "\<not> bit (0x11D :: 16 word) n"
proof
  assume b: "bit (0x11D :: 16 word) n"
  then have "n < 16" using bit_imp_le_length by fastforce
  moreover have "list_all (\<lambda>n. \<not> bit (0x11D :: 16 word) n) [9..<16]" by simp
  ultimately show False using assms b by (simp only: list_all_iff set_upt atLeastLessThan_iff)
qed

definition fits_byte :: "16 word \<Rightarrow> bool" where
  "fits_byte x \<longleftrightarrow> (\<forall>n \<ge> 8. \<not> bit x n)"

lemma gf_step_xtime:
  assumes "fits_byte x"
  shows "ucast (gf_step x) = xtime (ucast x)" and "fits_byte (gf_step x)"
proof -
  have c: "push_bit 1 x AND 0x100 \<noteq> 0 \<longleftrightarrow> bit x 7"
    using bit_iff_and_push_bit_not_eq_0 [of "push_bit 1 x" 8, unfolded bit_push_bit_iff] by simp
  have b: "bit (gf_step x) n \<longleftrightarrow> n < 16 \<and> (0 < n \<and> bit x (n - 1)) \<noteq> (bit x 7 \<and> bit (0x11D :: 16 word) n)" for n
    unfolding gf_step_def Let_def c
    by (cases "bit x 7"; simp only: if_True if_False bit_xor_iff bit_push_bit_iff) (auto dest: bit_imp_le_length)
  show "ucast (gf_step x) = xtime (ucast x)"
  proof (rule bit_word_eqI)
    fix n
    assume n: "n < LENGTH(8)"
    show "bit (ucast (gf_step x) :: byte) n \<longleftrightarrow> bit (xtime (ucast x)) n"
      using n polynomial_low_bits [of n] by (auto simp: bit_ucast_iff b bit_xtime)
  qed
  show "fits_byte (gf_step x)"
    unfolding fits_byte_def
  proof (intro allI impI)
    fix n :: nat
    assume n: "8 \<le> n"
    show "\<not> bit (gf_step x) n"
    proof (cases "n = 8")
      case True then show ?thesis by (simp add: b)
    next
      case False
      then have "9 \<le> n" using n by simp
      then have "\<not> bit (0x11D :: 16 word) n" by (rule polynomial_high_bits)
      moreover have "\<not> bit x (n - 1)" using assms \<open>9 \<le> n\<close> by (simp add: fits_byte_def)
      ultimately show ?thesis by (simp add: b)
    qed
  qed
qed

lemma gf_powers_gfe: "fits_byte x \<Longrightarrow> gf_powers n x = map (\<lambda>i. (xtime ^^ i) (ucast x)) [0..<n]"
proof (induction n arbitrary: x)
  case (Suc n)
  have "gf_powers n (gf_step x) = map (\<lambda>i. (xtime ^^ i) (xtime (ucast x))) [0..<n]"
    using Suc.IH [OF gf_step_xtime(2) [OF Suc.prems]] by (simp add: gf_step_xtime(1) [OF Suc.prems])
  then show ?case
    by (simp add: upt_conv_Cons map_Suc_upt [symmetric] funpow_Suc_right del: upt_Suc funpow.simps)
qed simp

lemma gf_powers_1: "gf_powers 255 1 = map gfe [0..<255]"
  using gf_powers_gfe [of 1 255] by (simp add: fits_byte_def bit_1_iff)

lemma gf_exp_nth:
  assumes "i < 509"
  shows "gf_exp ! i = gfe i"
proof -
  have p: "gfe i = gfe (i - 255)" if "255 \<le> i"
    using gfe_add [of "i - 255" 255] that by (simp add: gfe_255)
  have "(map gfe [0..<255] @ map gfe [0..<255]) ! i = gfe i"
  proof (cases "i < 255")
    case False
    then have "[0..<255] ! (i - 255) = i - 255" using assms by (subst nth_upt) simp_all
    with False p assms show ?thesis by (simp add: nth_append nth_map)
  qed (simp add: nth_append)
  moreover have "gfe 255 = 1" by (rule gfe_255)
  ultimately show ?thesis
    using assms by (auto simp: gf_exp_def gf_powers_1 nth_list_update Let_def)
qed

lemma fold_update_inverse:
  assumes "inj_on g {..<n}" and "\<forall>i < n. g i < length l" and "i < n"
  shows "fold (\<lambda>i l. l[g i := i]) [0..<n] l ! g i = i"
  using assms
proof (induction n)
  case (Suc n)
  let ?l = "fold (\<lambda>i l. l[g i := i]) [0..<n] l"
  have len: "length (fold (\<lambda>i l. l[g i := i]) [0..<m] l) = length l" for m by (induction m) simp_all
  show ?case
  proof (cases "i = n")
    case True
    then show ?thesis using Suc.prems(2) by (simp add: len)
  next
    case False
    then have "i < n" using Suc.prems(3) by simp
    moreover have "g n \<noteq> g i" using inj_onD [OF Suc.prems(1), of n i] \<open>i < n\<close> by auto
    moreover have "inj_on g {..<n}" using Suc.prems(1) by (rule inj_on_subset) auto
    ultimately show ?thesis using Suc.IH Suc.prems(2) by simp
  qed
qed simp

lemma gf_log_gfe:
  assumes "i < 255"
  shows "gf_log ! unat (gfe i) = i"
proof -
  have e: "gf_exp ! j = gfe j" if "j < 255" for j using gf_exp_nth that by simp
  have "inj_on (\<lambda>j. unat (gf_exp ! j)) {..<255}"
    using gfe_inj by (auto simp: inj_on_def e unsigned_word_eqI)
  moreover have "\<forall>j < 255. unat (gf_exp ! j) < length (replicate 256 (0 :: nat))"
    using unsigned_less [where 'a = nat and 'b = 8] by auto
  ultimately have "gf_log ! unat (gf_exp ! i) = i"
    unfolding gf_log_def by (rule fold_update_inverse) (rule assms)
  then show ?thesis using assms by (simp add: e)
qed

section \<open>The field laws\<close>

lemma gf_mul_gfe: "i < 255 \<Longrightarrow> gf_mul (gfe i) b = (xtime ^^ i) b"
proof (cases "b = 0")
  case False
  assume i: "i < 255"
  obtain j where j: "j < 255" "b = gfe j" using gfe_surj [OF False] .
  have "gf_mul (gfe i) b = gf_exp ! (i + j)" using i j by (simp add: gf_mul_def gf_log_gfe)
  also have "\<dots> = gfe (i + j)" using i j by (intro gf_exp_nth) simp
  finally show ?thesis by (simp add: j gfe_add)
qed (simp add: gf_mul_def)

lemma gf_mul_0 [simp]: "gf_mul 0 b = 0" "gf_mul a 0 = 0"
  by (simp_all add: gf_mul_def)

lemma gf_mul_1 [simp]: "gf_mul 1 b = b"
  using gf_mul_gfe [of 0 b] by simp

lemma gf_mul_commute: "gf_mul a b = gf_mul b a"
  by (auto simp: gf_mul_def add.commute)

lemma gf_mul_xor: "gf_mul a (b XOR c) = gf_mul a b XOR gf_mul a c"
proof (cases "a = 0")
  case False
  then obtain i where "i < 255" "a = gfe i" by (rule gfe_surj)
  then show ?thesis by (simp add: gf_mul_gfe funpow_xtime_xor)
qed simp

lemma gf_mul_xor_left: "gf_mul (a XOR b) c = gf_mul a c XOR gf_mul b c"
  by (simp only: gf_mul_commute [of _ c] gf_mul_xor)

lemma gf_mul_assoc: "gf_mul (gf_mul a b) c = gf_mul a (gf_mul b c)"
proof (cases "b = 0")
  case False
  obtain j where j: "j < 255" "b = gfe j" using gfe_surj [OF False] .
  have "gf_mul (gf_mul a b) c = gf_mul c ((xtime ^^ j) a)"
    using j gf_mul_gfe [OF j(1), of a] by (simp add: gf_mul_commute)
  moreover have "gf_mul a (gf_mul b c) = gf_mul a ((xtime ^^ j) c)"
    using j by (simp add: gf_mul_gfe)
  moreover have "gf_mul c ((xtime ^^ j) a) = gf_mul a ((xtime ^^ j) c)"
  proof (cases "a = 0 \<or> c = 0")
    case False
    then obtain i l where "i < 255" "a = gfe i" "l < 255" "c = gfe l" by (metis gfe_surj)
    then show ?thesis by (simp add: gf_mul_gfe flip: funpow_add comp_apply [of "_ ^^ _"]) (simp add: add_ac)
  qed auto
  ultimately show ?thesis by simp
qed simp

lemma gf_mul_inv:
  assumes "a \<noteq> 0"
  shows "gf_mul a (gf_inv a) = 1"
proof -
  obtain i where i: "i < 255" "a = gfe i" using gfe_surj [OF assms] .
  have log1: "gf_log ! unat (1 :: byte) = 0" using gf_log_gfe [of 0] by simp
  let ?n = "(255 - i) mod 255"
  have "nat ((0 - int i + 255) mod 255) = ?n"
    using i(1) by (metis add.commute diff_0 minus_int_code(2) nat_int of_nat_diff of_nat_mod of_nat_numeral
        less_imp_le uminus_add_conv_diff)
  then have "gf_inv a = gf_exp ! ?n"
    using i unfolding gf_inv_def gf_div_def log1 Let_def by (simp add: gf_log_gfe)
  also have "\<dots> = gfe ?n" by (rule gf_exp_nth) simp
  finally have inv: "gf_inv a = gfe ?n" .
  have "gf_mul a (gf_inv a) = gfe (i + ?n)"
    unfolding inv unfolding i(2) gfe_add by (rule gf_mul_gfe [OF i(1)])
  moreover have "i + ?n = 0 \<or> i + ?n = 255" using i(1) by (cases "i = 0") auto
  ultimately show ?thesis using gfe_255 by auto
qed

lemma gf_inv_0 [simp]: "gf_inv 0 = 0"
  by (simp add: gf_inv_def gf_div_def)

section \<open>Polynomial multiplication\<close>

text \<open>Multiplication of polynomials over two elements modulo the field polynomial, by shift and add.\<close>

definition polynomial_mul :: "byte \<Rightarrow> byte \<Rightarrow> byte" where
  "polynomial_mul a b = fold (\<lambda>n s. if bit b n then s XOR (xtime ^^ n) a else s) [0..<8] 0"

lemma gfe_low: "n < 8 \<Longrightarrow> gfe n = 2 ^ n"
proof (induction n)
  case (Suc n)
  then have "xtime (2 ^ n) = 2 ^ Suc n"
    by (intro bit_word_eqI) (auto simp: bit_xtime bit_exp_iff simp del: power_Suc)
  with Suc show ?case by simp
qed simp

lemma fold_bits_take:
  "n \<le> 8 \<Longrightarrow> fold (\<lambda>n s. if bit b n then s XOR 2 ^ n else s) [0..<n] 0 = take_bit n (b :: byte)"
proof (induction n)
  case (Suc n)
  then have "fold (\<lambda>n s. if bit b n then s XOR 2 ^ n else s) [0..<Suc n] 0
      = (if bit b n then take_bit n b XOR 2 ^ n else take_bit n b)" by simp
  also have "\<dots> = take_bit (Suc n) b"
    by (rule bit_word_eqI) (auto simp: bit_take_bit_iff bit_xor_iff bit_exp_iff less_Suc_eq)
  finally show ?case .
qed simp

text \<open>
  C8. Table look-up multiplication is multiplication of polynomials modulo 0x11D: the logarithm and
  exponent tables agree with shift and add on all pairs of bytes.
\<close>

theorem gf_mul_polynomial: "gf_mul a b = polynomial_mul a b"
proof -
  have "gf_mul a (fold (\<lambda>n s. if bit b n then s XOR 2 ^ n else s) ns 0)
      = fold (\<lambda>n s. if bit b n then s XOR (xtime ^^ n) a else s) ns 0" if "\<forall>n \<in> set ns. n < 8" for ns
    using that
  proof (induction ns rule: rev_induct)
    case (snoc n ns)
    then have "gf_mul a (2 ^ n) = (xtime ^^ n) a"
      using gf_mul_gfe [of n a] gfe_low [of n] by (simp add: gf_mul_commute)
    with snoc show ?case by (simp add: gf_mul_xor)
  qed simp
  from this [of "[0..<8]"] show ?thesis
    using fold_bits_take [of 8 b] take_bit_length_eq [of b] by (simp add: polynomial_mul_def)
qed

section \<open>Bytes as a field\<close>

typedef gf = "UNIV :: byte set" by simp

setup_lifting type_definition_gf

instantiation gf :: field
begin

lift_definition zero_gf :: gf is "0 :: byte" .
lift_definition one_gf :: gf is "1 :: byte" .
lift_definition plus_gf :: "gf \<Rightarrow> gf \<Rightarrow> gf" is "\<lambda>a b. a XOR b" .
lift_definition minus_gf :: "gf \<Rightarrow> gf \<Rightarrow> gf" is "\<lambda>a b. a XOR b" .
lift_definition uminus_gf :: "gf \<Rightarrow> gf" is "\<lambda>a. a" .
lift_definition times_gf :: "gf \<Rightarrow> gf \<Rightarrow> gf" is gf_mul .
lift_definition inverse_gf :: "gf \<Rightarrow> gf" is gf_inv .
lift_definition divide_gf :: "gf \<Rightarrow> gf \<Rightarrow> gf" is "\<lambda>a b. gf_mul a (gf_inv b)" .

instance
proof
  fix a b c :: gf
  show "a * b * c = a * (b * c)" by transfer (rule gf_mul_assoc)
  show "a * b = b * a" by transfer (rule gf_mul_commute)
  show "1 * a = a" by transfer simp
  show "a + b + c = a + (b + c)" by transfer (rule xor.assoc)
  show "a + b = b + a" by transfer (rule xor.commute)
  show "0 + a = a" by transfer simp
  show "- a + a = 0" by transfer simp
  show "a - b = a + - b" by transfer simp
  show "(a + b) * c = a * c + b * c" by transfer (rule gf_mul_xor_left)
  show "(0 :: gf) \<noteq> 1" by transfer simp
  show "inverse (0 :: gf) = 0" by transfer simp
  show "a \<noteq> 0 \<Longrightarrow> inverse a * a = 1" by transfer (simp add: gf_mul_commute gf_mul_inv)
  show "a div b = a * inverse b" by transfer simp
qed

end

text \<open>The element of the field that a byte stands for.\<close>

definition of_byte :: "byte \<Rightarrow> gf" where
  "of_byte = Abs_gf"

lemma of_byte_inject [simp]: "of_byte a = of_byte b \<longleftrightarrow> a = b"
  by (simp add: of_byte_def Abs_gf_inject)

lemma of_byte_simps [simp, gf_simps]:
  "of_byte 0 = 0" "of_byte 1 = 1" "of_byte (a XOR b) = of_byte a + of_byte b"
  "of_byte (gf_mul a b) = of_byte a * of_byte b" "of_byte (gf_inv a) = inverse (of_byte a)"
  by (simp_all add: of_byte_def zero_gf_def one_gf_def plus_gf.abs_eq times_gf.abs_eq inverse_gf.abs_eq)

lemma of_byte_eq_0 [simp]: "of_byte a = 0 \<longleftrightarrow> a = 0"
  using of_byte_inject [of a 0] by (simp del: of_byte_inject)

lemma gf_add_self [simp]: "(a :: gf) + a = 0"
  by transfer simp

lemma gf_add_eq_0_iff: "(a :: gf) + b = 0 \<longleftrightarrow> a = b"
  by transfer (rule xor_eq_0_iff)

lemma gf_minus_eq_add: "(a :: gf) - b = a + b"
  by transfer simp

end
