(* ===== verification/Gf_Matrix.thy ===== *)
theory Gf_Matrix
  imports Gf256
begin

text \<open>
  Matrices over the field with 256 elements: inversion by Gauss-Jordan elimination as the erasure
  coder performs it on vectors of rows, and the fact that makes its encoding matrix work: a square
  Cauchy system has only the trivial solution, in any field.
\<close>

section \<open>Definitions\<close>

type_synonym gf_matrix = "byte list list"

definition swap_rows :: "nat \<Rightarrow> nat \<Rightarrow> 'a list \<Rightarrow> 'a list" where
  "swap_rows i j xs = xs[i := xs ! j, j := xs ! i]"

definition gj_step :: "nat \<Rightarrow> nat \<Rightarrow> gf_matrix \<Rightarrow> gf_matrix option" where
  "gj_step n col aug =
     (case find (\<lambda>r. aug ! r ! col \<noteq> 0) [col..<n] of
        None \<Rightarrow> None
      | Some pr \<Rightarrow>
          let swapped = swap_rows col pr aug;
              inv_p = gf_inv (swapped ! col ! col);
              pivot = map (\<lambda>j. gf_mul (swapped ! col ! j) inv_p) [0..<2 * n]
          in Some (map (\<lambda>row.
               if row = col then pivot
               else let f = swapped ! row ! col
                    in if f = 0 then swapped ! row
                       else map (\<lambda>j. swapped ! row ! j XOR gf_mul f (pivot ! j)) [0..<2 * n]) [0..<n]))"

fun gj_loop :: "nat \<Rightarrow> nat list \<Rightarrow> gf_matrix \<Rightarrow> gf_matrix option" where
  "gj_loop n [] aug = Some aug"
| "gj_loop n (col # cols) aug =
     (case gj_step n col aug of None \<Rightarrow> None | Some aug' \<Rightarrow> gj_loop n cols aug')"

definition augment :: "gf_matrix \<Rightarrow> gf_matrix" where
  "augment mat =
     (let n = length mat
      in map (\<lambda>i. map (\<lambda>j. mat ! i ! j) [0..<n] @ (replicate n 0)[i := 1]) [0..<n])"

definition invert_matrix :: "gf_matrix \<Rightarrow> gf_matrix option" where
  "invert_matrix mat =
     (let n = length mat
      in case gj_loop n [0..<n] (augment mat) of
           None \<Rightarrow> None
         | Some aug \<Rightarrow> Some (map (\<lambda>i. map (\<lambda>j. aug ! i ! (j + n)) [0..<n]) [0..<n]))"

section \<open>Cauchy systems\<close>

lemma cauchy_step:
  fixes x y :: "'a::field"
  assumes "x + y \<noteq> 0"
  shows "(x + y0) * (v / (x + y)) = v + v * (y0 - y) / (x + y)"
  using assms by (simp add: field_simps)

lemma cauchy_difference:
  fixes x y :: "'a::field"
  assumes "x + y \<noteq> 0" and "x0 + y \<noteq> 0"
  shows "w / (x + y) - w / (x0 + y) = (x0 - x) * (w / (x0 + y) / (x + y))"
  using assms by (simp add: field_simps)

text \<open>
  If as many equations of the form \<open>\<Sum>y. v y / (x + y) = 0\<close> hold as there are unknowns, for
  distinct \<open>x\<close>, then all unknowns are zero.
\<close>

lemma cauchy_trivial_kernel:
  fixes v :: "'a::field \<Rightarrow> 'a"
  assumes "finite R" and "finite J" and "card R = card J"
    and "\<forall>x \<in> R. \<forall>y \<in> J. x + y \<noteq> 0"
    and "\<forall>x \<in> R. (\<Sum>y \<in> J. v y / (x + y)) = 0"
  shows "\<forall>y \<in> J. v y = 0"
  using assms
proof (induction "card J" arbitrary: R J v)
  case 0
  then show ?case by simp
next
  case (Suc n)
  obtain y0 where y0: "y0 \<in> J" using Suc.hyps(2) by fastforce
  obtain x0 where x0: "x0 \<in> R" using Suc.hyps(2) Suc.prems(3) by fastforce
  let ?J = "J - {y0}"
  define w where "w y = v y * (y0 - y)" for y
  define u where "u y = w y / (x0 + y)" for y
  have reduced: "sum v J + (\<Sum>y \<in> ?J. w y / (x + y)) = 0" if x: "x \<in> R" for x
  proof -
    have "(\<Sum>y \<in> J. v y + w y / (x + y)) = (\<Sum>y \<in> J. (x + y0) * (v y / (x + y)))"
      unfolding w_def using Suc.prems(4) x by (intro sum.cong refl cauchy_step [symmetric]) simp
    also have "\<dots> = (x + y0) * (\<Sum>y \<in> J. v y / (x + y))" by (simp only: sum_distrib_left)
    also have "\<dots> = 0" using Suc.prems(5) x by simp
    finally have "sum v J + (\<Sum>y \<in> J. w y / (x + y)) = 0" by (simp add: sum.distrib)
    moreover have "(\<Sum>y \<in> J. w y / (x + y)) = (\<Sum>y \<in> ?J. w y / (x + y))"
      using sum.remove [OF Suc.prems(2) y0, of "\<lambda>y. w y / (x + y)"] by (simp add: w_def)
    ultimately show ?thesis by simp
  qed
  have eqs: "(\<Sum>y \<in> ?J. u y / (x + y)) = 0" if x: "x \<in> R - {x0}" for x
  proof -
    have "(x0 - x) * (\<Sum>y \<in> ?J. u y / (x + y)) = (\<Sum>y \<in> ?J. w y / (x + y) - w y / (x0 + y))"
      unfolding sum_distrib_left u_def using Suc.prems(4) x x0
      by (intro sum.cong refl) (simp add: cauchy_difference)
    also have "\<dots> = (sum v J + (\<Sum>y \<in> ?J. w y / (x + y))) - (sum v J + (\<Sum>y \<in> ?J. w y / (x0 + y)))"
      by (simp add: sum_subtractf)
    also have "\<dots> = 0" using reduced x x0 by simp
    finally show ?thesis using x by auto
  qed
  have "\<forall>y \<in> ?J. u y = 0"
  proof (rule Suc.hyps(1))
    show "n = card ?J" using Suc.hyps(2) y0 Suc.prems(2) by simp
    show "finite (R - {x0})" "finite ?J" using Suc.prems(1,2) by simp_all
    show "card (R - {x0}) = card ?J"
      using Suc.prems(1-3) x0 y0 by simp
    show "\<forall>x \<in> R - {x0}. \<forall>y \<in> ?J. x + y \<noteq> 0" using Suc.prems(4) by simp
    show "\<forall>x \<in> R - {x0}. (\<Sum>y \<in> ?J. u y / (x + y)) = 0" using eqs by simp
  qed
  then have z: "v y = 0" if "y \<in> ?J" for y
    using that x0 Suc.prems(4) by (auto simp: u_def w_def)
  have "(\<Sum>y \<in> J. v y / (x0 + y)) = v y0 / (x0 + y0)"
    using sum.remove [OF Suc.prems(2) y0, of "\<lambda>y. v y / (x0 + y)"] z by simp
  then have "v y0 = 0" using Suc.prems(4,5) x0 y0 by auto
  with z show ?case by auto
qed

section \<open>One column of the elimination\<close>

text \<open>The entries of a matrix as field elements.\<close>

definition entry :: "gf_matrix \<Rightarrow> nat \<Rightarrow> nat \<Rightarrow> gf" where
  "entry m r j = of_byte (m ! r ! j)"

definition gj_rel :: "nat \<Rightarrow> nat \<Rightarrow> nat \<Rightarrow> (nat \<Rightarrow> nat \<Rightarrow> gf) \<Rightarrow> (nat \<Rightarrow> nat \<Rightarrow> gf) \<Rightarrow> bool" where
  "gj_rel n col pr A A' \<longleftrightarrow> col \<le> pr \<and> pr < n \<and> A pr col \<noteq> 0 \<and>
     (\<forall>j < 2 * n. A' col j = A pr j / A pr col) \<and>
     (\<forall>r < n. \<forall>j < 2 * n. r \<noteq> col \<longrightarrow>
        A' r j = A (if r = pr then col else r) j + A (if r = pr then col else r) col * A' col j)"

definition aug_shape :: "nat \<Rightarrow> gf_matrix \<Rightarrow> bool" where
  "aug_shape n aug \<longleftrightarrow> length aug = n \<and> (\<forall>r < n. length (aug ! r) = 2 * n)"

lemma swap_rows_nth:
  "i < length xs \<Longrightarrow> j < length xs \<Longrightarrow> r < length xs \<Longrightarrow>
     swap_rows i j xs ! r = xs ! (if r = i then j else if r = j then i else r)"
  by (auto simp: swap_rows_def nth_list_update)

lemma gj_step_rel:
  assumes "gj_step n col aug = Some aug'" and "aug_shape n aug"
  obtains pr where "gj_rel n col pr (entry aug) (entry aug')" "aug_shape n aug'"
proof -
  obtain pr where "find (\<lambda>r. aug ! r ! col \<noteq> 0) [col..<n] = Some pr"
    using assms(1) by (auto simp: gj_step_def split: option.splits)
  note f = this
  then have pr: "col \<le> pr" "pr < n" "aug ! pr ! col \<noteq> 0" by (auto dest: find_SomeD)
  let ?sw = "swap_rows col pr aug"
  let ?pivot = "map (\<lambda>j. gf_mul (?sw ! col ! j) (gf_inv (?sw ! col ! col))) [0..<2 * n]"
  have aug': "aug' = map (\<lambda>row. if row = col then ?pivot
      else if ?sw ! row ! col = 0 then ?sw ! row
      else map (\<lambda>j. ?sw ! row ! j XOR gf_mul (?sw ! row ! col) (?pivot ! j)) [0..<2 * n]) [0..<n]"
    using assms(1) unfolding gj_step_def f Let_def by simp
  have sw: "?sw ! r = aug ! (if r = col then pr else if r = pr then col else r)" if "r < n" for r
    using that pr assms(2) by (intro swap_rows_nth) (simp_all add: aug_shape_def)
  have "aug_shape n aug'" using assms(2) sw pr by (auto simp: aug_shape_def aug')
  moreover have "entry aug' col j = entry aug pr j / entry aug pr col" if "j < 2 * n" for j
    using that pr sw [of col] by (simp add: entry_def aug' divide_inverse)
  moreover have "entry aug' r j = entry aug (if r = pr then col else r) j
      + entry aug (if r = pr then col else r) col * entry aug' col j"
    if "r < n" "j < 2 * n" "r \<noteq> col" for r j
    using that pr sw [of r] sw [of col] by (simp add: entry_def aug')
  moreover have "entry aug pr col \<noteq> 0" using pr by (simp add: entry_def)
  ultimately have "gj_rel n col pr (entry aug) (entry aug')" "aug_shape n aug'"
    unfolding gj_rel_def using pr by blast+
  then show ?thesis by (rule that)
qed

lemma row_functional_step:
  fixes w :: "nat \<Rightarrow> gf"
  assumes "gj_rel n col pr A A'" and "S \<subseteq> {..<2 * n}" and "finite S"
    and phi_def: "phi = (\<lambda>row. \<Sum>j \<in> S. row j * w j)"
  shows "(\<forall>r < n. phi (A' r) = 0) \<longleftrightarrow> (\<forall>r < n. phi (A r) = 0)"
proof -
  let ?s = "\<lambda>r. if r = pr then col else r"
  have pr: "col \<le> pr" "pr < n" "A pr col \<noteq> 0" using assms(1) by (auto simp: gj_rel_def)
  have c: "phi (A' col) = phi (A pr) / A pr col"
    unfolding phi_def sum_divide_distrib
    using assms(1,2) by (intro sum.cong refl) (auto simp: gj_rel_def)
  have o: "phi (A' r) = phi (A (?s r)) + A (?s r) col * phi (A' col)" if "r < n" "r \<noteq> col" for r
    unfolding phi_def sum_distrib_left sum.distrib [symmetric]
    using assms(1,2) that by (intro sum.cong refl) (auto simp: gj_rel_def algebra_simps)
  show ?thesis
  proof (intro iffI allI impI)
    fix r
    assume z: "\<forall>r < n. phi (A r) = 0" and r: "r < n"
    then show "phi (A' r) = 0" using c o [of r] pr by (cases "r = col") auto
  next
    fix r
    assume z: "\<forall>r < n. phi (A' r) = 0" and r: "r < n"
    have p: "phi (A pr) = 0" using c pr z by auto
    show "phi (A r) = 0"
    proof (cases "r = pr")
      case False
      define r' where "r' = (if r = col then pr else r)"
      have "r' < n" "r' \<noteq> col" "?s r' = r" using False r pr by (auto simp: r'_def)
      then show ?thesis using o [of r'] z pr by simp
    qed (simp add: p)
  qed
qed

section \<open>The whole elimination\<close>

text \<open>
  With \<open>n\<close> columns on the left, a row \<open>(a | e)\<close> of the augmented matrix stands for the equation
  \<open>a d = e (M d)\<close>, which holds for every vector \<open>d\<close>. The elimination keeps these
  equations and the solutions of the left half, and turns column after column into a unit column.
\<close>

definition mat_vec :: "nat \<Rightarrow> gf_matrix \<Rightarrow> (nat \<Rightarrow> gf) \<Rightarrow> nat \<Rightarrow> gf" where
  "mat_vec n m d r = (\<Sum>j < n. entry m r j * d j)"

definition extend_vec :: "nat \<Rightarrow> gf_matrix \<Rightarrow> (nat \<Rightarrow> gf) \<Rightarrow> nat \<Rightarrow> gf" where
  "extend_vec n m d j = (if j < n then d j else mat_vec n m d (j - n))"

definition gj_inv :: "nat \<Rightarrow> gf_matrix \<Rightarrow> nat \<Rightarrow> gf_matrix \<Rightarrow> bool" where
  "gj_inv n m col aug \<longleftrightarrow> aug_shape n aug \<and>
     (\<forall>d. \<forall>r < n. (\<Sum>j < 2 * n. entry aug r j * extend_vec n m d j) = 0) \<and>
     (\<forall>d. (\<forall>r < n. mat_vec n aug d r = 0) \<longleftrightarrow> (\<forall>r < n. mat_vec n m d r = 0)) \<and>
     (\<forall>c < col. \<forall>r < n. entry aug r c = (if r = c then 1 else 0))"

lemma sum_split_half: "(\<Sum>j < 2 * n. f j) = (\<Sum>j < n. f j) + (\<Sum>j < n. f (n + j) :: 'a::comm_monoid_add)" for n :: nat
proof -
  have "{..<2 * n} = {..<n} \<union> {n..<n + n}" by auto
  then have "(\<Sum>j < 2 * n. f j) = (\<Sum>j < n. f j) + (\<Sum>j = n..<n + n. f j)"
    using sum.union_disjoint [of "{..<n}" "{n..<n + n}" f] by (simp add: ivl_disj_int)
  moreover have "(\<Sum>j = n..<n + n. f j) = (\<Sum>j < n. f (n + j))"
    using sum.shift_bounds_nat_ivl [of f 0 n n] by (simp add: atLeast0LessThan add.commute)
  ultimately show ?thesis by simp
qed

lemma sum_unit: "r < n \<Longrightarrow> (\<Sum>j < n. (if r = j then 1 else 0) * d j) = (d r :: gf)" for n r :: nat
proof -
  assume r: "r < n"
  have "(\<Sum>j < n. (if r = j then 1 else 0) * d j) = (\<Sum>j \<in> {r}. d j)"
    using r by (intro sum.mono_neutral_cong_right) auto
  then show ?thesis by simp
qed

lemma augment_entries:
  assumes "length m = n" and "r < n"
  shows "j < n \<Longrightarrow> entry (augment m) r j = entry m r j"
    and "j < n \<Longrightarrow> entry (augment m) r (n + j) = (if r = j then 1 else 0)"
  using assms by (simp_all add: entry_def augment_def Let_def nth_append nth_list_update)

lemma gj_inv_init:
  assumes "length m = n"
  shows "gj_inv n m 0 (augment m)"
proof -
  have "aug_shape n (augment m)" using assms by (simp add: aug_shape_def augment_def Let_def)
  moreover have "(\<Sum>j < 2 * n. entry (augment m) r j * extend_vec n m d j) = 0" if "r < n" for d r
    using that unfolding sum_split_half
    by (simp add: extend_vec_def augment_entries [OF assms] sum_unit) (simp add: mat_vec_def)
  moreover have "mat_vec n (augment m) d r = mat_vec n m d r" if "r < n" for d r
    using that by (simp add: mat_vec_def augment_entries [OF assms])
  ultimately show ?thesis by (simp add: gj_inv_def)
qed

lemma gj_inv_step:
  assumes "gj_inv n m col aug" and "col < n" and "gj_step n col aug = Some aug'"
  shows "gj_inv n m (Suc col) aug'"
proof -
  have shape: "aug_shape n aug" using assms(1) by (simp add: gj_inv_def)
  obtain pr where rel: "gj_rel n col pr (entry aug) (entry aug')" and shape': "aug_shape n aug'"
    using gj_step_rel [OF assms(3) shape] .
  have eqs: "(\<Sum>j < 2 * n. entry aug' r j * extend_vec n m d j) = 0" if "r < n" for d r
    using row_functional_step [OF rel, of "{..<2 * n}" _ "extend_vec n m d"] assms(1) that
    by (simp add: gj_inv_def)
  have ker: "(\<forall>r < n. mat_vec n aug' d r = 0) \<longleftrightarrow> (\<forall>r < n. mat_vec n m d r = 0)" for d
    using row_functional_step [OF rel, of "{..<n}" _ d] assms(1)
    by (auto simp: gj_inv_def mat_vec_def)
  have unit: "entry aug r c = (if r = c then 1 else 0)" if "c < col" "r < n" for r c
    using assms(1) that by (simp add: gj_inv_def)
  have pr: "col \<le> pr" "pr < n" "entry aug pr col \<noteq> 0"
    and piv: "\<And>j. j < 2 * n \<Longrightarrow> entry aug' col j = entry aug pr j / entry aug pr col"
    and oth: "\<And>r j. r < n \<Longrightarrow> j < 2 * n \<Longrightarrow> r \<noteq> col \<Longrightarrow>
      entry aug' r j = entry aug (if r = pr then col else r) j
        + entry aug (if r = pr then col else r) col * entry aug' col j"
    using rel by (auto simp: gj_rel_def)
  have "entry aug' r c = (if r = c then 1 else 0)" if c: "c < Suc col" and r: "r < n" for r c
  proof (cases "c = col")
    case True
    have one: "entry aug' col col = 1" using piv [of col] pr assms(2) by simp
    then show ?thesis using True r oth [of r col] assms(2) by (cases "r = col") simp_all
  next
    case False
    then have c': "c < col" using c by simp
    have zero: "entry aug' col c = 0" using piv [of c] unit [of c pr] pr c' by simp
    show ?thesis
    proof (cases "r = col")
      case False
      then have "entry aug' r c = entry aug (if r = pr then col else r) c"
        using oth [of r c] zero c' assms(2) r by simp
      also have "\<dots> = (if r = c then 1 else 0)"
        using unit [of c "if r = pr then col else r"] c' assms(2) r pr by auto
      finally show ?thesis .
    qed (use zero c' in simp)
  qed
  with shape' eqs ker show ?thesis unfolding gj_inv_def by blast
qed

lemma gj_step_None:
  assumes "gj_inv n m col aug" and "col < n" and "gj_step n col aug = None"
  shows "\<exists>d. (\<forall>r < n. mat_vec n m d r = 0) \<and> d col \<noteq> 0"
proof -
  have zero: "entry aug r col = 0" if "col \<le> r" "r < n" for r
    using assms(3) that by (auto simp: gj_step_def find_None_iff entry_def Let_def split: option.splits)
  define d where "d j = (if j < col then entry aug j col else if j = col then 1 else 0)" for j
  have "mat_vec n aug d r = 0" if r: "r < n" for r
  proof -
    have "mat_vec n aug d r = (\<Sum>j < Suc col. entry aug r j * d j)"
      unfolding mat_vec_def using assms(2)
      by (intro sum.mono_neutral_right) (auto simp: d_def)
    also have "\<dots> = (\<Sum>j < col. (if r = j then 1 else 0) * d j) + entry aug r col * d col"
    proof -
      have "(\<Sum>j < col. entry aug r j * d j) = (\<Sum>j < col. (if r = j then 1 else 0) * d j)"
        using assms(1) r by (intro sum.cong refl) (simp add: gj_inv_def)
      then show ?thesis by simp
    qed
    also have "\<dots> = 0"
    proof (cases "r < col")
      case True then show ?thesis by (simp add: sum_unit) (simp add: d_def)
    next
      case False
      then have "(\<Sum>j < col. (if r = j then 1 else 0) * d j) = 0" by (intro sum.neutral) auto
      with False zero r show ?thesis by simp
    qed
    finally show ?thesis .
  qed
  then have "\<forall>r < n. mat_vec n aug d r = 0" by blast
  then have "\<forall>r < n. mat_vec n m d r = 0" using assms(1) unfolding gj_inv_def by blast
  then show ?thesis by (intro exI [of _ d]) (simp add: d_def)
qed

lemma gj_loop_cases:
  assumes "gj_inv n m col aug" and "col \<le> n"
  shows "case gj_loop n [col..<n] aug of
      Some aug' \<Rightarrow> gj_inv n m n aug'
    | None \<Rightarrow> \<exists>d. (\<forall>r < n. mat_vec n m d r = 0) \<and> (\<exists>c < n. d c \<noteq> 0)"
  using assms
proof (induction "n - col" arbitrary: col aug)
  case (Suc k)
  then have col: "col < n" by simp
  then have l: "[col..<n] = col # [Suc col..<n]" by (simp add: upt_conv_Cons)
  show ?case
  proof (cases "gj_step n col aug")
    case None
    then show ?thesis using gj_step_None [OF Suc.prems(1) col None] col by (auto simp: l)
  next
    case (Some aug')
    from gj_inv_step [OF Suc.prems(1) col Some] show ?thesis
      using Suc.hyps(1) [of "Suc col" aug'] Suc.hyps(2) col by (simp add: l Some)
  qed
qed simp

lemma invert_matrix_cases:
  assumes "length m = n"
  shows "case invert_matrix m of
      Some minv \<Rightarrow> \<forall>d. \<forall>r < n. (\<Sum>j < n. entry minv r j * mat_vec n m d j) = d r
    | None \<Rightarrow> \<exists>d. (\<forall>r < n. mat_vec n m d r = 0) \<and> (\<exists>c < n. d c \<noteq> 0)"
proof (cases "gj_loop n [0..<n] (augment m)")
  case None
  then show ?thesis
    using gj_loop_cases [OF gj_inv_init [OF assms]] by (simp add: invert_matrix_def assms)
next
  case (Some aug)
  then have inv: "gj_inv n m n aug"
    using gj_loop_cases [OF gj_inv_init [OF assms]] by simp
  have "(\<Sum>j < n. entry aug r (j + n) * mat_vec n m d j) = d r" if r: "r < n" for d r
  proof -
    have "(\<Sum>j < 2 * n. entry aug r j * extend_vec n m d j) = 0" using inv r by (simp add: gj_inv_def)
    then have "(\<Sum>j < n. entry aug r j * d j) + (\<Sum>j < n. entry aug r (n + j) * mat_vec n m d j) = 0"
      unfolding sum_split_half by (simp add: extend_vec_def)
    moreover have "(\<Sum>j < n. entry aug r j * d j) = (\<Sum>j < n. (if r = j then 1 else 0) * d j)"
      using inv r by (intro sum.cong refl) (simp add: gj_inv_def)
    then have "(\<Sum>j < n. entry aug r j * d j) = d r" by (simp only: sum_unit [OF r])
    ultimately show ?thesis by (simp add: gf_add_eq_0_iff add.commute)
  qed
  then show ?thesis using Some by (simp add: invert_matrix_def assms entry_def)
qed

text \<open>
  C6. Inversion of a square matrix by Gauss-Jordan elimination is correct and complete: it gives up
  exactly on the singular matrices, those that map some vector other than zero to zero, and
  otherwise its result is a left inverse.
\<close>

theorem invert_matrix_correct:
  assumes "length m = n"
  shows "(invert_matrix m = None \<longleftrightarrow> (\<exists>d. (\<forall>r < n. mat_vec n m d r = 0) \<and> (\<exists>c < n. d c \<noteq> 0)))
    \<and> (\<forall>minv. invert_matrix m = Some minv \<longrightarrow>
        (\<forall>d. \<forall>r < n. (\<Sum>j < n. entry minv r j * mat_vec n m d j) = d r))"
proof (cases "invert_matrix m")
  case None
  then show ?thesis using invert_matrix_cases [OF assms] by simp
next
  case (Some minv)
  then have left: "(\<Sum>j < n. entry minv r j * mat_vec n m d j) = d r" if "r < n" for d r
    using invert_matrix_cases [OF assms] that by simp
  have "d c = 0" if "\<forall>r < n. mat_vec n m d r = 0" "c < n" for d c
    using left [of c d] that by simp
  then show ?thesis using Some left by fastforce
qed

theorem invert_matrix_correct_witness:
  "\<exists>minv. invert_matrix [[2]] = Some minv \<and> entry minv 0 0 * of_byte 2 = 1"
proof (cases "invert_matrix [[2]]")
  case None
  then show ?thesis
    using invert_matrix_correct [of "[[2]]" 1] by (auto simp: mat_vec_def entry_def)
next
  case (Some minv)
  then have "entry minv 0 0 * (of_byte 2 * 1) = 1"
    using invert_matrix_correct [of "[[2]]" 1] by (auto simp: mat_vec_def entry_def dest: spec [of _ "\<lambda>_. 1"])
  then show ?thesis using Some by simp
qed

end
