(* ===== verification/Replication_Intent.thy ===== *)
theory Replication_Intent
  imports Tide_Prelude
begin

text \<open>
  The durability intent of a dataset: mirroring, erasure coding or plain distribution over failure
  domains, with the number of targets it needs and the number of failures it tolerates. Counts are
  8-bit values; additions saturate at 255.
\<close>

section \<open>Definitions\<close>

definition sat_add8 :: "nat \<Rightarrow> nat \<Rightarrow> nat" where
  "sat_add8 a b = min (a + b) 255"

datatype failure_domain = Device | Node | Rack | Datacenter

definition can_tolerate_failures :: "nat \<Rightarrow> nat \<Rightarrow> nat \<Rightarrow> bool" where
  "can_tolerate_failures count spread min_surviving \<longleftrightarrow> spread \<ge> sat_add8 count min_surviving"

definition min_spread_for_failure_tolerance :: "nat \<Rightarrow> nat \<Rightarrow> nat" where
  "min_spread_for_failure_tolerance count min_surviving = sat_add8 count min_surviving"

primrec domain_rank :: "failure_domain \<Rightarrow> nat" where
  "domain_rank Device = 0"
| "domain_rank Node = 1"
| "domain_rank Rack = 2"
| "domain_rank Datacenter = 3"

definition covers :: "failure_domain \<Rightarrow> failure_domain \<Rightarrow> bool" where
  "covers d other \<longleftrightarrow> domain_rank d \<ge> domain_rank other"

datatype replication_intent =
    Mirror (copies: nat) (intent_domain: failure_domain)
  | ErasureCoded (ec_data_shards: nat) (ec_parity_shards: nat) (intent_domain: failure_domain)
  | Distributed (dist_shards: nat) (intent_domain: failure_domain)

datatype replication_intent_error =
    CopiesTooLow nat
  | DataShardsTooLow nat
  | ParityShardsTooLow nat
  | ShardsTooLow nat

datatype replication_model_error = InsufficientDomains (domains_required: nat) (domains_available: nat)

definition new_mirror :: "nat \<Rightarrow> failure_domain \<Rightarrow> replication_intent_error + replication_intent" where
  "new_mirror n d = (if n < 1 then Inl (CopiesTooLow n) else Inr (Mirror n d))"

definition new_erasure_coded ::
    "nat \<Rightarrow> nat \<Rightarrow> failure_domain \<Rightarrow> replication_intent_error + replication_intent" where
  "new_erasure_coded k m d =
     (if k < 1 then Inl (DataShardsTooLow k)
      else if m < 1 then Inl (ParityShardsTooLow m)
      else Inr (ErasureCoded k m d))"

definition new_distributed :: "nat \<Rightarrow> failure_domain \<Rightarrow> replication_intent_error + replication_intent" where
  "new_distributed n d = (if n < 1 then Inl (ShardsTooLow n) else Inr (Distributed n d))"

primrec total_targets :: "replication_intent \<Rightarrow> nat" where
  "total_targets (Mirror n d) = n"
| "total_targets (ErasureCoded k m d) = sat_add8 k m"
| "total_targets (Distributed n d) = n"

primrec min_surviving_targets :: "replication_intent \<Rightarrow> nat" where
  "min_surviving_targets (Mirror n d) = 1"
| "min_surviving_targets (ErasureCoded k m d) = k"
| "min_surviving_targets (Distributed n d) = n"

primrec max_tolerable_failures :: "replication_intent \<Rightarrow> nat" where
  "max_tolerable_failures (Mirror n d) = n - 1"
| "max_tolerable_failures (ErasureCoded k m d) = m"
| "max_tolerable_failures (Distributed n d) = 0"

definition intent_validate :: "nat \<Rightarrow> replication_intent \<Rightarrow> replication_model_error + unit" where
  "intent_validate available i =
     (if available < total_targets i then Inl (InsufficientDomains (total_targets i) available) else Inr ())"

section \<open>Tolerance\<close>

text \<open>An intent as the constructors build it, whose targets can be counted in eight bits.\<close>

primrec intent_sane :: "replication_intent \<Rightarrow> bool" where
  "intent_sane (Mirror n d) \<longleftrightarrow> 1 \<le> n \<and> n < 255"
| "intent_sane (ErasureCoded k m d) \<longleftrightarrow> 1 \<le> k \<and> 1 \<le> m \<and> k + m < 255"
| "intent_sane (Distributed n d) \<longleftrightarrow> 1 \<le> n \<and> n < 255"

lemma can_tolerate_exact:
  "spread < 255 \<Longrightarrow> can_tolerate_failures count spread need \<longleftrightarrow> count + need \<le> spread"
  by (auto simp: can_tolerate_failures_def sat_add8_def)

lemma tolerance_exact:
  "intent_sane i \<Longrightarrow>
     can_tolerate_failures c (total_targets i) (min_surviving_targets i) \<longleftrightarrow> c \<le> max_tolerable_failures i"
  by (cases i) (auto simp: can_tolerate_failures_def sat_add8_def)

text \<open>With 255 targets the saturating sum accepts failures that leave too few.\<close>

lemma tolerance_saturates: "can_tolerate_failures 200 255 200"
  by (simp add: can_tolerate_failures_def sat_add8_def)

lemma covers_order: "covers a a" "covers a b \<Longrightarrow> covers b c \<Longrightarrow> covers a c" "covers a b \<or> covers b a"
  by (auto simp: covers_def)

end
