(* ===== verification/Erasure_Code.thy ===== *)
theory Erasure_Code
  imports Gf_Matrix Replication_Intent
begin

text \<open>
  The Cauchy Reed-Solomon erasure coder: a payload is cut into data shards, parity shards are
  computed with a Cauchy matrix, and the stripe is reconstructed from any sufficiently large subset
  of its shards. Sizes are natural numbers: products of shard counts and lengths are sizes of
  buffers in memory. Reconstruction copies shards of the
  configured length only; the panic on a present shard of another length is left out, as is the list of
  present indices that the code passes along unused. The single-parity layout and the shard-group record of the same file follow.
\<close>

section \<open>Definitions\<close>

datatype shard_kind = Data | Parity

record erasure_shard =
  shard_index :: nat
  shard_kind :: shard_kind
  shard_bytes :: "byte list"

record stripe_config =
  data_shards :: nat
  parity_shards :: nat
  shard_len :: nat

definition stripe_width :: "stripe_config \<Rightarrow> nat" where
  "stripe_width cfg = data_shards cfg + parity_shards cfg"

definition data_capacity :: "stripe_config \<Rightarrow> nat" where
  "data_capacity cfg = data_shards cfg * shard_len cfg"

definition stripe_fragment_count :: "nat \<Rightarrow> nat \<Rightarrow> nat \<Rightarrow> nat \<Rightarrow> nat" where
  "stripe_fragment_count extent_size stripe_index k block_size =
     (if k = 0 \<or> block_size = 0 then 0
      else
        let stripe_capacity = k * block_size; stripe_start = stripe_index * stripe_capacity
        in if stripe_start \<ge> extent_size then 0
           else min (div_ceil (extent_size - stripe_start) block_size) k)"

definition config_from_erasure_coded :: "nat \<Rightarrow> nat \<Rightarrow> nat \<Rightarrow> stripe_config option" where
  "config_from_erasure_coded k m len =
     (if k = 0 \<or> m = 0 \<or> len = 0 \<or> k + m > 255 then None
      else Some \<lparr>data_shards = k, parity_shards = m, shard_len = len\<rparr>)"

definition config_from_replication_intent :: "replication_intent \<Rightarrow> nat \<Rightarrow> stripe_config option" where
  "config_from_replication_intent intent len =
     (case intent of
        ErasureCoded k m _ \<Rightarrow> config_from_erasure_coded k m len
      | Mirror _ _ \<Rightarrow> None
      | Distributed _ _ \<Rightarrow> None)"

record encoded_stripe =
  stripe_cfg :: stripe_config
  stripe_shards :: "erasure_shard list"
  original_payload_len :: nat

record reconstruction =
  rec_payload :: "byte list"
  rebuilt_shards :: "erasure_shard list"

definition build_cauchy_encoding :: "nat \<Rightarrow> nat \<Rightarrow> gf_matrix" where
  "build_cauchy_encoding k m =
     map (\<lambda>i. map (\<lambda>j. if i < k then (if i = j then 1 else 0)
                      else gf_inv (word_of_nat (i - k) XOR word_of_nat (m + j))) [0..<k]) [0..<k + m]"

text \<open>The loop that adds up multiples of shards, skipping zero coefficients.\<close>

definition gf_combine :: "nat \<Rightarrow> byte list \<Rightarrow> byte list list \<Rightarrow> byte list" where
  "gf_combine sl cs vs =
     fold (\<lambda>(c, v) acc. if c = 0 then acc else map (\<lambda>b. acc ! b XOR gf_mul c (v ! b)) [0..<sl])
       (zip cs vs) (replicate sl 0)"

definition compute_parity :: "stripe_config \<Rightarrow> byte list list \<Rightarrow> byte list list" where
  "compute_parity cfg data =
     (let k = data_shards cfg; m = parity_shards cfg; mat = build_cauchy_encoding k m
      in map (\<lambda>row. gf_combine (shard_len cfg) (take k (mat ! (k + row))) data) [0..<m])"

definition data_shard :: "stripe_config \<Rightarrow> byte list \<Rightarrow> nat \<Rightarrow> byte list" where
  "data_shard cfg payload i =
     (let sl = shard_len cfg; start = i * sl;
          end' = max (min (length payload) (start + sl)) start
      in if end' > start then slice start end' payload @ replicate (sl - (end' - start)) 0
         else replicate sl 0)"

definition encode :: "stripe_config \<Rightarrow> byte list \<Rightarrow> encoded_stripe option" where
  "encode cfg payload =
     (if data_shards cfg = 0 \<or> shard_len cfg = 0 \<or> length payload > data_capacity cfg then None
      else
        let ds = data_shards cfg;
            data = map (data_shard cfg payload) [0..<ds];
            parity = compute_parity cfg data
        in Some \<lparr>stripe_cfg = cfg,
             stripe_shards =
               map (\<lambda>i. \<lparr>shard_index = i, shard_kind = Data, shard_bytes = data ! i\<rparr>) [0..<ds]
               @ map (\<lambda>i. \<lparr>shard_index = ds + i, shard_kind = Parity, shard_bytes = parity ! i\<rparr>)
                   [0..<length parity],
             original_payload_len = length payload\<rparr>)"

definition rebuild_parity :: "stripe_config \<Rightarrow> byte list list \<Rightarrow> nat \<Rightarrow> byte list" where
  "rebuild_parity cfg data parity_idx =
     (let k = data_shards cfg; m = parity_shards cfg; mat = build_cauchy_encoding k m
      in gf_combine (shard_len cfg) (map (\<lambda>col. mat ! (k + parity_idx) ! col) [0..<k]) data)"

definition select_rows :: "nat \<Rightarrow> erasure_shard option list \<Rightarrow> nat list \<Rightarrow> nat list \<Rightarrow> nat list" where
  "select_rows k available =
     fold (\<lambda>i sel. if available ! i \<noteq> None \<and> length sel < k then sel @ [i] else sel)"

definition reconstruct_degraded ::
    "stripe_config \<Rightarrow> erasure_shard option list \<Rightarrow> nat list \<Rightarrow> nat \<Rightarrow> reconstruction option" where
  "reconstruct_degraded cfg available missing eff_k =
     (let k = data_shards cfg; m = parity_shards cfg; sl = shard_len cfg; w = stripe_width cfg;
          full = build_cauchy_encoding k m;
          row_sel = select_rows k available [k..<w] (select_rows k available [0..<k] [])
      in if length row_sel < k then None
         else
           let sub = map (\<lambda>r. map (\<lambda>col. full ! r ! col) [0..<k]) row_sel;
               rhs = map (\<lambda>r. shard_bytes (the (available ! r))) row_sel
           in case invert_matrix sub of
                None \<Rightarrow> None
              | Some minv \<Rightarrow>
                  let data = map (\<lambda>col. gf_combine sl (map (\<lambda>row. minv ! col ! row) [0..<k]) rhs) [0..<eff_k];
                      padded = data @ replicate (k - eff_k) (replicate sl 0);
                      rebuilt = map (\<lambda>idx. \<lparr>shard_index = idx,
                                  shard_kind = (if idx < k then Data else Parity),
                                  shard_bytes = (if idx < k then padded ! idx
                                                 else rebuild_parity cfg padded (idx - k))\<rparr>) missing
                  in Some \<lparr>rec_payload = concat data, rebuilt_shards = rebuilt\<rparr>)"

definition reconstruct ::
    "stripe_config \<Rightarrow> erasure_shard option list \<Rightarrow> nat option \<Rightarrow> reconstruction option" where
  "reconstruct cfg available effective_k =
     (let w = stripe_width cfg;
          eff_k = (case effective_k of None \<Rightarrow> data_shards cfg | Some e \<Rightarrow> e);
          present = filter (\<lambda>i. available ! i \<noteq> None) [0..<w];
          missing = filter (\<lambda>i. available ! i = None) [0..<w]
      in if length available \<noteq> w then None
         else if eff_k = 0 \<or> eff_k > data_shards cfg then None
         else if length present < eff_k then None
         else if missing = [] then
           Some \<lparr>rec_payload = concat (map (\<lambda>s. shard_bytes (the s)) (take eff_k available)),
                 rebuilt_shards = []\<rparr>
         else if length missing > parity_shards cfg then None
         else reconstruct_degraded cfg available missing eff_k)"

section \<open>Receipt-tracked stripes\<close>

record receipt_encoded_stripe =
  receipt_shards :: "erasure_shard list"
  receipt_payload_len :: nat

record receipt_reconstructed_stripe =
  receipt_payload :: "byte list"
  receipt_rebuilt :: "erasure_shard list"

datatype receipt_stripe_error =
    EncodeRejected
  | InvalidAvailableSet (set_slots: nat) (set_expected: nat)
  | InsufficientShards (shards_available: nat) (shards_needed: nat)

definition receipt_stripe_width :: "stripe_config \<Rightarrow> nat option" where
  "receipt_stripe_width cfg =
     (if data_shards cfg = 0 \<or> parity_shards cfg = 0 \<or> shard_len cfg = 0 then None
      else if data_shards cfg * shard_len cfg > u64_max then None
      else if data_shards cfg + parity_shards cfg > u64_max then None
      else if data_shards cfg + parity_shards cfg \<le> 255 then Some (data_shards cfg + parity_shards cfg)
      else None)"

definition encode_receipt_stripe ::
    "stripe_config \<Rightarrow> byte list \<Rightarrow> receipt_stripe_error + receipt_encoded_stripe" where
  "encode_receipt_stripe cfg payload =
     (case receipt_stripe_width cfg of
        None \<Rightarrow> Inl EncodeRejected
      | Some _ \<Rightarrow>
          (case encode cfg payload of
             None \<Rightarrow> Inl EncodeRejected
           | Some e \<Rightarrow> Inr \<lparr>receipt_shards = stripe_shards e, receipt_payload_len = original_payload_len e\<rparr>))"

definition slot_valid :: "stripe_config \<Rightarrow> nat \<Rightarrow> erasure_shard option \<Rightarrow> bool" where
  "slot_valid cfg slot s =
     (case s of
        None \<Rightarrow> True
      | Some sh \<Rightarrow> shard_index sh = slot \<and>
          shard_kind sh = (if slot < data_shards cfg then Data else Parity) \<and>
          length (shard_bytes sh) = shard_len cfg)"

definition reconstruct_receipt_stripe ::
    "stripe_config \<Rightarrow> erasure_shard option list \<Rightarrow> receipt_stripe_error + receipt_reconstructed_stripe" where
  "reconstruct_receipt_stripe cfg available =
     (case receipt_stripe_width cfg of
        None \<Rightarrow> Inl (InvalidAvailableSet (length available) (sat_add64 (data_shards cfg) (parity_shards cfg)))
      | Some expected \<Rightarrow>
          if length available \<noteq> expected then Inl (InvalidAvailableSet (length available) expected)
          else if \<exists>slot \<in> set [0..<length available]. \<not> slot_valid cfg slot (available ! slot)
          then Inl (InvalidAvailableSet (length available) expected)
          else case reconstruct cfg available None of
                 None \<Rightarrow> Inl (InsufficientShards (length (filter (\<lambda>s. s \<noteq> None) available)) (data_shards cfg))
               | Some r \<Rightarrow> Inr \<lparr>receipt_payload = rec_payload r, receipt_rebuilt = rebuilt_shards r\<rparr>)"

section \<open>Single parity\<close>

record parity_raid1 =
  data_shard_count :: nat

definition raid1_new :: "nat \<Rightarrow> string + parity_raid1" where
  "raid1_new n = (if n < 2 then Inl ''data_shard_count must be >= 2'' else Inr \<lparr>data_shard_count = n\<rparr>)"

definition xor_into :: "byte list \<Rightarrow> byte list \<Rightarrow> byte list" where
  "xor_into acc shard = map (\<lambda>i. if i < length shard then acc ! i XOR shard ! i else acc ! i) [0..<length acc]"

definition raid1_parity :: "byte list list \<Rightarrow> byte list" where
  "raid1_parity shards = fold (\<lambda>s p. xor_into p s) shards (replicate (Max (insert 0 (set (map length shards)))) 0)"

definition raid1_reconstruct ::
    "parity_raid1 \<Rightarrow> nat \<Rightarrow> (nat \<times> byte list) list \<Rightarrow> byte list \<Rightarrow> string + byte list" where
  "raid1_reconstruct raid missing_index survivors parity =
     (if length survivors \<noteq> data_shard_count raid - 1
      then Inl ''survivors.len() must equal data_shard_count - 1''
      else
        let max_len = max (length parity) (Max (insert 0 (set (map (length \<circ> snd) survivors))));
            acc = fold (\<lambda>(_, s) p. xor_into p s) survivors (replicate max_len 0)
        in Inr (xor_into acc parity))"

definition stripe_write :: "byte list list \<Rightarrow> byte list list \<times> byte list" where
  "stripe_write shards = (shards, raid1_parity shards)"

section \<open>The shard-group record\<close>

record shard_descriptor =
  sd_shard_index :: nat
  sd_device_id :: nat
  sd_offset :: nat
  sd_length :: nat

record shard_group =
  group_id :: "byte list"
  ec_k :: nat
  ec_m :: nat
  sg_flags :: byte
  replica_count :: nat
  sg_logical_offset :: nat
  sg_logical_length :: nat
  original_digest :: "byte list"
  stripe_size :: nat
  stripe_count :: nat
  header_crc32c :: nat
  group_shards :: "shard_descriptor list"

definition flag_compacted :: byte where
  "flag_compacted = 0x01"

definition flag_base_complete :: byte where
  "flag_base_complete = 0x02"

definition shard_count :: "shard_group \<Rightarrow> nat" where
  "shard_count g = (ec_k g + ec_m g) mod 256"

definition is_base_complete :: "shard_group \<Rightarrow> bool" where
  "is_base_complete g \<longleftrightarrow> sg_flags g AND flag_base_complete \<noteq> 0"

definition is_compacted :: "shard_group \<Rightarrow> bool" where
  "is_compacted g \<longleftrightarrow> sg_flags g AND flag_compacted \<noteq> 0"

definition group_is_erasure_coded :: "shard_group \<Rightarrow> bool" where
  "group_is_erasure_coded g \<longleftrightarrow> replica_count g = 0 \<and> ec_m g > 0"

definition validate_constraints :: "shard_group \<Rightarrow> string + unit" where
  "validate_constraints g =
     (if ec_k g = 0 then Inl ''ec_k must be >= 1''
      else if ec_k g + ec_m g > 255 then Inl ''ec_k + ec_m must be <= 255''
      else if ec_k g + ec_m g < 2 then Inl ''at least one redundancy shard required''
      else if stripe_size g < 512 then Inl ''stripe_size must be >= 512''
      else if ec_m g > 0 \<and> replica_count g \<noteq> 0 then Inl ''replicas and EC are exclusive per extent''
      else Inr ())"

end
