(* ===== verification/Erasure_Correct.thy ===== *)
theory Erasure_Correct
  imports Erasure_Code
begin

text \<open>
  Correctness of the erasure coder: every stripe is recovered from any subset of its shards that
  is at least as large as the number of data shards, and the lost shards are rebuilt exactly.
\<close>

section \<open>Combinations of shards\<close>

lemma length_gf_combine [simp]: "length (gf_combine sl cs vs) = sl"
proof -
  have "length acc = sl \<Longrightarrow>
      length (fold (\<lambda>(c, v) acc. if c = 0 then acc else map (\<lambda>b. acc ! b XOR gf_mul c (v ! b)) [0..<sl]) ps acc) = sl"
    for ps :: "(byte \<times> byte list) list" and acc
    by (induction ps arbitrary: acc) auto
  then show ?thesis by (simp add: gf_combine_def)
qed

lemma gf_combine_nth:
  assumes "length cs = n" and "length vs = n" and "b < sl"
  shows "of_byte (gf_combine sl cs vs ! b) = (\<Sum>i < n. of_byte (cs ! i) * of_byte (vs ! i ! b))"
proof -
  let ?f = "\<lambda>(c, v) acc. if c = 0 then acc else map (\<lambda>b. acc ! b XOR gf_mul c (v ! b)) [0..<sl]"
  have "of_byte (fold ?f ps acc ! b)
      = of_byte (acc ! b) + (\<Sum>i < length ps. of_byte (fst (ps ! i)) * of_byte (snd (ps ! i) ! b))"
    if "length acc = sl" for ps :: "(byte \<times> byte list) list" and acc
    using that
  proof (induction ps arbitrary: acc)
    case (Cons p ps)
    have l: "length (?f p acc) = sl" using Cons.prems by (cases p) simp
    have h: "of_byte (?f p acc ! b) = of_byte (acc ! b) + of_byte (fst p) * of_byte (snd p ! b)"
      using assms(3) by (cases p) simp
    show ?case
      using Cons.IH [OF l] h by (simp add: sum.lessThan_Suc_shift add.assoc del: sum.lessThan_Suc split: prod.splits)
  qed simp
  from this [of "replicate sl 0" "zip cs vs"] show ?thesis
    using assms by (simp add: gf_combine_def)
qed

section \<open>Rows of the encoding matrix\<close>

lemma build_cauchy_length [simp]: "length (build_cauchy_encoding k m) = k + m"
  by (simp add: build_cauchy_encoding_def)

lemma build_cauchy_row_length [simp]: "i < k + m \<Longrightarrow> length (build_cauchy_encoding k m ! i) = k"
  by (simp add: build_cauchy_encoding_def)

lemma build_cauchy_entry:
  assumes "i < k + m" and "j < k"
  shows "entry (build_cauchy_encoding k m) i j =
    (if i < k then if i = j then 1 else 0
     else 1 / (of_byte (word_of_nat (i - k)) + of_byte (word_of_nat (m + j))))"
  using assms by (simp add: entry_def build_cauchy_encoding_def inverse_eq_divide)

lemma byte_of_nat_inject: "a < 256 \<Longrightarrow> b < 256 \<Longrightarrow> (word_of_nat a :: byte) = word_of_nat b \<longleftrightarrow> a = b"
  by (metis mod_less unat_byte_of_nat)

text \<open>The Cauchy system over index sets.\<close>

lemma cauchy_indexed:
  fixes x :: "'i \<Rightarrow> 'a::field" and y :: "'j \<Rightarrow> 'a"
  assumes "finite I" and "finite J" and "card I = card J" and "inj_on x I" and "inj_on y J"
    and "\<forall>i \<in> I. \<forall>j \<in> J. x i + y j \<noteq> 0"
    and "\<forall>i \<in> I. (\<Sum>j \<in> J. v j / (x i + y j)) = 0" and "j \<in> J"
  shows "v j = 0"
proof -
  define u where "u = v \<circ> the_inv_into J y"
  have u: "u (y j) = v j" if "j \<in> J" for j using assms(5) that by (simp add: u_def the_inv_into_f_f)
  have "\<forall>z \<in> y ` J. u z = 0"
  proof (rule cauchy_trivial_kernel [of "x ` I"])
    show "card (x ` I) = card (y ` J)" using assms(3-5) by (simp add: card_image)
    show "\<forall>a \<in> x ` I. (\<Sum>z \<in> y ` J. u z / (a + z)) = 0"
      using assms(5,7) u by (auto simp: sum.reindex)
  qed (use assms in auto)
  then show ?thesis using u assms(8) by auto
qed

text \<open>Any \<open>k\<close> distinct rows of the encoding matrix are linearly independent.\<close>

lemma cauchy_rows_independent:
  assumes km: "k + m \<le> 256" and rows: "distinct rows" "length rows = k" "set rows \<subseteq> {..<k + m}"
    and zero: "\<forall>r \<in> set rows. (\<Sum>j < k. entry (build_cauchy_encoding k m) r j * v j) = 0" and j: "j < k"
  shows "v j = 0"
proof -
  let ?D = "set rows \<inter> {..<k}" and ?P = "set rows \<inter> {k..<k + m}"
  let ?J = "{..<k} - set rows"
  have D: "v i = 0" if "i \<in> ?D" for i
  proof -
    have "(\<Sum>j < k. entry (build_cauchy_encoding k m) i j * v j) = (\<Sum>j < k. (if i = j then 1 else 0) * v j)"
      using that by (intro sum.cong refl) (simp add: build_cauchy_entry)
    then show ?thesis using zero that sum_unit [of i k v] by auto
  qed
  have un: "set rows = ?D \<union> ?P" using rows(3) by auto
  have "card (?D \<union> ?P) = card ?D + card ?P" by (rule card_Un_disjoint) auto
  then have "k = card ?D + card ?P"
    using distinct_card [OF rows(1)] rows(2) by (simp only: un [symmetric])
  moreover have "card ?J = k - card ?D"
    by (simp add: card_Diff_subset_Int Int_commute)
  ultimately have card: "card ?P = card ?J" by simp
  let ?x = "\<lambda>i. of_byte (word_of_nat (i - k))" and ?y = "\<lambda>j. of_byte (word_of_nat (m + j))"
  have eqs: "(\<Sum>j \<in> ?J. v j / (?x i + ?y j)) = 0" if i: "i \<in> ?P" for i
  proof -
    have "(\<Sum>j < k. entry (build_cauchy_encoding k m) i j * v j) = (\<Sum>j \<in> ?J. v j / (?x i + ?y j))"
      using i D by (intro sum.mono_neutral_cong_right) (auto simp: build_cauchy_entry)
    then show ?thesis using zero i by auto
  qed
  have "v j = 0" if "j \<in> ?J" for j
  proof (rule cauchy_indexed [of ?P ?J ?x ?y])
    show "inj_on ?x ?P"
    proof (rule inj_onI)
      fix a b
      assume ab: "a \<in> ?P" "b \<in> ?P" "?x a = ?x b"
      then have "a - k = b - k" using km by (simp add: of_byte_inject byte_of_nat_inject)
      then show "a = b" using ab(1,2) by auto
    qed
    show "inj_on ?y ?J"
      by (rule inj_onI) (use km in \<open>simp add: of_byte_inject byte_of_nat_inject\<close>)
    show "\<forall>i \<in> ?P. \<forall>j \<in> ?J. ?x i + ?y j \<noteq> 0"
    proof (intro ballI)
      fix a b
      assume "a \<in> ?P" "b \<in> ?J"
      then have "a - k < 256" "m + b < 256" "a - k \<noteq> m + b" using km by auto
      then show "?x a + ?y b \<noteq> 0" by (simp add: gf_add_eq_0_iff byte_of_nat_inject del: of_nat_add)
    qed
    show "\<forall>i \<in> ?P. (\<Sum>j \<in> ?J. v j / (?x i + ?y j)) = 0" using eqs by blast
  qed (use card that in \<open>simp_all\<close>)
  then show ?thesis using D j by blast
qed

section \<open>Shards of a payload\<close>

text \<open>Shard \<open>i\<close> of a payload, as the encoder produces it.\<close>

definition shard_value :: "stripe_config \<Rightarrow> byte list \<Rightarrow> nat \<Rightarrow> byte list" where
  "shard_value cfg payload i =
     (if i < data_shards cfg then data_shard cfg payload i
      else rebuild_parity cfg (map (data_shard cfg payload) [0..<data_shards cfg]) (i - data_shards cfg))"

definition stripe_shard :: "stripe_config \<Rightarrow> byte list \<Rightarrow> nat \<Rightarrow> erasure_shard" where
  "stripe_shard cfg payload i =
     \<lparr>shard_index = i, shard_kind = (if i < data_shards cfg then Data else Parity),
      shard_bytes = shard_value cfg payload i\<rparr>"

lemma length_data_shard [simp]: "length (data_shard cfg payload i) = shard_len cfg"
  by (auto simp: data_shard_def Let_def slice_def)

lemma data_shard_nth:
  "b < shard_len cfg \<Longrightarrow> data_shard cfg payload i ! b =
     (if i * shard_len cfg + b < length payload then payload ! (i * shard_len cfg + b) else 0)"
  by (auto simp: data_shard_def Let_def slice_def nth_append)

lemma data_shard_beyond:
  assumes "length payload \<le> e * shard_len cfg" and "e \<le> i"
  shows "data_shard cfg payload i = replicate (shard_len cfg) 0"
proof -
  have "length payload \<le> i * shard_len cfg" using assms by (meson le_trans mult_le_mono1)
  then show ?thesis by (intro nth_equalityI) (simp_all add: data_shard_nth)
qed

lemma length_shard_value [simp]: "length (shard_value cfg payload i) = shard_len cfg"
  by (simp add: shard_value_def rebuild_parity_def Let_def)

lemma length_concat_uniform: "\<forall>x \<in> set xs. length x = sl \<Longrightarrow> length (concat xs) = length xs * sl"
  by (induction xs) auto

lemma concat_uniform_nth:
  assumes "\<forall>x \<in> set xs. length x = sl" and "n < length xs * sl"
  shows "concat xs ! n = xs ! (n div sl) ! (n mod sl)"
  using assms
proof (induction xs arbitrary: n)
  case (Cons x xs)
  show ?case
  proof (cases "n < sl")
    case False
    moreover have "0 < sl" using Cons.prems by (cases "sl = 0") auto
    ultimately have "n div sl = Suc ((n - sl) div sl)" "n mod sl = (n - sl) mod sl"
      by (auto simp: le_div_geq le_mod_geq not_less)
    then show ?thesis using False Cons by (auto simp: nth_append)
  qed (use Cons.prems in \<open>simp add: nth_append\<close>)
qed simp

lemma concat_data_shards:
  assumes "length payload \<le> e * shard_len cfg"
  shows "concat (map (data_shard cfg payload) [0..<e])
    = payload @ replicate (e * shard_len cfg - length payload) 0" (is "concat ?xs = _")
proof (rule nth_equalityI)
  have l: "length (concat ?xs) = e * shard_len cfg"
    using length_concat_uniform [of ?xs "shard_len cfg"] by simp
  then show "length (concat ?xs) = length (payload @ replicate (e * shard_len cfg - length payload) 0)"
    using assms by simp
  fix n
  assume "n < length (concat ?xs)"
  then have n: "n < e * shard_len cfg" by (simp only: l)
  then have "n div shard_len cfg < e" by (simp add: less_mult_imp_div_less)
  moreover have "n mod shard_len cfg < shard_len cfg"
    using n by (cases "shard_len cfg = 0") simp_all
  ultimately show "concat ?xs ! n = (payload @ replicate (e * shard_len cfg - length payload) 0) ! n"
    using concat_uniform_nth [of ?xs "shard_len cfg" n] n
    by (simp add: data_shard_nth nth_append)
qed

lemma map_row [simp]: "r < k + m \<Longrightarrow> map ((!) (build_cauchy_encoding k m ! r)) [0..<k] = build_cauchy_encoding k m ! r"
  using map_nth [of "build_cauchy_encoding k m ! r"] by simp

lemma compute_parity_shards:
  "compute_parity cfg data = map (rebuild_parity cfg data) [0..<parity_shards cfg]"
  by (auto simp: compute_parity_def rebuild_parity_def Let_def)

text \<open>Every byte of every shard is the product of a row of the matrix and the data bytes.\<close>

lemma shard_value_nth:
  assumes "i < stripe_width cfg" and b: "b < shard_len cfg"
  shows "of_byte (shard_value cfg payload i ! b) =
    (\<Sum>j < data_shards cfg. entry (build_cauchy_encoding (data_shards cfg) (parity_shards cfg)) i j
       * of_byte (data_shard cfg payload j ! b))"
proof (cases "i < data_shards cfg")
  case True
  have "(\<Sum>j < data_shards cfg. entry (build_cauchy_encoding (data_shards cfg) (parity_shards cfg)) i j
       * of_byte (data_shard cfg payload j ! b)) =
    (\<Sum>j < data_shards cfg. (if i = j then 1 else 0) * of_byte (data_shard cfg payload j ! b))"
    using True assms by (intro sum.cong refl) (simp add: build_cauchy_entry stripe_width_def)
  then show ?thesis using True sum_unit [OF True] by (simp add: shard_value_def)
next
  case False
  let ?k = "data_shards cfg"
  have "of_byte (shard_value cfg payload i ! b) =
      (\<Sum>j < ?k. of_byte (map (\<lambda>col. build_cauchy_encoding ?k (parity_shards cfg) ! i ! col) [0..<?k] ! j)
        * of_byte (map (data_shard cfg payload) [0..<?k] ! j ! b))"
    using False b by (simp add: shard_value_def rebuild_parity_def Let_def gf_combine_nth [where n = ?k])
  then show ?thesis by (simp add: entry_def)
qed

lemma encode_shards:
  assumes "encode cfg payload = Some st"
  shows "stripe_shards st = map (stripe_shard cfg payload) [0..<stripe_width cfg]"
    and "original_payload_len st = length payload"
    and "length payload \<le> data_capacity cfg" "0 < data_shards cfg" "0 < shard_len cfg"
proof -
  have st: "0 < data_shards cfg" "0 < shard_len cfg" "length payload \<le> data_capacity cfg"
    "stripe_shards st =
       map (\<lambda>i. \<lparr>shard_index = i, shard_kind = Data,
              shard_bytes = map (data_shard cfg payload) [0..<data_shards cfg] ! i\<rparr>) [0..<data_shards cfg]
       @ map (\<lambda>i. \<lparr>shard_index = data_shards cfg + i, shard_kind = Parity,
              shard_bytes = compute_parity cfg (map (data_shard cfg payload) [0..<data_shards cfg]) ! i\<rparr>)
           [0..<parity_shards cfg]"
    "original_payload_len st = length payload"
    using assms by (auto simp: encode_def Let_def compute_parity_shards split: if_splits)
  from st(4) show "stripe_shards st = map (stripe_shard cfg payload) [0..<stripe_width cfg]"
    by (intro nth_equalityI)
      (auto simp: stripe_width_def nth_append stripe_shard_def shard_value_def compute_parity_shards)
  show "original_payload_len st = length payload" "length payload \<le> data_capacity cfg"
    "0 < data_shards cfg" "0 < shard_len cfg" using st by simp_all
qed

section \<open>Reconstruction\<close>

lemma select_rows_eq:
  "length sel \<le> k \<Longrightarrow> select_rows k available xs sel
     = sel @ take (k - length sel) (filter (\<lambda>i. available ! i \<noteq> None) xs)"
  by (induction xs arbitrary: sel) (auto simp: select_rows_def take_Cons' Suc_diff_Suc not_less)

lemma select_rows_both:
  assumes "k \<le> w"
  shows "select_rows k available [k..<w] (select_rows k available [0..<k] [])
    = take k (filter (\<lambda>i. available ! i \<noteq> None) [0..<w])"
proof -
  have "[0..<w] = [0..<k] @ [k..<w]" using upt_add_eq_append [of 0 k "w - k"] assms by simp
  then show ?thesis by (simp add: select_rows_eq min_def)
qed

text \<open>What the code sees of a stripe some of whose shards are lost.\<close>

definition stripe_view :: "stripe_config \<Rightarrow> byte list \<Rightarrow> erasure_shard option list \<Rightarrow> bool" where
  "stripe_view cfg payload available \<longleftrightarrow> length available = stripe_width cfg \<and>
     (\<forall>i < stripe_width cfg. available ! i = None \<or> available ! i = Some (stripe_shard cfg payload i))"

definition present_count :: "erasure_shard option list \<Rightarrow> nat" where
  "present_count available = length (filter (\<lambda>s. s \<noteq> None) available)"

lemma stripe_viewD:
  assumes "stripe_view cfg payload available" and "i < stripe_width cfg" and "available ! i \<noteq> None"
  shows "shard_bytes (the (available ! i)) = shard_value cfg payload i"
proof -
  have "available ! i = Some (stripe_shard cfg payload i)" using assms by (auto simp: stripe_view_def)
  then show ?thesis by (simp add: stripe_shard_def)
qed

lemma length_filter_index: "length (filter P xs) = length (filter (\<lambda>i. P (xs ! i)) [0..<length xs])"
proof -
  have "filter P (map ((!) xs) [0..<length xs]) = map ((!) xs) (filter (P \<circ> (!) xs) [0..<length xs])"
    by (rule filter_map)
  then show ?thesis by (simp add: map_nth o_def)
qed

lemma present_missing:
  assumes "length available = w"
  shows "length (filter (\<lambda>i. available ! i \<noteq> None) [0..<w]) = present_count available"
    and "present_count available + length (filter (\<lambda>i. available ! i = None) [0..<w]) = w"
proof -
  show present: "length (filter (\<lambda>i. available ! i \<noteq> None) [0..<w]) = present_count available"
    unfolding present_count_def length_filter_index [of "\<lambda>s. s \<noteq> None" available] assms ..
  show "present_count available + length (filter (\<lambda>i. available ! i = None) [0..<w]) = w"
    using sum_length_filter_compl [of "\<lambda>i. available ! i \<noteq> None" "[0..<w]"] unfolding present not_not by simp
qed

text \<open>Solving the system of any \<open>k\<close> distinct surviving rows gives back the data shards.\<close>

lemma solve_rows:
  assumes km: "data_shards cfg + parity_shards cfg \<le> 256"
    and rows: "distinct rows" "length rows = data_shards cfg" "set rows \<subseteq> {..<stripe_width cfg}"
    and sub: "sub = map (\<lambda>r. map (\<lambda>col. build_cauchy_encoding (data_shards cfg) (parity_shards cfg) ! r ! col)
      [0..<data_shards cfg]) rows"
  obtains minv where "invert_matrix sub = Some minv"
    and "\<And>col. col < data_shards cfg \<Longrightarrow>
      gf_combine (shard_len cfg) (map (\<lambda>row. minv ! col ! row) [0..<data_shards cfg])
        (map (shard_value cfg payload) rows) = data_shard cfg payload col"
proof -
  let ?k = "data_shards cfg" and ?full = "build_cauchy_encoding (data_shards cfg) (parity_shards cfg)"
  have l: "length sub = ?k" using sub rows by simp
  have mv: "mat_vec ?k sub d r = (\<Sum>j < ?k. entry ?full (rows ! r) j * d j)" if "r < ?k" for d r
    unfolding mat_vec_def using that rows(2) by (intro sum.cong refl) (simp add: sub entry_def)
  have "d c = 0" if z: "\<forall>r < ?k. mat_vec ?k sub d r = 0" and c: "c < ?k" for d c
  proof (rule cauchy_rows_independent [OF km rows(1,2) _ _ c])
    show "\<forall>r \<in> set rows. (\<Sum>j < ?k. entry ?full r j * d j) = 0"
    proof
      fix x
      assume "x \<in> set rows"
      then obtain r where r: "r < ?k" "x = rows ! r" using rows(2) by (auto simp: in_set_conv_nth)
      then show "(\<Sum>j < ?k. entry ?full x j * d j) = 0" using z mv [OF r(1), of d] by (simp only: r(2))
    qed
  qed (use rows(3) in \<open>simp add: stripe_width_def\<close>)
  then obtain minv where minv: "invert_matrix sub = Some minv"
    and left: "\<And>d r. r < ?k \<Longrightarrow> (\<Sum>j < ?k. entry minv r j * mat_vec ?k sub d j) = d r"
    using invert_matrix_cases [OF l] by (auto split: option.splits)
  have "gf_combine (shard_len cfg) (map (\<lambda>row. minv ! col ! row) [0..<?k])
      (map (shard_value cfg payload) rows) ! b = data_shard cfg payload col ! b"
    if col: "col < ?k" and b: "b < shard_len cfg" for col b
  proof -
    let ?d = "\<lambda>j. of_byte (data_shard cfg payload j ! b)"
    have "of_byte (shard_value cfg payload (rows ! r) ! b) = mat_vec ?k sub ?d r" if r: "r < ?k" for r
    proof -
      have "rows ! r \<in> set rows" using r rows(2) by simp
      then have "rows ! r < stripe_width cfg" using rows(3) by blast
      from shard_value_nth [OF this b] show ?thesis using mv [OF r, of ?d] by simp
    qed
    then have "(\<Sum>r < ?k. entry minv col r * of_byte (shard_value cfg payload (rows ! r) ! b)) = ?d col"
      using left [OF col, of ?d] by simp
    then have "of_byte (gf_combine (shard_len cfg) (map (\<lambda>row. minv ! col ! row) [0..<?k])
        (map (shard_value cfg payload) rows) ! b) = ?d col"
      using rows(2) b by (simp add: gf_combine_nth [where n = ?k] entry_def)
    then show ?thesis by (simp only: of_byte_inject)
  qed
  then show ?thesis using minv by (intro that) (auto intro!: nth_equalityI)
qed

lemma reconstruct_degraded_correct:
  assumes km: "data_shards cfg + parity_shards cfg \<le> 256" and view: "stripe_view cfg payload available"
    and e: "e \<le> data_shards cfg" "length payload \<le> e * shard_len cfg"
    and enough: "data_shards cfg \<le> present_count available"
    and missing: "set missing \<subseteq> {..<stripe_width cfg}"
  shows "reconstruct_degraded cfg available missing e =
    Some \<lparr>rec_payload = concat (map (data_shard cfg payload) [0..<e]),
          rebuilt_shards = map (stripe_shard cfg payload) missing\<rparr>"
proof -
  let ?k = "data_shards cfg" and ?w = "stripe_width cfg"
  define rows where "rows = take ?k (filter (\<lambda>i. available ! i \<noteq> None) [0..<?w])"
  have sel: "select_rows ?k available [?k..<?w] (select_rows ?k available [0..<?k] []) = rows"
    by (simp add: rows_def select_rows_both stripe_width_def)
  have sub: "set rows \<subseteq> set (filter (\<lambda>i. available ! i \<noteq> None) [0..<?w])"
    unfolding rows_def by (rule set_take_subset)
  have rows: "distinct rows" "length rows = ?k" "set rows \<subseteq> {..<?w}"
    using sub enough view present_missing(1) [of available ?w]
    by (auto simp: rows_def stripe_view_def)
  have rhs: "map (\<lambda>r. shard_bytes (the (available ! r))) rows = map (shard_value cfg payload) rows"
    using sub stripe_viewD [OF view] by (intro map_cong refl) auto
  obtain minv where minv: "invert_matrix (map (\<lambda>r. map (\<lambda>col. build_cauchy_encoding ?k (parity_shards cfg) ! r ! col)
      [0..<?k]) rows) = Some minv"
    and solve: "\<And>col. col < ?k \<Longrightarrow> gf_combine (shard_len cfg) (map (\<lambda>row. minv ! col ! row) [0..<?k])
        (map (shard_value cfg payload) rows) = data_shard cfg payload col"
    using solve_rows [OF km rows refl] by blast
  have data: "map (\<lambda>col. gf_combine (shard_len cfg) (map (\<lambda>row. minv ! col ! row) [0..<?k])
      (map (shard_value cfg payload) rows)) [0..<e] = map (data_shard cfg payload) [0..<e]"
    using solve e(1) by simp
  have padded: "map (data_shard cfg payload) [0..<e] @ replicate (?k - e) (replicate (shard_len cfg) 0)
      = map (data_shard cfg payload) [0..<?k]"
    using e data_shard_beyond [OF e(2)] by (intro nth_equalityI) (auto simp: nth_append)
  show ?thesis
    unfolding reconstruct_degraded_def Let_def sel rhs minv option.case data padded
    using rows(2) missing by (auto simp: stripe_shard_def shard_value_def)
qed

text \<open>The whole function, on every branch.\<close>

lemma reconstruct_view:
  assumes km: "data_shards cfg + parity_shards cfg \<le> 256" and view: "stripe_view cfg payload available"
    and e: "0 < e" "e \<le> data_shards cfg" "length payload \<le> e * shard_len cfg"
  shows "reconstruct cfg available (Some e) =
    (if present_count available < data_shards cfg then None
     else Some \<lparr>rec_payload = payload @ replicate (e * shard_len cfg - length payload) 0,
       rebuilt_shards = map (stripe_shard cfg payload)
         (filter (\<lambda>i. available ! i = None) [0..<stripe_width cfg])\<rparr>)"
proof -
  let ?w = "stripe_width cfg" and ?miss = "filter (\<lambda>i. available ! i = None) [0..<stripe_width cfg]"
  have len: "length available = ?w" using view by (simp add: stripe_view_def)
  note pm = present_missing [OF len]
  have full: "map (\<lambda>s. shard_bytes (the s)) (take e available) = map (data_shard cfg payload) [0..<e]"
    if "?miss = []"
  proof (rule nth_equalityI)
    fix i
    assume "i < length (map (\<lambda>s. shard_bytes (the s)) (take e available))"
    then have i: "i < e" "i < ?w" using len by auto
    have "available ! i \<noteq> None" using that i(2) by (auto simp: filter_empty_conv)
    then have "shard_bytes (the (available ! i)) = data_shard cfg payload i"
      using stripe_viewD [OF view i(2)] i e(2) by (simp add: shard_value_def)
    then show "map (\<lambda>s. shard_bytes (the s)) (take e available) ! i = map (data_shard cfg payload) [0..<e] ! i"
      using i len by simp
  qed (use len e in \<open>simp add: stripe_width_def\<close>)
  have deg: "reconstruct_degraded cfg available ?miss e =
      Some \<lparr>rec_payload = concat (map (data_shard cfg payload) [0..<e]),
        rebuilt_shards = map (stripe_shard cfg payload) ?miss\<rparr>"
    if "data_shards cfg \<le> present_count available"
    using reconstruct_degraded_correct [OF km view e(2,3) that, of ?miss] by auto
  have w: "?w = data_shards cfg + parity_shards cfg" by (simp add: stripe_width_def)
  show ?thesis
  proof (cases "present_count available < data_shards cfg")
    case True
    then have "length ?miss > parity_shards cfg" using pm w by linarith
    then show ?thesis using True len e by (auto simp: reconstruct_def Let_def)
  next
    case False
    then have "length ?miss \<le> parity_shards cfg" using pm w by linarith
    then show ?thesis
      using False len e pm deg full concat_data_shards [OF e(3)]
      by (auto simp: reconstruct_def Let_def not_less)
  qed
qed

lemma reconstruct_default: "reconstruct cfg available None = reconstruct cfg available (Some (data_shards cfg))"
  by (simp add: reconstruct_def)

text \<open>The receipt layer validates the slots and then reconstructs with all data shards in use.\<close>

lemma encode_receiptE:
  assumes "encode_receipt_stripe cfg payload = Inr st"
  obtains "receipt_stripe_width cfg = Some (stripe_width cfg)" "stripe_width cfg \<le> 255"
    "receipt_shards st = map (stripe_shard cfg payload) [0..<stripe_width cfg]"
    "receipt_payload_len st = length payload" "length payload \<le> data_capacity cfg" "0 < data_shards cfg"
proof -
  obtain e w where e: "receipt_stripe_width cfg = Some w" "encode cfg payload = Some e"
    "receipt_shards st = stripe_shards e" "receipt_payload_len st = original_payload_len e"
    using assms by (auto simp: encode_receipt_stripe_def split: option.splits)
  have "w = stripe_width cfg" "stripe_width cfg \<le> 255"
    using e(1) by (auto simp: receipt_stripe_width_def stripe_width_def split: if_splits)
  then show ?thesis using e encode_shards [OF e(2)] that by simp
qed

lemma stripe_view_slots:
  assumes "stripe_view cfg payload available" and "slot < stripe_width cfg"
  shows "slot_valid cfg slot (available ! slot)"
proof -
  have "available ! slot = None \<or> available ! slot = Some (stripe_shard cfg payload slot)"
    using assms by (simp add: stripe_view_def)
  then show ?thesis by (auto simp: slot_valid_def stripe_shard_def)
qed

lemma reconstruct_receipt_view:
  assumes "receipt_stripe_width cfg = Some (stripe_width cfg)" and "stripe_view cfg payload available"
    and "stripe_width cfg \<le> 255" and "0 < data_shards cfg" and "length payload \<le> data_capacity cfg"
  shows "reconstruct_receipt_stripe cfg available =
    (if present_count available < data_shards cfg
     then Inl (InsufficientShards (present_count available) (data_shards cfg))
     else Inr \<lparr>receipt_payload = payload @ replicate (data_capacity cfg - length payload) 0,
       receipt_rebuilt = map (stripe_shard cfg payload)
         (filter (\<lambda>i. available ! i = None) [0..<stripe_width cfg])\<rparr>)"
proof -
  have len: "length available = stripe_width cfg" using assms(2) by (simp add: stripe_view_def)
  have "\<not> (\<exists>slot \<in> set [0..<length available]. \<not> slot_valid cfg slot (available ! slot))"
    using stripe_view_slots [OF assms(2)] len by auto
  moreover have "data_shards cfg + parity_shards cfg \<le> 256" using assms(3) by (simp add: stripe_width_def)
  note reconstruct_view [OF this assms(2) assms(4) order_refl]
  ultimately show ?thesis
    using assms(1,5) len
    by (simp add: reconstruct_receipt_stripe_def reconstruct_default data_capacity_def present_count_def)
qed

section \<open>Single parity\<close>

definition padded :: "byte list \<Rightarrow> nat \<Rightarrow> byte" where
  "padded s b = (if b < length s then s ! b else 0)"

lemma length_xor_into [simp]: "length (xor_into acc s) = length acc"
  by (simp add: xor_into_def)

lemma length_xor_fold [simp]: "length (fold (\<lambda>s p. xor_into p s) shards acc) = length acc"
  by (induction shards arbitrary: acc) auto

lemma xor_into_nth: "b < length acc \<Longrightarrow> of_byte (xor_into acc s ! b) = of_byte (acc ! b) + of_byte (padded s b)"
  by (simp add: xor_into_def padded_def)

lemma xor_fold_nth:
  "b < length acc \<Longrightarrow> of_byte (fold (\<lambda>s p. xor_into p s) shards acc ! b)
     = of_byte (acc ! b) + sum_list (map (\<lambda>s. of_byte (padded s b)) shards)"
proof (induction shards arbitrary: acc)
  case (Cons s shards)
  then show ?case by (simp add: xor_into_nth add.assoc)
qed simp

lemma length_raid1_parity: "s \<in> set shards \<Longrightarrow> length s \<le> length (raid1_parity shards)"
  by (simp add: raid1_parity_def)

text \<open>
  A lost shard of a single-parity stripe is the exclusive-or of the others and the parity. It comes
  back padded with zeros to the length of the longest shard.
\<close>

lemma raid1_reconstruct_correct:
  assumes "shards = xs @ s # ys" and "map snd survivors = xs @ ys" and "length shards = data_shard_count raid"
  shows "raid1_reconstruct raid i survivors (raid1_parity shards)
    = Inr (s @ replicate (length (raid1_parity shards) - length s) 0)"
proof -
  let ?P = "raid1_parity shards" and ?acc = "fold (\<lambda>s p. xor_into p s) (xs @ ys)"
  have n: "length survivors = data_shard_count raid - 1"
    using assms(1,3) arg_cong [OF assms(2), of length] by auto
  have "\<forall>x \<in> set (xs @ ys). length x \<le> length ?P" using length_raid1_parity assms(1) by auto
  then have m: "Max (insert 0 (length ` set (xs @ ys))) \<le> length ?P" by (simp add: image_iff)
  have "set (map (length \<circ> snd) survivors) = length ` set (xs @ ys)"
    by (simp only: assms(2) [symmetric] map_map [symmetric] set_map)
  then have max: "max (length ?P) (Max (insert 0 (set (map (length \<circ> snd) survivors)))) = length ?P"
    using m by (simp only: max_absorb1)
  have acc: "fold (\<lambda>(_, s) p. xor_into p s) survivors a = ?acc a" for a
    by (simp add: assms(2) [symmetric] fold_map o_def case_prod_beta' del: set_append)
  have "of_byte (xor_into (?acc (replicate (length ?P) 0)) ?P ! b)
      = of_byte ((s @ replicate (length ?P - length s) 0) ! b)" if b: "b < length ?P" for b
  proof -
    have "of_byte (padded ?P b) = sum_list (map (\<lambda>s. of_byte (padded s b)) shards)"
      using b by (simp add: padded_def raid1_parity_def xor_fold_nth)
    then show ?thesis
      using b assms(1) by (simp add: xor_into_nth xor_fold_nth padded_def nth_append algebra_simps)
  qed
  then have "xor_into (?acc (replicate (length ?P) 0)) ?P = s @ replicate (length ?P - length s) 0"
    using length_raid1_parity [of s shards] assms(1)
    by (intro nth_equalityI) auto
  then show ?thesis unfolding raid1_reconstruct_def Let_def n max acc by simp
qed

section \<open>Properties\<close>

text \<open>
  C2. Reconstruction of an encoded stripe, on every set of lost shards. With at most 256 shards, and a
  number of used data shards that covers the payload, the stripe is recovered exactly when at least as
  many shards survive as there are data shards: the result is the payload with its zero padding, and
  the rebuilt shards are the lost ones, byte for byte. With fewer survivors there is no result.
\<close>

theorem reconstruct_correct:
  assumes "encode cfg payload = Some st" and "data_shards cfg + parity_shards cfg \<le> 256"
    and "length available = length (stripe_shards st)"
    and "\<forall>i < length available. available ! i = None \<or> available ! i = Some (stripe_shards st ! i)"
    and "0 < e" and "e \<le> data_shards cfg" and "length payload \<le> e * shard_len cfg"
  shows "reconstruct cfg available (Some e) =
    (if length (filter (\<lambda>s. s \<noteq> None) available) < data_shards cfg then None
     else Some \<lparr>rec_payload = payload @ replicate (e * shard_len cfg - length payload) 0,
       rebuilt_shards = map ((!) (stripe_shards st))
         (filter (\<lambda>i. available ! i = None) [0..<length available])\<rparr>)"
proof -
  note st = encode_shards(1) [OF assms(1)]
  have len: "length available = stripe_width cfg" using assms(3) by (simp add: st)
  have nth: "stripe_shards st ! i = stripe_shard cfg payload i" if "i < stripe_width cfg" for i
    using that by (simp add: st)
  have "stripe_view cfg payload available" using assms(4) len nth by (simp add: stripe_view_def)
  moreover have "map (stripe_shard cfg payload) (filter (\<lambda>i. available ! i = None) [0..<stripe_width cfg])
      = map ((!) (stripe_shards st)) (filter (\<lambda>i. available ! i = None) [0..<stripe_width cfg])"
    by (rule map_cong) (auto simp: nth)
  ultimately show ?thesis
    using reconstruct_view [OF assms(2) _ assms(5-7)] by (simp add: present_count_def len)
qed

text \<open>A stripe of two data shards and one parity shard that lost its first shard.\<close>

theorem reconstruct_correct_witness:
  "\<exists>st. encode \<lparr>data_shards = 2, parity_shards = 1, shard_len = 1\<rparr> [5, 7] = Some st \<and>
     reconstruct \<lparr>data_shards = 2, parity_shards = 1, shard_len = 1\<rparr>
       [None, Some (stripe_shards st ! 1), Some (stripe_shards st ! 2)] (Some 2)
     = Some \<lparr>rec_payload = [5, 7], rebuilt_shards = [stripe_shards st ! 0]\<rparr>"
proof -
  let ?cfg = "\<lparr>data_shards = 2, parity_shards = 1, shard_len = 1\<rparr>"
  obtain st where st: "encode ?cfg [5, 7] = Some st" by (simp add: encode_def data_capacity_def Let_def)
  have len: "length (stripe_shards st) = 3" using encode_shards(1) [OF st] by (simp add: stripe_width_def)
  show ?thesis
    using st len reconstruct_correct [OF st, of "[None, Some (stripe_shards st ! 1), Some (stripe_shards st ! 2)]" 2]
    by (simp add: less_Suc_eq numeral_eq_Suc)
qed

text \<open>
  C4. From a replication intent to a recovered payload: the stripe written under an erasure-coding
  intent is read back, with every lost shard rebuilt, exactly as long as no more shards are lost than
  the intent tolerates; beyond that the error names the shards left and the shards needed.
\<close>

theorem intent_tolerates_failures:
  assumes "config_from_replication_intent intent len = Some cfg"
    and "encode_receipt_stripe cfg payload = Inr st"
    and "length available = total_targets intent"
    and "\<forall>i < length available. available ! i = None \<or> available ! i = Some (receipt_shards st ! i)"
  shows "reconstruct_receipt_stripe cfg available =
    (if length (filter (\<lambda>s. s = None) available) \<le> max_tolerable_failures intent
     then Inr \<lparr>receipt_payload = payload @ replicate (data_capacity cfg - receipt_payload_len st) 0,
       receipt_rebuilt = map ((!) (receipt_shards st))
         (filter (\<lambda>i. available ! i = None) [0..<length available])\<rparr>
     else Inl (InsufficientShards (length (filter (\<lambda>s. s \<noteq> None) available)) (data_shards cfg)))"
proof -
  obtain dom where intent: "intent = ErasureCoded (data_shards cfg) (parity_shards cfg) dom"
    and cfg: "0 < data_shards cfg" "0 < parity_shards cfg" "data_shards cfg + parity_shards cfg \<le> 255"
    using assms(1)
    by (auto simp: config_from_replication_intent_def config_from_erasure_coded_def
        split: replication_intent.splits if_splits)
  from assms(2) obtain w: "receipt_stripe_width cfg = Some (stripe_width cfg)" "stripe_width cfg \<le> 255"
    and st: "receipt_shards st = map (stripe_shard cfg payload) [0..<stripe_width cfg]"
      "receipt_payload_len st = length payload" "length payload \<le> data_capacity cfg"
    by (rule encode_receiptE)
  have len: "length available = stripe_width cfg"
    using assms(3) cfg by (simp add: intent sat_add8_def stripe_width_def)
  have view: "stripe_view cfg payload available" using assms(4) len st by (simp add: stripe_view_def)
  have map: "map (stripe_shard cfg payload) (filter (\<lambda>i. available ! i = None) [0..<stripe_width cfg])
      = map ((!) (receipt_shards st)) (filter (\<lambda>i. available ! i = None) [0..<stripe_width cfg])"
    by (rule map_cong) (auto simp: st)
  have "length (filter (\<lambda>s. s = None) available) \<le> max_tolerable_failures intent
      \<longleftrightarrow> \<not> present_count available < data_shards cfg"
    using sum_length_filter_compl [of "\<lambda>s. s = None" available] len
    by (auto simp: intent present_count_def stripe_width_def)
  then show ?thesis
    using reconstruct_receipt_view [OF w(1) view w(2) cfg(1) st(3)] st(2) map
    by (simp add: present_count_def len)
qed

theorem intent_tolerates_failures_witness:
  "\<exists>cfg st. config_from_replication_intent (ErasureCoded 2 1 Node) 1 = Some cfg \<and>
     encode_receipt_stripe cfg [5] = Inr st \<and>
     reconstruct_receipt_stripe cfg [Some (receipt_shards st ! 0), None, Some (receipt_shards st ! 2)]
     = Inr \<lparr>receipt_payload = [5, 0], receipt_rebuilt = [receipt_shards st ! 1]\<rparr>"
proof -
  let ?cfg = "\<lparr>data_shards = 2, parity_shards = 1, shard_len = 1\<rparr>"
  have cfg: "config_from_replication_intent (ErasureCoded 2 1 Node) 1 = Some ?cfg"
    by (simp add: config_from_replication_intent_def config_from_erasure_coded_def)
  obtain st where st: "encode_receipt_stripe ?cfg [5] = Inr st"
    by (simp add: encode_receipt_stripe_def receipt_stripe_width_def u64_max_def encode_def data_capacity_def Let_def)
  have len: "receipt_payload_len st = 1" using encode_receiptE [OF st] by auto
  show ?thesis
    using cfg st len intent_tolerates_failures
      [OF cfg st, of "[Some (receipt_shards st ! 0), None, Some (receipt_shards st ! 2)]"]
    by (simp add: less_Suc_eq numeral_eq_Suc sat_add8_def data_capacity_def)
qed

end
