(* ===== verification/Hlc_Clock.thy ===== *)
theory Hlc_Clock
  imports Tide_Prelude
begin

text \<open>
  The hybrid logical clock: pairs of a physical time and a logical counter, advanced by local events
  and merged with the clock of a received message. A run of several clocks that exchange messages is
  a list of events; the values it logs follow the causal order of the events.
\<close>

section \<open>Definitions\<close>

datatype hlc_value = HlcValue (physical_ns: nat) (logical: nat)

datatype hlc_state = Idle | LocalAdvanced | RemoteMerged | PersistedForReceipt

record hlc =
  hlc_value :: hlc_value
  hlc_state :: hlc_state
  receipt_count :: nat

text \<open>The order derived for the value: physical component first, then the counter.\<close>

instantiation hlc_value :: linorder
begin

definition less_eq_hlc_value :: "hlc_value \<Rightarrow> hlc_value \<Rightarrow> bool" where
  "less_eq_hlc_value a b \<longleftrightarrow> physical_ns a < physical_ns b \<or> physical_ns a = physical_ns b \<and> logical a \<le> logical b"

definition less_hlc_value :: "hlc_value \<Rightarrow> hlc_value \<Rightarrow> bool" where
  "less_hlc_value a b \<longleftrightarrow> physical_ns a < physical_ns b \<or> physical_ns a = physical_ns b \<and> logical a < logical b"

instance
  by standard (auto simp: less_eq_hlc_value_def less_hlc_value_def intro: hlc_value.expand)

end

definition hlc_zero :: hlc_value where
  "hlc_zero = HlcValue 0 0"

definition hlc_new :: hlc where
  "hlc_new = \<lparr>hlc_value = hlc_zero, hlc_state = Idle, receipt_count = 0\<rparr>"

definition from_value :: "hlc_value \<Rightarrow> hlc" where
  "from_value v = \<lparr>hlc_value = v, hlc_state = Idle, receipt_count = 0\<rparr>"

definition advance_local :: "nat \<Rightarrow> hlc \<Rightarrow> hlc" where
  "advance_local phys c =
     (let v = hlc_value c;
          v' = (if phys > physical_ns v then HlcValue phys 0
                else HlcValue (physical_ns v) (sat_add64 (logical v) 1))
      in c\<lparr>hlc_value := v', hlc_state := LocalAdvanced\<rparr>)"

definition merge_remote :: "hlc_value \<Rightarrow> nat \<Rightarrow> hlc \<Rightarrow> hlc" where
  "merge_remote remote local_physical_ns c =
     (let v = hlc_value c;
          max_physical = max (max (physical_ns v) (physical_ns remote)) local_physical_ns;
          v' = (if max_physical > physical_ns v
                then HlcValue max_physical
                  (if max_physical = physical_ns remote \<and> max_physical > local_physical_ns
                   then sat_add64 (logical remote) 1 else 0)
                else HlcValue (physical_ns v) (sat_add64 (max (logical v) (logical remote)) 1))
      in c\<lparr>hlc_value := v', hlc_state := RemoteMerged\<rparr>)"

definition persist_for_receipt :: "hlc \<Rightarrow> hlc" where
  "persist_for_receipt c =
     c\<lparr>hlc_state := PersistedForReceipt, receipt_count := sat_add64 (receipt_count c) 1\<rparr>"

definition happened_before :: "hlc_value \<Rightarrow> hlc_value \<Rightarrow> bool" where
  "happened_before a b \<longleftrightarrow> a < b"

section \<open>Single steps\<close>

lemma advance_local_strict:
  "logical (hlc_value c) < u64_max \<Longrightarrow> hlc_value c < hlc_value (advance_local phys c)"
  by (auto simp: advance_local_def Let_def less_hlc_value_def sat_add64_def)

lemma merge_remote_strict_local:
  "max (logical (hlc_value c)) (logical remote) < u64_max \<Longrightarrow> hlc_value c < hlc_value (merge_remote remote phys c)"
  by (auto simp: merge_remote_def Let_def less_hlc_value_def sat_add64_def)

lemma persist_keeps_value: "hlc_value (persist_for_receipt c) = hlc_value c"
  by (simp add: persist_for_receipt_def)

text \<open>
  The merge is above the remote value unless the wall clock reads exactly the physical component of
  the remote value and both are ahead of the local clock. Then the counter restarts at zero.
\<close>

definition merge_tie :: "hlc \<Rightarrow> hlc_value \<Rightarrow> nat \<Rightarrow> bool" where
  "merge_tie c remote phys \<longleftrightarrow> physical_ns remote = phys \<and> physical_ns (hlc_value c) < phys"

lemma merge_remote_strict_remote:
  assumes "max (logical (hlc_value c)) (logical remote) < u64_max"
  shows "remote < hlc_value (merge_remote remote phys c) \<longleftrightarrow> \<not> merge_tie c remote phys"
proof -
  have "logical (hlc_value c) < u64_max" "logical remote < u64_max" using assms by simp_all
  then show ?thesis
    by (auto simp: merge_remote_def Let_def less_hlc_value_def sat_add64_def merge_tie_def max_def)
qed

section \<open>Runs of communicating clocks\<close>

text \<open>
  An event is a local step of a node, which also sends, or the receipt by a node of the value logged
  by an earlier event. The log holds the node and the value of every event.
\<close>

datatype hlc_event = Local (at_node: nat) (wall: nat) | Receive (at_node: nat) (sent_by: nat) (wall: nat)

type_synonym hlc_log = "(nat \<times> hlc_value) list"

fun hlc_step :: "(nat \<Rightarrow> hlc) \<times> hlc_log \<Rightarrow> hlc_event \<Rightarrow> (nat \<Rightarrow> hlc) \<times> hlc_log" where
  "hlc_step (cs, log) (Local n phys) =
     (let c = advance_local phys (cs n) in (cs(n := c), log @ [(n, hlc_value c)]))"
| "hlc_step (cs, log) (Receive n i phys) =
     (let c = merge_remote (snd (log ! i)) phys (cs n) in (cs(n := c), log @ [(n, hlc_value c)]))"

definition hlc_run :: "hlc_event list \<Rightarrow> (nat \<Rightarrow> hlc) \<times> hlc_log" where
  "hlc_run es = foldl hlc_step (\<lambda>_. hlc_new, []) es"

text \<open>A run is admissible when messages are received after they are sent, counters stay below the
  largest value, and no receipt is a tie.\<close>

definition event_ok :: "(nat \<Rightarrow> hlc) \<times> hlc_log \<Rightarrow> hlc_event \<Rightarrow> bool" where
  "event_ok s e \<longleftrightarrow> logical (hlc_value (fst s (at_node e))) < u64_max \<and>
     (case e of Local n phys \<Rightarrow> True
      | Receive n i phys \<Rightarrow> i < length (snd s) \<and> logical (snd (snd s ! i)) < u64_max
          \<and> \<not> merge_tie (fst s n) (snd (snd s ! i)) phys)"

definition run_ok :: "hlc_event list \<Rightarrow> bool" where
  "run_ok es \<longleftrightarrow> (\<forall>k < length es. event_ok (hlc_run (take k es)) (es ! k))"

text \<open>Direct causes: an earlier event of the same node, or the sending of the received message.\<close>

definition causes :: "hlc_event list \<Rightarrow> (nat \<times> nat) set" where
  "causes es = {(i, j). i < j \<and> j < length es \<and>
     (at_node (es ! i) = at_node (es ! j) \<or> (case es ! j of Local _ _ \<Rightarrow> False | Receive _ k _ \<Rightarrow> k = i))}"

definition logged :: "hlc_event list \<Rightarrow> nat \<Rightarrow> hlc_value" where
  "logged es i = snd (snd (hlc_run es) ! i)"

text \<open>The clock of the node after an event; every event logs its value.\<close>

definition event_clock :: "(nat \<Rightarrow> hlc) \<times> hlc_log \<Rightarrow> hlc_event \<Rightarrow> hlc" where
  "event_clock s e =
     (case e of Local n phys \<Rightarrow> advance_local phys (fst s n)
      | Receive n i phys \<Rightarrow> merge_remote (snd (snd s ! i)) phys (fst s n))"

lemma hlc_step_event_clock:
  "hlc_step s e = ((fst s)(at_node e := event_clock s e), snd s @ [(at_node e, hlc_value (event_clock s e))])"
  by (cases s; cases e) (simp_all add: event_clock_def Let_def)

lemma hlc_run_snoc: "hlc_run (es @ [e]) = hlc_step (hlc_run es) e"
  by (simp add: hlc_run_def)

lemma event_clock_strict:
  assumes "event_ok s e"
  shows "hlc_value (fst s (at_node e)) < hlc_value (event_clock s e)"
    and "e = Receive n i phys \<Longrightarrow> snd (snd s ! i) < hlc_value (event_clock s e)"
  using assms
  by (auto simp: event_ok_def event_clock_def merge_remote_strict_remote split: hlc_event.splits
      intro: advance_local_strict merge_remote_strict_local)

lemma length_log [simp]: "length (snd (hlc_run es)) = length es"
  by (induction es rule: rev_induct) (simp_all add: hlc_run_snoc hlc_step_event_clock, simp add: hlc_run_def)

lemma logged_snoc:
  "logged (es @ [e]) i =
     (if i < length es then logged es i
      else if i = length es then hlc_value (event_clock (hlc_run es) e) else logged (es @ [e]) i)"
  by (simp add: logged_def hlc_run_snoc hlc_step_event_clock nth_append)

lemma run_ok_snoc: "run_ok (es @ [e]) \<longleftrightarrow> run_ok es \<and> event_ok (hlc_run es) e"
  by (auto simp: run_ok_def nth_append less_Suc_eq)

text \<open>No event of a node is above the clock of the node, so every new event is above all its causes.\<close>

lemma logged_below_clock:
  "run_ok es \<Longrightarrow> i < length es \<Longrightarrow> logged es i \<le> hlc_value (fst (hlc_run es) (at_node (es ! i)))"
proof (induction es rule: rev_induct)
  case (snoc e es)
  let ?n = "at_node e"
  have ok: "run_ok es" "event_ok (hlc_run es) e" using snoc.prems(1) by (simp_all add: run_ok_snoc)
  have clock: "hlc_value (fst (hlc_run es) n) \<le> hlc_value (fst (hlc_run (es @ [e])) n)" for n
    using event_clock_strict(1) [OF ok(2)] by (simp add: hlc_run_snoc hlc_step_event_clock less_imp_le)
  show ?case
  proof (cases "i < length es")
    case True
    then show ?thesis
      using snoc.IH [OF ok(1) True] clock [of "at_node (es ! i)"] logged_snoc [of es e i]
      by (simp add: nth_append)
  next
    case False
    then have "i = length es" using snoc.prems(2) by simp
    then show ?thesis using logged_snoc [of es e i] by (simp add: hlc_run_snoc hlc_step_event_clock)
  qed
qed simp

lemma causes_strict: "run_ok es \<Longrightarrow> (i, j) \<in> causes es \<Longrightarrow> logged es i < logged es j"
proof (induction es rule: rev_induct)
  case (snoc e es)
  have ok: "run_ok es" "event_ok (hlc_run es) e" using snoc.prems(1) by (simp_all add: run_ok_snoc)
  have i: "i < j" "j \<le> length es" using snoc.prems(2) by (auto simp: causes_def)
  show ?case
  proof (cases "j < length es")
    case True
    then have "(i, j) \<in> causes es" using snoc.prems(2) i by (auto simp: causes_def nth_append)
    from snoc.IH [OF ok(1) this] show ?thesis
      using True i logged_snoc [of es e i] logged_snoc [of es e j] by simp
  next
    case False
    then have j: "j = length es" using i by simp
    have "logged es i < hlc_value (event_clock (hlc_run es) e)"
    proof (cases "at_node (es ! i) = at_node e")
      case True
      then show ?thesis
        using logged_below_clock [OF ok(1), of i] event_clock_strict(1) [OF ok(2)] i j by simp
    next
      case False
      then obtain n phys where "e = Receive n i phys"
        using snoc.prems(2) i j by (auto simp: causes_def nth_append split: hlc_event.splits)
      from event_clock_strict(2) [OF ok(2) this] show ?thesis by (simp add: logged_def)
    qed
    then show ?thesis using i j logged_snoc [of es e i] logged_snoc [of es e j] by simp
  qed
qed (simp add: causes_def)

section \<open>Properties\<close>

text \<open>
  C7. A merge produces a value above the received one, as its documentation promises for every call,
  exactly when the wall clock does not read the physical component of the received value while being
  ahead of the local clock. In that one case the counter restarts at zero and the result is not above
  the message that caused it. Counters are below their largest value.
\<close>

theorem merge_remote_exceeds_remote:
  assumes "logical (hlc_value c) < u64_max" and "logical remote < u64_max"
  shows "hlc_value c < hlc_value (merge_remote remote phys c)
    \<and> (happened_before remote (hlc_value (merge_remote remote phys c))
       \<longleftrightarrow> \<not> (physical_ns remote = phys \<and> physical_ns (hlc_value c) < phys))"
  using assms merge_remote_strict_local [of c remote phys] merge_remote_strict_remote [of c remote phys]
  by (simp add: happened_before_def merge_tie_def)

theorem merge_remote_exceeds_remote_witness:
  "\<not> happened_before (HlcValue 5 2) (hlc_value (merge_remote (HlcValue 5 2) 5 hlc_new))"
  using merge_remote_exceeds_remote [of hlc_new "HlcValue 5 2" 5]
  by (simp add: hlc_new_def hlc_zero_def u64_max_def)

text \<open>
  C5. Along a run of any number of clocks that exchange messages, the values follow the causal order:
  if one event is a cause of another, through any chain of events of one node and of messages, its
  value is smaller. No counter reaches its largest value and no receipt falls into the tie above.
\<close>

theorem hlc_causality:
  assumes "run_ok es" and "(i, j) \<in> (causes es)\<^sup>+"
  shows "happened_before (logged es i) (logged es j)"
  using assms(2)
proof (induction rule: trancl_induct)
  case (base j)
  then show ?case using causes_strict [OF assms(1)] by (simp add: happened_before_def)
next
  case (step j k)
  then show ?case using causes_strict [OF assms(1)] by (force simp: happened_before_def)
qed

theorem hlc_causality_witness:
  "happened_before (logged [Local 0 10, Receive 1 0 3, Local 1 4, Receive 0 2 7] 0)
     (logged [Local 0 10, Receive 1 0 3, Local 1 4, Receive 0 2 7] 3)"
proof (rule hlc_causality)
  let ?es = "[Local 0 10, Receive 1 0 3, Local 1 4, Receive 0 2 7]"
  show "run_ok ?es"
    by (simp add: run_ok_def less_Suc_eq numeral_eq_Suc)
      (simp add: hlc_run_def event_ok_def merge_tie_def hlc_new_def hlc_zero_def advance_local_def merge_remote_def
        Let_def sat_add64_def u64_max_def)
  have "(0, 1) \<in> causes ?es" "(1, 2) \<in> causes ?es" "(2, 3) \<in> causes ?es" by (simp_all add: causes_def)
  then show "(0, 3) \<in> (causes ?es)\<^sup>+" by (meson trancl.intros)
qed

end
