(* ===== verification/Bptree.thy ===== *)
theory Bptree
  imports Le_Bytes
begin

text \<open>
  The in-memory B+tree: nodes with their checksums, lookup, predecessor search, range queries,
  insertion with splits, deletion by rebuilding, and bulk construction. The two capacities and the
  hash function are parameters. Keys are any linear order. A recursive call on one child is written
  as the selection from the results on all children. The invariant excludes the empty nodes and the
  missing children on which the code would panic. The depth, a \<open>u8\<close> in the code, is a natural
  number. Of the information that lazy deletion returns on an underfull leaf only the number of
  entries is kept, and its floating-point test for a fill below one half is written on integers.
\<close>

section \<open>Nodes\<close>

record btree_params =
  max_leaf :: nat
  max_internal :: nat
  blake3 :: "byte list \<Rightarrow> byte list"

datatype ('k, 'v) btree_node =
    Leaf "('k \<times> 'v) list" "byte list"
  | Internal "'k list" "('k, 'v) btree_node list" "byte list"

datatype btree_error =
    InternalTooFewChildren | LeafOverflow | InternalOverflow | LeafUnderflow | InternalUnderflow
  | KeyChildMismatch | KeyOrderViolation | LengthMismatch | SeparatorMismatch | ChecksumMismatch

definition min_leaf :: "btree_params \<Rightarrow> nat" where
  "min_leaf p = div_ceil (max_leaf p) 2"

definition min_internal :: "btree_params \<Rightarrow> nat" where
  "min_internal p = div_ceil (max_internal p) 2"

definition leaf_checksum :: "btree_params \<Rightarrow> nat \<Rightarrow> byte list" where
  "leaf_checksum p len = blake3 p (map of_char ''tidefs-btree-leaf-v1'' @ le_bytes 8 len)"

primrec node_checksum :: "('k, 'v) btree_node \<Rightarrow> byte list" where
  "node_checksum (Leaf es c) = c"
| "node_checksum (Internal ks cs c) = c"

definition internal_checksum :: "btree_params \<Rightarrow> ('k, 'v) btree_node list \<Rightarrow> byte list" where
  "internal_checksum p cs =
     blake3 p (map of_char ''tidefs-btree-internal-v1'' @ le_bytes 8 (length cs) @ concat (map node_checksum cs))"

fun min_key :: "('k, 'v) btree_node \<Rightarrow> 'k" where
  "min_key (Leaf es c) = fst (hd es)"
| "min_key (Internal ks cs c) = hd (map min_key cs)"

fun collect_all :: "('k, 'v) btree_node \<Rightarrow> ('k \<times> 'v) list" where
  "collect_all (Leaf es c) = es"
| "collect_all (Internal ks cs c) = concat (map collect_all cs)"

definition last_option :: "'a list \<Rightarrow> 'a option" where
  "last_option xs = (if xs = [] then None else Some (last xs))"

fun max_entry :: "('k, 'v) btree_node \<Rightarrow> ('k \<times> 'v) option" where
  "max_entry (Leaf es c) = last_option es"
| "max_entry (Internal ks cs c) = Option.bind (last_option (map max_entry cs)) (\<lambda>x. x)"

text \<open>
  \<open>binary_search_by\<close> on entries in key order: the index of the key, or the index at which it would
  be inserted. \<open>partition_point\<close> is also what a binary search returns whose comparison never
  reports equality.
\<close>

definition partition_point :: "('a \<Rightarrow> bool) \<Rightarrow> 'a list \<Rightarrow> nat" where
  "partition_point P xs = length (takeWhile P xs)"

definition binary_search :: "'k::linorder \<Rightarrow> ('k \<times> 'v) list \<Rightarrow> nat + nat" where
  "binary_search key es =
     (let i = partition_point (\<lambda>(k, _). k < key) es
      in if i < length es \<and> fst (es ! i) = key then Inr i else Inl i)"

fun floor_in_node :: "'k::linorder \<Rightarrow> ('k, 'v) btree_node \<Rightarrow> ('k \<times> 'v) option" where
  "floor_in_node key (Leaf es c) =
     (case binary_search key es of Inr i \<Rightarrow> Some (es ! i)
      | Inl i \<Rightarrow> if i = 0 then None else Some (es ! (i - 1)))"
| "floor_in_node key (Internal ks cs c) =
     (let i = partition_point (\<lambda>k. \<not> key < k) ks
      in case (map (floor_in_node key) cs) ! i of
           Some e \<Rightarrow> Some e
         | None \<Rightarrow> if i > 0 then max_entry (cs ! (i - 1)) else None)"

fun node_depth :: "('k, 'v) btree_node \<Rightarrow> nat" where
  "node_depth (Leaf es c) = 1"
| "node_depth (Internal ks cs c) = 1 + hd (map node_depth cs)"

fun collect_range :: "'k::linorder option \<Rightarrow> 'k option \<Rightarrow> ('k, 'v) btree_node \<Rightarrow> ('k \<times> 'v) list" where
  "collect_range start end' (Leaf es c) =
     takeWhile (\<lambda>(k, v). case end' of None \<Rightarrow> True | Some e \<Rightarrow> k < e)
       (filter (\<lambda>(k, v). case start of None \<Rightarrow> True | Some s \<Rightarrow> \<not> k < s) es)"
| "collect_range start end' (Internal ks cs c) =
     (let first_child = (case start of None \<Rightarrow> 0 | Some s \<Rightarrow> partition_point (\<lambda>k. \<not> s < k) ks);
          parts = map (collect_range start end') cs
      in concat (map snd
           (takeWhile (\<lambda>(i, _). case end' of None \<Rightarrow> True | Some e \<Rightarrow> \<not> (i > 0 \<and> ks ! (i - 1) \<ge> e))
             (drop first_child (enumerate 0 parts)))))"

fun get_in_node :: "'k::linorder \<Rightarrow> ('k, 'v) btree_node \<Rightarrow> 'v option" where
  "get_in_node key (Leaf es c) =
     (case binary_search key es of Inr i \<Rightarrow> Some (snd (es ! i)) | Inl _ \<Rightarrow> None)"
| "get_in_node key (Internal ks cs c) = map (get_in_node key) cs ! partition_point (\<lambda>k. \<not> key < k) ks"

definition mk_internal :: "btree_params \<Rightarrow> ('k, 'v) btree_node list \<Rightarrow> ('k, 'v) btree_node" where
  "mk_internal p cs = Internal (map min_key (drop 1 cs)) cs (internal_checksum p cs)"

definition mk_leaf :: "btree_params \<Rightarrow> ('k \<times> 'v) list \<Rightarrow> ('k, 'v) btree_node" where
  "mk_leaf p es = Leaf es (leaf_checksum p (length es))"

definition insert_at :: "nat \<Rightarrow> 'a \<Rightarrow> 'a list \<Rightarrow> 'a list" where
  "insert_at i x xs = take i xs @ x # drop i xs"

text \<open>
  Insertion returns the changed node, the previous value and the right half of a split.
\<close>

fun insert_into_node ::
    "btree_params \<Rightarrow> 'k::linorder \<Rightarrow> 'v \<Rightarrow> ('k, 'v) btree_node \<Rightarrow>
     ('k, 'v) btree_node \<times> 'v option \<times> ('k, 'v) btree_node option" where
  "insert_into_node p key val (Leaf es c) =
     (case binary_search key es of
        Inr i \<Rightarrow> (mk_leaf p (es[i := (key, val)]), Some (snd (es ! i)), None)
      | Inl i \<Rightarrow>
          let es' = insert_at i (key, val) es
          in if length es' \<le> max_leaf p then (mk_leaf p es', None, None)
             else let h = div_ceil (length es') 2
                  in (mk_leaf p (take h es'), None, Some (mk_leaf p (drop h es'))))"
| "insert_into_node p key val (Internal ks cs c) =
     (let i = partition_point (\<lambda>k. key \<ge> k) ks;
          (child, previous, split) = map (insert_into_node p key val) cs ! i;
          cs1 = cs[i := child];
          cs2 = (case split of None \<Rightarrow> cs1 | Some right \<Rightarrow> insert_at (i + 1) right cs1)
      in if length cs2 \<le> max_internal p then (mk_internal p cs2, previous, None)
         else let h = div_ceil (length cs2) 2
              in (mk_internal p (take h cs2), previous, Some (mk_internal p (drop h cs2))))"

section \<open>Bulk construction\<close>

text \<open>The loop that lowers the number of groups while they would be below the minimum.\<close>

fun lower_groups :: "nat \<Rightarrow> nat \<Rightarrow> nat \<Rightarrow> nat" where
  "lower_groups n minimum 0 = 0"
| "lower_groups n minimum (Suc g) =
     (if Suc g > 1 \<and> div_ceil n (Suc g) < minimum then lower_groups n minimum g else Suc g)"

text \<open>Cutting a list into pieces of given sizes, and the sizes of an even distribution.\<close>

fun cut_pieces :: "nat list \<Rightarrow> 'a list \<Rightarrow> 'a list list" where
  "cut_pieces [] xs = []"
| "cut_pieces (s # ss) xs = take s xs # cut_pieces ss (drop s xs)"

definition even_sizes :: "nat \<Rightarrow> nat \<Rightarrow> nat list" where
  "even_sizes n g = map (\<lambda>i. if i < n mod g then n div g + 1 else n div g) [0..<g]"

definition build_compact_leaves :: "btree_params \<Rightarrow> ('k \<times> 'v) list \<Rightarrow> ('k, 'v) btree_node list" where
  "build_compact_leaves p es =
     (let n = length es
      in if n \<le> max_leaf p then [mk_leaf p es]
         else let num_leaves = lower_groups n (min_leaf p) (div_ceil n (max_leaf p))
              in map (mk_leaf p) (cut_pieces (even_sizes n num_leaves) es))"

definition join_nodes :: "btree_params \<Rightarrow> ('k, 'v) btree_node list \<Rightarrow> ('k, 'v) btree_node" where
  "join_nodes p chunk = (if length chunk = 1 then chunk ! 0 else mk_internal p chunk)"

definition build_compact_internal_level ::
    "btree_params \<Rightarrow> ('k, 'v) btree_node list \<Rightarrow> ('k, 'v) btree_node list" where
  "build_compact_internal_level p cs =
     (let n = length cs
      in if n \<le> max_internal p then (if n = 1 then cs else [mk_internal p cs])
         else let num_internals = lower_groups n (min_internal p) (div_ceil n (max_internal p))
              in map (join_nodes p) (cut_pieces (even_sizes n num_internals) cs))"

text \<open>
  The loop that adds levels until a single node is left. It need not end for every function that
  builds a level, so not ending is a possible result.
\<close>

partial_function (option) build_up ::
    "(('k, 'v) btree_node list \<Rightarrow> ('k, 'v) btree_node list) \<Rightarrow> ('k, 'v) btree_node list \<Rightarrow> ('k, 'v) btree_node option" where
  "build_up level current = (if length current > 1 then build_up level (level current) else Some (hd current))"

fun chunks :: "nat \<Rightarrow> 'a list \<Rightarrow> 'a list list" where
  "chunks n xs = (if xs = [] then [] else if n = 0 then [] else take n xs # chunks n (drop n xs))"

declare chunks.simps [simp del]

definition chunk_level :: "btree_params \<Rightarrow> ('k, 'v) btree_node list \<Rightarrow> ('k, 'v) btree_node list" where
  "chunk_level p cs = map (join_nodes p) (chunks (max_internal p) cs)"

section \<open>The tree\<close>

record ('k, 'v) bptree =
  root :: "('k, 'v) btree_node"
  tree_len :: nat

definition bpt_new :: "btree_params \<Rightarrow> ('k, 'v) bptree" where
  "bpt_new p = \<lparr>root = Leaf [] (leaf_checksum p 0), tree_len = 0\<rparr>"

definition bpt_get :: "'k::linorder \<Rightarrow> ('k, 'v) bptree \<Rightarrow> 'v option" where
  "bpt_get key t = get_in_node key (root t)"

definition floor_entry :: "'k::linorder \<Rightarrow> ('k, 'v) bptree \<Rightarrow> ('k \<times> 'v) option" where
  "floor_entry key t = floor_in_node key (root t)"

definition contains_key :: "'k::linorder \<Rightarrow> ('k, 'v) bptree \<Rightarrow> bool" where
  "contains_key key t \<longleftrightarrow> bpt_get key t \<noteq> None"

definition bpt_insert :: "btree_params \<Rightarrow> 'k::linorder \<Rightarrow> 'v \<Rightarrow> ('k, 'v) bptree \<Rightarrow> 'v option \<times> ('k, 'v) bptree" where
  "bpt_insert p key val t =
     (let (n, previous, split) = insert_into_node p key val (root t);
          r = (case split of None \<Rightarrow> n | Some right \<Rightarrow> mk_internal p [n, right])
      in (previous, \<lparr>root = r, tree_len = (if previous = None then tree_len t + 1 else tree_len t)\<rparr>))"

definition bpt_entries :: "('k, 'v) bptree \<Rightarrow> ('k \<times> 'v) list" where
  "bpt_entries t = collect_all (root t)"

definition rebuild_compact :: "btree_params \<Rightarrow> ('k \<times> 'v) list \<Rightarrow> ('k, 'v) bptree option" where
  "rebuild_compact p es =
     (if es = [] then Some (bpt_new p)
      else map_option (\<lambda>r. \<lparr>root = r, tree_len = length es\<rparr>)
        (build_up (build_compact_internal_level p) (build_compact_leaves p es)))"

definition rebuild :: "btree_params \<Rightarrow> ('k \<times> 'v) list \<Rightarrow> ('k, 'v) bptree option" where
  "rebuild p es =
     (if es = [] then Some (bpt_new p)
      else map_option (\<lambda>r. \<lparr>root = r, tree_len = length es\<rparr>)
        (build_up (chunk_level p) (map (mk_leaf p) (chunks (max_leaf p) es))))"

definition remove_at :: "nat \<Rightarrow> 'a list \<Rightarrow> 'a list" where
  "remove_at i xs = take i xs @ drop (i + 1) xs"

definition bpt_delete :: "btree_params \<Rightarrow> 'k::linorder \<Rightarrow> ('k, 'v) bptree \<Rightarrow> ('v option \<times> ('k, 'v) bptree) option" where
  "bpt_delete p key t =
     (let es = bpt_entries t
      in case binary_search key es of
           Inr i \<Rightarrow> map_option (\<lambda>t'. (Some (snd (es ! i)), t')) (rebuild_compact p (remove_at i es))
         | Inl _ \<Rightarrow> Some (None, t))"

definition bpt_update :: "btree_params \<Rightarrow> 'k::linorder \<Rightarrow> ('v \<Rightarrow> 'v) \<Rightarrow> ('k, 'v) bptree \<Rightarrow> (bool \<times> ('k, 'v) bptree) option" where
  "bpt_update p key f t =
     (let es = bpt_entries t
      in case binary_search key es of
           Inr i \<Rightarrow> map_option (\<lambda>t'. (True, t')) (rebuild_compact p (es[i := (fst (es ! i), f (snd (es ! i)))]))
         | Inl _ \<Rightarrow> Some (False, t))"

definition bpt_clear :: "btree_params \<Rightarrow> ('k, 'v) bptree \<Rightarrow> ('k, 'v) bptree" where
  "bpt_clear p t = bpt_new p"

definition compact :: "btree_params \<Rightarrow> ('k, 'v) bptree \<Rightarrow> ('k, 'v) bptree option" where
  "compact p t = (if tree_len t = 0 then Some t else rebuild_compact p (bpt_entries t))"

definition tree_depth :: "('k, 'v) bptree \<Rightarrow> nat" where
  "tree_depth t = (if tree_len t = 0 then 1 else node_depth (root t))"

fun count_leaves :: "('k, 'v) btree_node \<Rightarrow> nat" where
  "count_leaves (Leaf es c) = 1"
| "count_leaves (Internal ks cs c) = sum_list (map count_leaves cs)"

fun count_internals :: "('k, 'v) btree_node \<Rightarrow> nat" where
  "count_internals (Leaf es c) = 0"
| "count_internals (Internal ks cs c) = 1 + sum_list (map count_internals cs)"

definition node_count :: "('k, 'v) bptree \<Rightarrow> nat" where
  "node_count t = count_leaves (root t) + (if tree_len t = 0 then 0 else count_internals (root t))"

text \<open>The non-root leaves below half of their capacity, by their number of entries.\<close>

fun collect_underfull :: "btree_params \<Rightarrow> bool \<Rightarrow> ('k, 'v) btree_node \<Rightarrow> nat list" where
  "collect_underfull p is_root (Leaf es c) =
     (if \<not> is_root \<and> 2 * length es < max_leaf p then [length es] else [])"
| "collect_underfull p is_root (Internal ks cs c) = concat (map (collect_underfull p False) cs)"

definition delete_lazy ::
    "btree_params \<Rightarrow> 'k::linorder \<Rightarrow> ('k, 'v) bptree \<Rightarrow> ('v option \<times> nat list \<times> ('k, 'v) bptree) option" where
  "delete_lazy p key t =
     (let es = bpt_entries t
      in case binary_search key es of
           Inr i \<Rightarrow> map_option (\<lambda>t'. (Some (snd (es ! i)),
               (if tree_len t' = 0 then [] else collect_underfull p True (root t')), t'))
             (rebuild p (remove_at i es))
         | Inl _ \<Rightarrow> Some (None, [], t))"

datatype 'k bound = Included 'k | Excluded 'k | Unbounded

definition in_range :: "'k::linorder bound \<Rightarrow> 'k bound \<Rightarrow> 'k \<Rightarrow> bool" where
  "in_range lo hi k \<longleftrightarrow>
     (case lo of Included a \<Rightarrow> a \<le> k | Excluded a \<Rightarrow> a < k | Unbounded \<Rightarrow> True) \<and>
     (case hi of Included b \<Rightarrow> k \<le> b | Excluded b \<Rightarrow> k < b | Unbounded \<Rightarrow> True)"

definition bpt_range :: "'k::linorder bound \<Rightarrow> 'k bound \<Rightarrow> ('k, 'v) bptree \<Rightarrow> ('k \<times> 'v) list" where
  "bpt_range lo hi t =
     (let start = (case lo of Included k \<Rightarrow> Some k | Excluded k \<Rightarrow> Some k | Unbounded \<Rightarrow> None);
          end' = (case hi of Included k \<Rightarrow> None | Excluded k \<Rightarrow> Some k | Unbounded \<Rightarrow> None)
      in filter (\<lambda>(k, _). in_range lo hi k) (collect_range start end' (root t)))"

definition range_from_to :: "'k::linorder \<Rightarrow> 'k \<Rightarrow> ('k, 'v) bptree \<Rightarrow> ('k \<times> 'v) list" where
  "range_from_to start end' t =
     (if start \<ge> end' then [] else collect_range (Some start) (Some end') (root t))"

section \<open>Validation\<close>

fun windows_ok :: "('a \<Rightarrow> 'a \<Rightarrow> bool) \<Rightarrow> 'a list \<Rightarrow> bool" where
  "windows_ok R (x # y # zs) \<longleftrightarrow> R x y \<and> windows_ok R (y # zs)"
| "windows_ok R xs \<longleftrightarrow> True"

text \<open>The first error in a list of results.\<close>

fun first_error :: "('e + unit) list \<Rightarrow> 'e + unit" where
  "first_error [] = Inr ()"
| "first_error (r # rs) = (case r of Inl e \<Rightarrow> Inl e | Inr _ \<Rightarrow> first_error rs)"

fun validate_node :: "btree_params \<Rightarrow> bool \<Rightarrow> ('k::linorder, 'v) btree_node \<Rightarrow> btree_error + unit" where
  "validate_node p is_root (Leaf es c) =
     (if length es > max_leaf p then Inl LeafOverflow
      else if \<not> is_root \<and> length es < min_leaf p then Inl LeafUnderflow
      else if \<not> windows_ok (\<lambda>a b. fst a < fst b) es then Inl KeyOrderViolation
      else Inr ())"
| "validate_node p is_root (Internal ks cs c) =
     (let results = map (validate_node p False) cs
      in if length cs < 2 then Inl InternalTooFewChildren
      else if length cs > max_internal p then Inl InternalOverflow
      else if \<not> is_root \<and> length cs < min_internal p then Inl InternalUnderflow
      else if length ks \<noteq> length cs - 1 then Inl KeyChildMismatch
      else if ks \<noteq> map min_key (drop 1 cs) then Inl SeparatorMismatch
      else if \<not> windows_ok (<) ks then Inl KeyOrderViolation
      else first_error results)"

fun verify_node_checksums :: "btree_params \<Rightarrow> ('k, 'v) btree_node \<Rightarrow> btree_error + unit" where
  "verify_node_checksums p (Leaf es c) =
     (if c \<noteq> leaf_checksum p (length es) then Inl ChecksumMismatch else Inr ())"
| "verify_node_checksums p (Internal ks cs c) =
     (let results = map (verify_node_checksums p) cs
      in if c \<noteq> internal_checksum p cs then Inl ChecksumMismatch
         else first_error results)"

definition bpt_validate :: "btree_params \<Rightarrow> ('k::linorder, 'v) bptree \<Rightarrow> btree_error + unit" where
  "bpt_validate p t =
     (if tree_len t = 0
      then (case root t of
              Leaf es c \<Rightarrow> if es = [] then (if c \<noteq> leaf_checksum p 0 then Inl ChecksumMismatch else Inr ())
                           else Inl KeyChildMismatch
            | Internal _ _ _ \<Rightarrow> Inl KeyChildMismatch)
      else case validate_node p True (root t) of
             Inl e \<Rightarrow> Inl e
           | Inr _ \<Rightarrow> verify_node_checksums p (root t))"

section \<open>Construction from a stream\<close>

text \<open>The stream may fail; an entry is either an error of the source or a key with its value.\<close>

datatype 'e rebuild_error = Source 'e | Tree btree_error

fun take_sorted ::
    "nat \<Rightarrow> 'k::linorder option \<Rightarrow> ('e + 'k \<times> 'v) list \<Rightarrow>
     'e rebuild_error + ('k \<times> 'v) list \<times> 'k option \<times> ('e + 'k \<times> 'v) list" where
  "take_sorted 0 prev it = Inr ([], prev, it)"
| "take_sorted (Suc n) prev [] = Inl (Tree LengthMismatch)"
| "take_sorted (Suc n) prev (Inl e # it) = Inl (Source e)"
| "take_sorted (Suc n) prev (Inr (k, v) # it) =
     (if (case prev of None \<Rightarrow> False | Some q \<Rightarrow> q \<ge> k) then Inl (Tree KeyOrderViolation)
      else case take_sorted n (Some k) it of
             Inl e \<Rightarrow> Inl e
           | Inr (es, rest) \<Rightarrow> Inr ((k, v) # es, rest))"

fun read_leaves ::
    "nat list \<Rightarrow> 'k::linorder option \<Rightarrow> ('e + 'k \<times> 'v) list \<Rightarrow>
     'e rebuild_error + ('k \<times> 'v) list list \<times> ('e + 'k \<times> 'v) list" where
  "read_leaves [] prev it = Inr ([], it)"
| "read_leaves (s # ss) prev it =
     (case take_sorted s prev it of
        Inl e \<Rightarrow> Inl e
      | Inr (es, prev', it') \<Rightarrow>
          (case read_leaves ss prev' it' of
             Inl e \<Rightarrow> Inl e
           | Inr (ls, rest) \<Rightarrow> Inr (es # ls, rest)))"

definition stream_end :: "('e + 'x) list \<Rightarrow> 'a \<Rightarrow> 'e rebuild_error + 'a" where
  "stream_end it a =
     (case it of [] \<Rightarrow> Inr a | Inr _ # _ \<Rightarrow> Inl (Tree LengthMismatch) | Inl e # _ \<Rightarrow> Inl (Source e))"

definition build_compact_root_from_sorted_iter ::
    "btree_params \<Rightarrow> nat \<Rightarrow> ('e + 'k::linorder \<times> 'v) list \<Rightarrow> ('e rebuild_error + ('k, 'v) btree_node) option" where
  "build_compact_root_from_sorted_iter p expected_len it =
     (if expected_len = 0 then Some (stream_end it (Leaf [] (leaf_checksum p 0)))
      else
        let num_leaves = lower_groups expected_len (min_leaf p) (div_ceil expected_len (max_leaf p))
        in case read_leaves (even_sizes expected_len num_leaves) None it of
             Inl e \<Rightarrow> Some (Inl e)
           | Inr (leaves, rest) \<Rightarrow>
               (case stream_end rest () of
                  Inl e \<Rightarrow> Some (Inl e)
                | Inr _ \<Rightarrow> map_option Inr (build_up (build_compact_internal_level p) (map (mk_leaf p) leaves))))"

definition try_rebuild_compact_from_sorted_iter ::
    "btree_params \<Rightarrow> nat \<Rightarrow> ('e + 'k::linorder \<times> 'v) list \<Rightarrow> ('k, 'v) bptree \<Rightarrow>
     (('e rebuild_error + unit) \<times> ('k, 'v) bptree) option" where
  "try_rebuild_compact_from_sorted_iter p expected_len it t =
     map_option (\<lambda>r. case r of Inl e \<Rightarrow> (Inl e, t) | Inr n \<Rightarrow> (Inr (), \<lparr>root = n, tree_len = expected_len\<rparr>))
       (build_compact_root_from_sorted_iter p expected_len it)"

text \<open>Without a known length, full leaves are emitted as the stream is read.\<close>

fun stream_leaves ::
    "nat \<Rightarrow> ('e + 'k::linorder \<times> 'v) list \<Rightarrow> 'k option \<Rightarrow> ('k \<times> 'v) list \<Rightarrow> ('k \<times> 'v) list list \<Rightarrow> nat \<Rightarrow>
     'e rebuild_error + ('k \<times> 'v) list list \<times> ('k \<times> 'v) list \<times> nat" where
  "stream_leaves ml [] prev leaf leaves len = Inr (leaves, leaf, len)"
| "stream_leaves ml (Inl e # it) prev leaf leaves len = Inl (Source e)"
| "stream_leaves ml (Inr (k, v) # it) prev leaf leaves len =
     (if (case prev of None \<Rightarrow> False | Some q \<Rightarrow> q \<ge> k) then Inl (Tree KeyOrderViolation)
      else
        let leaf' = leaf @ [(k, v)]
        in if length leaf' = ml then stream_leaves ml it (Some k) [] (leaves @ [leaf']) (len + 1)
           else stream_leaves ml it (Some k) leaf' leaves (len + 1))"

definition finish_leaves :: "btree_params \<Rightarrow> 'a list list \<Rightarrow> 'a list \<Rightarrow> 'a list list" where
  "finish_leaves p leaves leaf =
     (if leaf = [] then leaves
      else if leaves = [] \<or> length leaf \<ge> min_leaf p then leaves @ [leaf]
      else let merged = last leaves @ leaf; left_len = length merged div 2
           in butlast leaves @ [take left_len merged, drop left_len merged])"

definition build_compact_root_from_sorted_unknown_len_iter ::
    "btree_params \<Rightarrow> ('e + 'k::linorder \<times> 'v) list \<Rightarrow> ('e rebuild_error + ('k, 'v) btree_node \<times> nat) option" where
  "build_compact_root_from_sorted_unknown_len_iter p it =
     (case stream_leaves (max_leaf p) it None [] [] 0 of
        Inl e \<Rightarrow> Some (Inl e)
      | Inr (leaves, leaf, len) \<Rightarrow>
          if len = 0 then Some (Inr (Leaf [] (leaf_checksum p 0), 0))
          else map_option (\<lambda>n. Inr (n, len))
            (build_up (build_compact_internal_level p) (map (mk_leaf p) (finish_leaves p leaves leaf))))"

definition try_rebuild_compact_from_sorted_unknown_len_iter ::
    "btree_params \<Rightarrow> ('e + 'k::linorder \<times> 'v) list \<Rightarrow> ('k, 'v) bptree \<Rightarrow>
     (('e rebuild_error + nat) \<times> ('k, 'v) bptree) option" where
  "try_rebuild_compact_from_sorted_unknown_len_iter p it t =
     map_option (\<lambda>r. case r of Inl e \<Rightarrow> (Inl e, t) | Inr (n, len) \<Rightarrow> (Inr len, \<lparr>root = n, tree_len = len\<rparr>))
       (build_compact_root_from_sorted_unknown_len_iter p it)"

section \<open>The lazy range scan\<close>

text \<open>The stack of the iterator has its innermost frame first.\<close>

record ('k, 'v) scan =
  scan_start :: "'k bound"
  scan_end :: "'k bound"
  scan_stack :: "(('k, 'v) btree_node \<times> nat) list"
  scan_leaf :: "(('k \<times> 'v) list \<times> nat) option"
  exhausted :: bool

definition first_child :: "'k::linorder bound \<Rightarrow> 'k list \<Rightarrow> nat" where
  "first_child lo ks =
     (case lo of Unbounded \<Rightarrow> 0
      | Included k \<Rightarrow> partition_point (\<lambda>s. s \<le> k) ks
      | Excluded k \<Rightarrow> partition_point (\<lambda>s. s \<le> k) ks)"

definition start_idx :: "'k::linorder bound \<Rightarrow> ('k \<times> 'v) list \<Rightarrow> nat" where
  "start_idx lo es =
     (case lo of Unbounded \<Rightarrow> 0
      | Included k \<Rightarrow> (case binary_search k es of Inr i \<Rightarrow> i | Inl i \<Rightarrow> i)
      | Excluded k \<Rightarrow> (case binary_search k es of Inr i \<Rightarrow> i + 1 | Inl i \<Rightarrow> i))"

definition before_end :: "'k::linorder bound \<Rightarrow> 'k \<Rightarrow> bool" where
  "before_end hi key = (case hi of Unbounded \<Rightarrow> True | Included e \<Rightarrow> key \<le> e | Excluded e \<Rightarrow> key < e)"

fun init_walk ::
    "'k::linorder bound \<Rightarrow> ('k, 'v) btree_node \<Rightarrow>
     (('k, 'v) btree_node \<times> nat) list \<times> ('k \<times> 'v) list \<times> nat" where
  "init_walk lo (Leaf es c) = ([], es, start_idx lo es)"
| "init_walk lo (Internal ks cs c) =
     (let i = first_child lo ks; (st, leaf) = map (init_walk lo) cs ! i
      in (st @ [(Internal ks cs c, i)], leaf))"

fun walk_left :: "('k, 'v) btree_node \<Rightarrow> (('k, 'v) btree_node \<times> nat) list \<times> ('k \<times> 'v) list" where
  "walk_left (Leaf es c) = ([], es)"
| "walk_left (Internal ks cs c) =
     (let (st, es) = hd (map walk_left cs) in (st @ [(Internal ks cs c, 0)], es))"

fun next_leaf ::
    "(('k, 'v) btree_node \<times> nat) list \<Rightarrow> ((('k, 'v) btree_node \<times> nat) list \<times> ('k \<times> 'v) list) option" where
  "next_leaf [] = None"
| "next_leaf ((Leaf es c, i) # st) = next_leaf st"
| "next_leaf ((Internal ks cs c, i) # st) =
     (if i + 1 < length cs
      then let (st', es) = walk_left (cs ! (i + 1)) in Some (st' @ (Internal ks cs c, i + 1) # st, es)
      else next_leaf st)"

definition scan_new :: "'k::linorder bound \<Rightarrow> 'k bound \<Rightarrow> ('k, 'v) bptree \<Rightarrow> ('k, 'v) scan" where
  "scan_new lo hi t =
     (if tree_len t = 0
      then \<lparr>scan_start = lo, scan_end = hi, scan_stack = [], scan_leaf = None, exhausted = True\<rparr>
      else let (st, leaf) = init_walk lo (root t)
           in \<lparr>scan_start = lo, scan_end = hi, scan_stack = st, scan_leaf = Some leaf, exhausted = False\<rparr>)"

partial_function (option) scan_next :: "('k::linorder, 'v) scan \<Rightarrow> (('k \<times> 'v) option \<times> ('k, 'v) scan) option" where
  "scan_next s =
     (if exhausted s then Some (None, s)
      else
        case scan_leaf s of
          Some (es, pos) \<Rightarrow>
            if pos < length es then
              (if \<not> before_end (scan_end s) (fst (es ! pos)) then Some (None, s\<lparr>exhausted := True\<rparr>)
               else Some (Some (es ! pos), s\<lparr>scan_leaf := Some (es, pos + 1)\<rparr>))
            else
              (case next_leaf (scan_stack s) of
                 None \<Rightarrow> Some (None, s\<lparr>scan_leaf := None, scan_stack := [], exhausted := True\<rparr>)
               | Some (st, es') \<Rightarrow> scan_next (s\<lparr>scan_leaf := Some (es', 0), scan_stack := st\<rparr>))
        | None \<Rightarrow>
            (case next_leaf (scan_stack s) of
               None \<Rightarrow> Some (None, s\<lparr>scan_stack := [], exhausted := True\<rparr>)
             | Some (st, es') \<Rightarrow> scan_next (s\<lparr>scan_leaf := Some (es', 0), scan_stack := st\<rparr>)))"

text \<open>All items the iterator yields, as a loop over it consumes them.\<close>

partial_function (option) scan_all :: "('k::linorder, 'v) scan \<Rightarrow> ('k \<times> 'v) list option" where
  "scan_all s =
     Option.bind (scan_next s) (\<lambda>r.
       case fst r of
         None \<Rightarrow> Some []
       | Some e \<Rightarrow> Option.bind (scan_all (snd r)) (\<lambda>es. Some (e # es)))"

definition range_scan :: "'k::linorder bound \<Rightarrow> 'k bound \<Rightarrow> ('k, 'v) bptree \<Rightarrow> ('k \<times> 'v) list option" where
  "range_scan lo hi t = scan_all (scan_new lo hi t)"

end
