(* ===== verification/Bptree_Search.thy ===== *)
theory Bptree_Search
  imports Bptree
begin

text \<open>
  Searching a B+tree. In a tree whose nodes have the right separators and whose entries are in key
  order, lookup, predecessor search, range queries and the lazy scan agree with the sorted list of
  entries.
\<close>

section \<open>Shape\<close>

text \<open>Every leaf has entries, every internal node has children and their keys as separators.\<close>

fun shape :: "('k, 'v) btree_node \<Rightarrow> bool" where
  "shape (Leaf es c) \<longleftrightarrow> es \<noteq> []"
| "shape (Internal ks cs c) \<longleftrightarrow> cs \<noteq> [] \<and> ks = map min_key (drop 1 cs) \<and> list_all shape cs"

definition searchable :: "('k::linorder, 'v) bptree \<Rightarrow> bool" where
  "searchable t \<longleftrightarrow> bmap (bpt_entries t) \<and> tree_len t = length (bpt_entries t) \<and>
     (shape (root t) \<or> (\<exists>c. root t = Leaf [] c))"

lemma shape_nonempty [simp]: "shape n \<Longrightarrow> collect_all n \<noteq> []"
  by (induction n rule: shape.induct) (auto simp: list_all_iff neq_Nil_conv)

lemma shape_min_key: "shape n \<Longrightarrow> min_key n = fst (hd (collect_all n))"
proof (induction n rule: shape.induct)
  case (2 ks cs c)
  then obtain d ds where cs: "cs = d # ds" by (auto simp: neq_Nil_conv)
  with 2 have "shape d" "min_key d = fst (hd (collect_all d))" by auto
  then show ?case by (simp add: cs hd_append)
qed simp

text \<open>
  A sorted list that is cut in pieces: the piece whose first key is the last not above the key
  holds everything about the key.
\<close>

lemma bmap_append:
  "bmap (xs @ ys) \<longleftrightarrow> bmap xs \<and> bmap ys \<and> (\<forall>x \<in> set xs. \<forall>y \<in> set ys. fst x < fst y)"
  by (auto simp: sorted_wrt_append)

lemma hd_least: "bmap es \<Longrightarrow> e \<in> set es \<Longrightarrow> fst (hd es) \<le> fst e"
  by (cases es) auto

text \<open>The child that a search for a key descends into, and the entries around it.\<close>

lemma child_split:
  assumes "shape (Internal ks cs c)" and "bmap (collect_all (Internal ks cs c))"
    and i: "i = partition_point (\<lambda>k. \<not> key < k) ks"
  obtains ls d rs where "cs = ls @ d # rs" "length ls = i"
    "\<forall>e \<in> set (concat (map collect_all ls)). fst e < min_key d"
    "i = 0 \<or> min_key d \<le> key" "\<forall>e \<in> set (concat (map collect_all rs)). key < fst e"
    "shape d" "bmap (collect_all d)"
proof -
  have ks: "ks = map min_key (drop 1 cs)" and ne: "cs \<noteq> []" and sh: "\<forall>x \<in> set cs. shape x"
    using assms(1) by (auto simp: list_all_iff)
  have "i \<le> length ks" by (simp add: i partition_point_def length_takeWhile_le)
  then have il: "i < length cs" using ks ne by (cases cs) auto
  define ls d rs where "ls = take i cs" and "d = cs ! i" and "rs = drop (Suc i) cs"
  have cs: "cs = ls @ d # rs" using il by (simp add: ls_def d_def rs_def id_take_nth_drop)
  have len: "length ls = i" using il by (simp add: ls_def)
  have srt: "bmap (concat (map collect_all ls) @ collect_all d @ concat (map collect_all rs))"
    using assms(2) by (simp add: cs)
  have shd: "shape d" using sh cs by simp
  have low: "i = 0 \<or> min_key d \<le> key"
  proof (cases i)
    case (Suc j)
    then have "j < length (takeWhile (\<lambda>k. \<not> key < k) ks)" by (simp add: i partition_point_def)
    then have "\<not> key < ks ! j" by (metis nth_mem set_takeWhileD takeWhile_nth)
    moreover have "ks ! j = min_key d" using Suc il by (simp add: ks d_def)
    ultimately show ?thesis by auto
  qed simp
  have high: "key < fst e" if e: "e \<in> set (concat (map collect_all rs))" for e
  proof -
    have "rs \<noteq> []" using e by auto
    then have j: "i < length ks" using ks by (simp add: rs_def)
    then have "key < ks ! i" using nth_length_takeWhile [of "\<lambda>k. \<not> key < k" ks] by (simp add: i partition_point_def)
    moreover obtain r rs' where rs: "rs = r # rs'" using \<open>rs \<noteq> []\<close> by (cases rs) auto
    moreover have "cs ! Suc i = r" using rs rs_def by (metis nth_via_drop)
    then have "ks ! i = min_key r" using j by (simp add: ks)
    moreover have "min_key r \<le> fst e"
    proof -
      have "shape r" using sh cs rs by simp
      moreover have "bmap (concat (map collect_all rs))" using srt by (simp add: sorted_wrt_append)
      moreover have "hd (concat (map collect_all rs)) = hd (collect_all r)" using \<open>shape r\<close> by (simp add: rs hd_append)
      ultimately show ?thesis using hd_least e by (metis shape_min_key)
    qed
    ultimately show ?thesis by simp
  qed
  have left: "fst e < min_key d" if "e \<in> set (concat (map collect_all ls))" for e
    using srt that shape_min_key [OF shd] hd_in_set [of "collect_all d"] shape_nonempty [OF shd]
    unfolding bmap_append by auto
  show ?thesis
    using that [OF cs len] left low high shd srt by (auto simp: sorted_wrt_append)
qed

section \<open>Lookup\<close>

lemma partition_point_sorted:
  assumes "bmap es"
  shows "take (partition_point (\<lambda>(k, _). k < key) es) es = filter (\<lambda>e. fst e < key) es"
    and "drop (partition_point (\<lambda>(k, _). k < key) es) es = filter (\<lambda>e. \<not> fst e < key) es"
proof -
  have "takeWhile (\<lambda>(k, _). k < key) es = filter (\<lambda>e. fst e < key) es \<and>
      dropWhile (\<lambda>(k, _). k < key) es = filter (\<lambda>e. \<not> fst e < key) es"
    using assms
  proof (induction es)
    case (Cons e es)
    show ?case
    proof (cases "fst e < key")
      case True
      then show ?thesis using Cons by (simp add: case_prod_beta)
    next
      case False
      then have "\<forall>x \<in> set es. \<not> fst x < key" using Cons.prems by (auto simp: not_less intro: order_trans less_imp_le)
      then have "filter (\<lambda>e. fst e < key) es = []" "filter (\<lambda>e. \<not> fst e < key) es = es"
        by (auto simp: filter_empty_conv filter_id_conv)
      then show ?thesis using False by (simp add: case_prod_beta)
    qed
  qed simp
  then show "take (partition_point (\<lambda>(k, _). k < key) es) es = filter (\<lambda>e. fst e < key) es"
    "drop (partition_point (\<lambda>(k, _). k < key) es) es = filter (\<lambda>e. \<not> fst e < key) es"
    unfolding partition_point_def by (metis takeWhile_eq_take, metis dropWhile_eq_drop)
qed

lemma binary_search_split:
  assumes "bmap es"
  obtains (found) xs v ys where "es = xs @ (key, v) # ys" "binary_search key es = Inr (length xs)"
      "\<forall>x \<in> set xs. fst x < key" "\<forall>y \<in> set ys. key < fst y"
  | (missing) xs ys where "es = xs @ ys" "binary_search key es = Inl (length xs)"
      "\<forall>x \<in> set xs. fst x < key" "\<forall>y \<in> set ys. key < fst y"
proof -
  let ?i = "partition_point (\<lambda>(k, _). k < key) es"
  define xs ys where "xs = take ?i es" and "ys = drop ?i es"
  have es: "es = xs @ ys" by (simp add: xs_def ys_def)
  have len: "length xs = ?i" by (simp add: xs_def partition_point_def length_takeWhile_le min_absorb2)
  have xs: "\<forall>x \<in> set xs. fst x < key" and ys: "\<forall>y \<in> set ys. key \<le> fst y"
    using partition_point_sorted [OF assms] by (auto simp: xs_def ys_def)
  show thesis
  proof (cases "ys \<noteq> [] \<and> fst (hd ys) = key")
    case True
    then obtain v zs where "ys = (key, v) # zs" by (cases ys) auto
    then show thesis
      using found [of xs v zs] assms es len xs ys by (simp add: binary_search_def Let_def sorted_wrt_append nth_append)
  next
    case False
    have "key < fst y" if "y \<in> set ys" for y
    proof -
      have "ys \<noteq> []" using that by auto
      then have "key \<le> fst (hd ys)" "fst (hd ys) \<le> fst y"
        using ys that hd_least [of ys y] hd_in_set [of ys] assms es by (auto simp: sorted_wrt_append)
      then show ?thesis using False that by (cases ys) auto
    qed
    moreover have "binary_search key es = Inl (length xs)"
      using False len es by (auto simp: binary_search_def Let_def nth_append hd_conv_nth)
    ultimately show thesis using missing es xs by blast
  qed
qed

lemma map_of_outside: "\<forall>x \<in> set xs. fst x \<noteq> key \<Longrightarrow> map_of xs key = None"
  by (auto simp: map_of_eq_None_iff)

lemma get_in_node_map_of:
  "shape n \<or> n = Leaf [] c0 \<Longrightarrow> bmap (collect_all n) \<Longrightarrow> get_in_node key n = map_of (collect_all n) key"
proof (induction n)
  case (Leaf es c)
  then have "bmap es" by simp
  then show ?case
  proof (cases rule: binary_search_split [of es key])
    case (found xs v ys)
    then have "map_of xs key = None" by (intro map_of_outside) auto
    then show ?thesis using found by (simp add: map_add_def)
  next
    case (missing xs ys)
    then have "map_of xs key = None" "map_of ys key = None" by (intro map_of_outside; auto)+
    then show ?thesis using missing by (simp add: map_add_def)
  qed
next
  case (Internal ks cs c)
  then have sh: "shape (Internal ks cs c)" by simp
  obtain ls d rs where cs: "cs = ls @ d # rs" "length ls = partition_point (\<lambda>k. \<not> key < k) ks"
    and out: "\<forall>e \<in> set (concat (map collect_all ls)). fst e < min_key d"
      "partition_point (\<lambda>k. \<not> key < k) ks = 0 \<or> min_key d \<le> key"
      "\<forall>e \<in> set (concat (map collect_all rs)). key < fst e"
    and d: "shape d" "bmap (collect_all d)"
    by (rule child_split [OF sh Internal.prems(2) refl])
  have "get_in_node key d = map_of (collect_all d) key" using Internal.IH [of d] cs(1) d by simp
  moreover have "map_of (concat (map collect_all ls)) key = None"
  proof (rule map_of_outside, rule ballI)
    fix e
    assume e: "e \<in> set (concat (map collect_all ls))"
    then have "ls \<noteq> []" by auto
    then have "min_key d \<le> key" using out(2) cs(2) by auto
    then show "fst e \<noteq> key" using out(1) e by fastforce
  qed
  moreover have "map_of (concat (map collect_all rs)) key = None"
    using out(3) by (intro map_of_outside) force
  moreover have "map (get_in_node key) cs ! partition_point (\<lambda>k. \<not> key < k) ks = get_in_node key d"
    using cs by (metis list.simps(9) map_append length_map nth_append_length)
  ultimately show ?case by (simp add: cs(1) map_add_def split: option.splits)
qed

section \<open>Predecessor search\<close>

definition floor_spec :: "'k::linorder \<Rightarrow> ('k \<times> 'v) list \<Rightarrow> ('k \<times> 'v) option" where
  "floor_spec key es = last_option (filter (\<lambda>e. fst e \<le> key) es)"

lemma last_option_append: "last_option (xs @ ys) = (if ys = [] then last_option xs else last_option ys)"
  by (simp add: last_option_def)

lemma max_entry_last: "shape n \<Longrightarrow> max_entry n = last_option (collect_all n)"
proof (induction n rule: shape.induct)
  case (2 ks cs c)
  then obtain ds d where cs: "cs = ds @ [d]" using rev_exhaust by (metis shape.simps(2))
  with 2 have "shape d" "max_entry d = last_option (collect_all d)" by auto
  then show ?case by (simp add: cs last_option_append) (simp add: last_option_def)
qed simp

lemma filter_below: "\<forall>x \<in> set xs. fst x < key \<Longrightarrow> filter (\<lambda>e. fst e \<le> key) xs = xs"
  for key :: "'k::linorder"
  by (simp add: filter_id_conv less_imp_le)

lemma filter_above: "\<forall>x \<in> set xs. key < fst x \<Longrightarrow> filter (\<lambda>e. fst e \<le> key) xs = []"
  for key :: "'k::linorder"
  by (simp add: filter_empty_conv not_le)

lemma floor_in_node_spec:
  "shape n \<or> n = Leaf [] c0 \<Longrightarrow> bmap (collect_all n) \<Longrightarrow> floor_in_node key n = floor_spec key (collect_all n)"
proof (induction n)
  case (Leaf es c)
  then have "bmap es" by simp
  then show ?case
  proof (cases rule: binary_search_split [of es key])
    case (found xs v ys)
    then show ?thesis by (simp add: floor_spec_def filter_below filter_above last_option_def)
  next
    case (missing xs ys)
    then show ?thesis
      by (auto simp: floor_spec_def filter_below filter_above last_option_def nth_append last_conv_nth)
  qed
next
  case (Internal ks cs c)
  then have sh: "shape (Internal ks cs c)" by simp
  let ?i = "partition_point (\<lambda>k. \<not> key < k) ks"
  obtain ls d rs where cs: "cs = ls @ d # rs" "length ls = ?i"
    and out: "\<forall>e \<in> set (concat (map collect_all ls)). fst e < min_key d" "?i = 0 \<or> min_key d \<le> key"
      "\<forall>e \<in> set (concat (map collect_all rs)). key < fst e"
    and d: "shape d" "bmap (collect_all d)"
    by (rule child_split [OF sh Internal.prems(2) refl])
  have fl: "floor_in_node key d = floor_spec key (collect_all d)" using Internal.IH [of d] cs(1) d by simp
  have sel: "map (floor_in_node key) cs ! ?i = floor_in_node key d"
    using cs by (metis list.simps(9) map_append length_map nth_append_length)
  have rs: "filter (\<lambda>e. fst e \<le> key) (concat (map collect_all rs)) = []" using out(3) by (rule filter_above)
  show ?case
  proof (cases "ls = []")
    case True
    then show ?thesis using fl sel rs cs by (simp add: floor_spec_def split: option.splits)
  next
    case False
    then obtain ms m where ls: "ls = ms @ [m]" by (metis rev_exhaust)
    have le: "min_key d \<le> key" using out(2) cs(2) False by auto
    then have "hd (collect_all d) \<in> set (filter (\<lambda>e. fst e \<le> key) (collect_all d))"
      using d shape_min_key [of d] by simp
    then have "floor_spec key (collect_all d) \<noteq> None" by (auto simp: floor_spec_def last_option_def filter_empty_conv)
    moreover have "filter (\<lambda>e. fst e \<le> key) (collect_all d) \<noteq> []" using calculation by (auto simp: floor_spec_def last_option_def)
    ultimately show ?thesis using fl sel rs cs by (auto simp: floor_spec_def last_option_append split: option.splits)
  qed
qed

section \<open>Range queries\<close>

definition opt_range :: "'k::linorder option \<Rightarrow> 'k option \<Rightarrow> 'k \<Rightarrow> bool" where
  "opt_range start end' k \<longleftrightarrow>
     (case start of None \<Rightarrow> True | Some s \<Rightarrow> s \<le> k) \<and> (case end' of None \<Rightarrow> True | Some e \<Rightarrow> k < e)"

lemma takeWhile_sorted:
  assumes "bmap es" and "\<And>a b. a < b \<Longrightarrow> P b \<Longrightarrow> P a"
  shows "takeWhile (\<lambda>e. P (fst e)) es = filter (\<lambda>e. P (fst e)) es"
  using assms(1)
proof (induction es)
  case (Cons e es)
  show ?case
  proof (cases "P (fst e)")
    case False
    then have "\<forall>x \<in> set es. \<not> P (fst x)" using Cons.prems assms(2) by auto
    then show ?thesis using False by (simp add: filter_empty_conv)
  qed (use Cons in simp)
qed simp

text \<open>A selection of pieces is the filter of the whole when the pieces left out have nothing to offer.\<close>

lemma takeWhile_end:
  assumes "bmap es"
  shows "takeWhile (\<lambda>(k, v). case end' of None \<Rightarrow> True | Some e \<Rightarrow> k < e) es
    = filter (\<lambda>(k, v). case end' of None \<Rightarrow> True | Some e \<Rightarrow> k < e) es"
  using takeWhile_sorted [OF assms, of "\<lambda>k. k < the end'"]
  by (cases end') (auto simp: case_prod_beta')

lemma upt_split: "i \<le> j \<Longrightarrow> j \<le> k \<Longrightarrow> [i..<k] = [i..<j] @ [j..<k]"
  using upt_add_eq_append [of i j "k - j"] by simp

lemma takeWhile_upt:
  assumes "m \<le> n"
  obtains k where "m \<le> k" "k \<le> n" "takeWhile Q [m..<n] = [m..<k]" "k < n \<Longrightarrow> \<not> Q k"
proof -
  let ?k = "m + length (takeWhile Q [m..<n])"
  have le: "length (takeWhile Q [m..<n]) \<le> n - m" by (metis length_takeWhile_le length_upt)
  show thesis
  proof (rule that)
    have "takeWhile Q [m..<n] = take (length (takeWhile Q [m..<n])) [m..<n]" by (rule takeWhile_eq_take)
    also have "\<dots> = [m..<?k]" by (rule take_upt) (use le assms in simp)
    finally show "takeWhile Q [m..<n] = [m..<?k]" .
    show "\<not> Q ?k" if "?k < n"
      using that nth_length_takeWhile [of Q "[m..<n]"] by simp
  qed (use le assms in auto)
qed

lemma concat_pieces:
  assumes "\<And>x. x \<in> set xs \<Longrightarrow> f x = filter P (g x)" and "m \<le> length xs"
    and before: "\<And>j. j < m \<Longrightarrow> filter P (g (xs ! j)) = []"
    and after: "\<And>k j. k < length xs \<Longrightarrow> \<not> Q k \<Longrightarrow> k \<le> j \<Longrightarrow> j < length xs \<Longrightarrow> filter P (g (xs ! j)) = []"
  shows "concat (map snd (takeWhile (\<lambda>(i, _). Q i) (drop m (enumerate 0 (map f xs))))) = filter P (concat (map g xs))"
proof -
  let ?n = "length xs" and ?p = "\<lambda>i. (i, f (xs ! i))"
  obtain k where k: "m \<le> k" "k \<le> ?n" "takeWhile Q [m..<?n] = [m..<k]" "k < ?n \<Longrightarrow> \<not> Q k"
    using takeWhile_upt [of m ?n Q] assms(2) by blast
  have "enumerate 0 (map f xs) = map ?p [0..<?n]"
    by (intro nth_equalityI) (simp_all add: nth_enumerate_eq)
  then have "takeWhile (\<lambda>(i, _). Q i) (drop m (enumerate 0 (map f xs))) = map ?p [m..<k]"
    using k(3) by (simp add: drop_map takeWhile_map o_def)
  moreover have "map (\<lambda>i. f (xs ! i)) [m..<k] = map (\<lambda>i. filter P (g (xs ! i))) [m..<k]"
    by (rule map_cong) (use k(2) assms(1) in auto)
  ultimately have lhs: "concat (map snd (takeWhile (\<lambda>(i, _). Q i) (drop m (enumerate 0 (map f xs)))))
      = concat (map (\<lambda>i. filter P (g (xs ! i))) [m..<k])"
    by (simp only: map_map comp_def snd_conv)
  have "[0..<?n] = [0..<m] @ [m..<k] @ [k..<?n]"
    by (simp only: upt_split [OF le0 assms(2)] upt_split [OF k(1,2)])
  moreover have "map g xs = map (\<lambda>i. g (xs ! i)) [0..<?n]" by (intro nth_equalityI) simp_all
  ultimately have "map g xs = map (\<lambda>i. g (xs ! i)) ([0..<m] @ [m..<k] @ [k..<?n])" by simp
  then have "filter P (concat (map g xs)) = concat (map (\<lambda>i. filter P (g (xs ! i))) [0..<m])
      @ concat (map (\<lambda>i. filter P (g (xs ! i))) [m..<k]) @ concat (map (\<lambda>i. filter P (g (xs ! i))) [k..<?n])"
    by (simp add: filter_concat o_def)
  moreover have "concat (map (\<lambda>i. filter P (g (xs ! i))) [0..<m]) = []" using before by simp
  moreover have "concat (map (\<lambda>i. filter P (g (xs ! i))) [k..<?n]) = []"
    using after [of k] k(4) by (auto simp: concat_eq_Nil_conv)
  ultimately show ?thesis using lhs by simp
qed

lemma collect_range_spec:
  "shape n \<or> n = Leaf [] c0 \<Longrightarrow> bmap (collect_all n) \<Longrightarrow>
     collect_range start end' n = filter (\<lambda>e. opt_range start end' (fst e)) (collect_all n)"
proof (induction n)
  case (Leaf es c)
  then have "bmap (filter (\<lambda>(k, v). case start of None \<Rightarrow> True | Some s \<Rightarrow> \<not> k < s) es)"
    by (simp add: sorted_wrt_map sorted_wrt_filter)
  from takeWhile_end [OF this, of end'] have "collect_range start end' (Leaf es c) =
      filter (\<lambda>(k, v). case end' of None \<Rightarrow> True | Some x \<Rightarrow> k < x)
        (filter (\<lambda>(k, v). case start of None \<Rightarrow> True | Some s \<Rightarrow> \<not> k < s) es)"
    by (simp only: collect_range.simps)
  also have "\<dots> = filter (\<lambda>e. opt_range start end' (fst e)) es"
    unfolding filter_filter by (rule filter_cong) (auto simp: opt_range_def split: option.splits)
  finally show ?case by simp
next
  case (Internal ks cs c)
  then have sh: "shape (Internal ks cs c)" by simp
  let ?P = "\<lambda>e. opt_range start end' (fst e)"
  let ?m = "case start of None \<Rightarrow> 0 | Some s \<Rightarrow> partition_point (\<lambda>k. \<not> s < k) ks"
  let ?Q = "\<lambda>i. case end' of None \<Rightarrow> True | Some e \<Rightarrow> \<not> (i > 0 \<and> ks ! (i - 1) \<ge> e)"
  have kids: "\<forall>x \<in> set cs. shape x" and ks: "ks = map min_key (drop 1 cs)" and ne: "cs \<noteq> []"
    using sh by (auto simp: list_all_iff)
  have srt: "bmap (concat (map collect_all cs))" using Internal.prems by simp
  have "concat (map snd (takeWhile (\<lambda>(i, _). ?Q i) (drop ?m (enumerate 0 (map (collect_range start end') cs)))))
    = filter ?P (concat (map collect_all cs))"
  proof (rule concat_pieces)
    fix x
    assume x: "x \<in> set cs"
    then obtain as bs where "cs = as @ x # bs" by (metis split_list)
    then have "bmap (collect_all x)" using srt by (simp add: sorted_wrt_append)
    then show "collect_range start end' x = filter ?P (collect_all x)" using Internal.IH [OF x] kids x by blast
  next
    show "?m \<le> length cs"
      using ks length_takeWhile_le [of "\<lambda>k. \<not> the start < k" ks]
      by (auto simp: partition_point_def split: option.splits)
  next
    fix j
    assume j: "j < ?m"
    then obtain s where s: "start = Some s" by (cases start) auto
    obtain ls d rs where cs: "cs = ls @ d # rs" "length ls = ?m"
      and out: "\<forall>e \<in> set (concat (map collect_all ls)). fst e < min_key d" "?m = 0 \<or> min_key d \<le> s"
      by (rule child_split [OF sh Internal.prems(2) refl, of s]) (auto simp: s)
    have "cs ! j \<in> set ls" using j cs by (simp add: nth_append)
    then have "\<forall>e \<in> set (collect_all (cs ! j)). fst e < s" using out j by fastforce
    then show "filter ?P (collect_all (cs ! j)) = []" by (auto simp: filter_empty_conv opt_range_def s not_le)
  next
    fix k j
    assume k: "k < length cs" "\<not> ?Q k" and j: "k \<le> j" "j < length cs"
    then obtain e where e: "end' = Some e" "k > 0" "e \<le> ks ! (k - 1)" by (auto split: option.splits)
    have "e \<le> min_key (cs ! k)" using e k(1) by (simp add: ks)
    moreover have "min_key (cs ! k) \<le> fst x" if x: "x \<in> set (collect_all (cs ! j))" for x
    proof -
      have shk: "shape (cs ! k)" using kids k(1) by simp
      have "concat (map collect_all (drop k cs)) = collect_all (cs ! k) @ concat (map collect_all (drop (Suc k) cs))"
        using k(1) by (metis Cons_nth_drop_Suc concat.simps(2) list.simps(9))
      moreover have "x \<in> set (concat (map collect_all (drop k cs)))"
      proof -
        have "cs ! j = drop k cs ! (j - k)" "j - k < length (drop k cs)" using j by simp_all
        then have "cs ! j \<in> set (drop k cs)" by (metis nth_mem)
        then show ?thesis using x by auto
      qed
      moreover have "bmap (concat (map collect_all (drop k cs)))"
      proof -
        have "concat (map collect_all cs) = concat (map collect_all (take k cs)) @ concat (map collect_all (drop k cs))"
          by (simp flip: concat_append map_append)
        then show ?thesis using srt by (simp add: sorted_wrt_append)
      qed
      ultimately show ?thesis using hd_least [of "concat (map collect_all (drop k cs))" x] shk
        by (simp add: shape_min_key hd_append)
    qed
    ultimately show "filter ?P (collect_all (cs ! j)) = []"
      by (auto simp: filter_empty_conv opt_range_def e(1) not_less intro: order_trans)
  qed
  then show ?case by simp
qed

section \<open>The lazy scan\<close>

text \<open>What the frames of the stack and the current leaf still have to offer.\<close>

fun frame_rest :: "('k, 'v) btree_node \<times> nat \<Rightarrow> ('k \<times> 'v) list" where
  "frame_rest (Leaf es c, i) = []"
| "frame_rest (Internal ks cs c, i) = concat (map collect_all (drop (Suc i) cs))"

definition stack_rest :: "(('k, 'v) btree_node \<times> nat) list \<Rightarrow> ('k \<times> 'v) list" where
  "stack_rest st = concat (map frame_rest st)"

definition remaining :: "('k, 'v) scan \<Rightarrow> ('k \<times> 'v) list" where
  "remaining s = (case scan_leaf s of None \<Rightarrow> [] | Some (es, pos) \<Rightarrow> drop pos es) @ stack_rest (scan_stack s)"

abbreviation frame_ok :: "('k, 'v) btree_node \<times> nat \<Rightarrow> bool" where
  "frame_ok f \<equiv> shape (fst f)"

lemma walk_left_rest:
  "shape n \<Longrightarrow> case walk_left n of (st, es) \<Rightarrow> es @ stack_rest st = collect_all n \<and> es \<noteq> [] \<and> list_all frame_ok st"
proof (induction n rule: shape.induct)
  case (2 ks cs c)
  then obtain d ds where cs: "cs = d # ds" by (auto simp: neq_Nil_conv)
  obtain st es where w: "walk_left d = (st, es)" by force
  have "es @ stack_rest st = collect_all d \<and> es \<noteq> [] \<and> list_all frame_ok st" using 2 cs w by fastforce
  then show ?case
    using 2 by (simp add: cs w) (simp add: stack_rest_def cs flip: append_assoc)
qed (simp add: stack_rest_def)

lemma next_leaf_rest:
  "list_all frame_ok st \<Longrightarrow>
     case next_leaf st of
       None \<Rightarrow> stack_rest st = []
     | Some (st', es) \<Rightarrow> es @ stack_rest st' = stack_rest st \<and> es \<noteq> [] \<and> list_all frame_ok st'"
proof (induction st rule: next_leaf.induct)
  case (3 ks cs c i st)
  show ?case
  proof (cases "i + 1 < length cs")
    case True
    obtain st' es where w: "walk_left (cs ! (i + 1)) = (st', es)" by force
    have sh: "shape (cs ! (i + 1))" using 3(2) True by (auto simp: list_all_iff)
    have d: "drop (Suc i) cs = cs ! Suc i # drop (Suc (Suc i)) cs" using True by (simp add: Cons_nth_drop_Suc)
    show ?thesis
      using walk_left_rest [OF sh] w 3(2) True by (simp add: stack_rest_def d)
  next
    case False
    then have eq: "stack_rest ((Internal ks cs c, i) # st) = stack_rest st"
      "next_leaf ((Internal ks cs c, i) # st) = next_leaf st" by (simp_all add: stack_rest_def)
    show ?thesis unfolding eq using 3(1) [OF False] 3(2) by simp
  qed
next
  case (2 es c i st)
  have eq: "stack_rest ((Leaf es c, i) # st) = stack_rest st" by (simp add: stack_rest_def)
  show ?case unfolding next_leaf.simps eq using 2 by simp
qed (simp add: stack_rest_def)

text \<open>One step of the iterator takes the first remaining entry, unless it is past the end.\<close>

lemma scan_next_in_leaf:
  assumes "scan_leaf s = Some (es, pos)" and "pos < length es" and "\<not> exhausted s"
  shows "scan_next s = (if before_end (scan_end s) (fst (es ! pos))
    then Some (Some (es ! pos), s\<lparr>scan_leaf := Some (es, pos + 1)\<rparr>) else Some (None, s\<lparr>exhausted := True\<rparr>))"
  by (subst scan_next.simps) (simp add: assms)

lemma scan_next_between:
  assumes "\<And>es pos. scan_leaf s = Some (es, pos) \<Longrightarrow> length es \<le> pos" and "\<not> exhausted s"
  shows "scan_next s =
    (case next_leaf (scan_stack s) of
       None \<Rightarrow> Some (None, s\<lparr>scan_leaf := None, scan_stack := [], exhausted := True\<rparr>)
     | Some (st, es') \<Rightarrow> scan_next (s\<lparr>scan_leaf := Some (es', 0), scan_stack := st\<rparr>))"
  using assms by (subst scan_next.simps) (auto simp: not_less split: option.splits)

definition scan_live :: "('k, 'v) scan \<Rightarrow> bool" where
  "scan_live s \<longleftrightarrow> \<not> exhausted s \<and> list_all frame_ok (scan_stack s)"

lemma scan_next_entry:
  assumes "scan_leaf s = Some (es, pos)" and "pos < length es" and "scan_live s"
  shows "if before_end (scan_end s) (fst (hd (remaining s)))
    then \<exists>s'. scan_next s = Some (Some (hd (remaining s)), s') \<and> remaining s' = tl (remaining s) \<and>
      scan_live s' \<and> scan_end s' = scan_end s
    else \<exists>s'. scan_next s = Some (None, s')"
proof -
  have "drop pos es = es ! pos # drop (Suc pos) es" using assms(2) by (simp add: Cons_nth_drop_Suc)
  then have "remaining s = es ! pos # drop (Suc pos) es @ stack_rest (scan_stack s)" by (simp add: remaining_def assms(1))
  then show ?thesis
    using scan_next_in_leaf [OF assms(1,2)] assms(1,3)
    by (auto simp: scan_live_def remaining_def)
qed

lemma scan_next_remaining:
  assumes "scan_live s"
  shows "if remaining s \<noteq> [] \<and> before_end (scan_end s) (fst (hd (remaining s)))
    then \<exists>s'. scan_next s = Some (Some (hd (remaining s)), s') \<and> remaining s' = tl (remaining s) \<and>
      scan_live s' \<and> scan_end s' = scan_end s
    else \<exists>s'. scan_next s = Some (None, s')"
proof (cases "\<exists>es pos. scan_leaf s = Some (es, pos) \<and> pos < length es")
  case True
  then obtain es pos where leaf: "scan_leaf s = Some (es, pos)" "pos < length es" by auto
  then have "remaining s \<noteq> []" by (simp add: remaining_def)
  then show ?thesis using scan_next_entry [OF leaf assms] by simp
next
  case False
  then have rem: "remaining s = stack_rest (scan_stack s)"
    by (auto simp: remaining_def split: option.splits)
  have step: "scan_next s =
    (case next_leaf (scan_stack s) of
       None \<Rightarrow> Some (None, s\<lparr>scan_leaf := None, scan_stack := [], exhausted := True\<rparr>)
     | Some (st, es') \<Rightarrow> scan_next (s\<lparr>scan_leaf := Some (es', 0), scan_stack := st\<rparr>))"
    using False assms by (intro scan_next_between) (auto simp: scan_live_def not_less)
  show ?thesis
  proof (cases "next_leaf (scan_stack s)")
    case None
    then show ?thesis using next_leaf_rest [of "scan_stack s"] assms rem step by (simp add: scan_live_def)
  next
    case (Some r)
    obtain st es where r: "r = (st, es)" by force
    let ?s = "s\<lparr>scan_leaf := Some (es, 0), scan_stack := st\<rparr>"
    have "remaining ?s = remaining s" "es \<noteq> []" "scan_live ?s"
      using next_leaf_rest [of "scan_stack s"] assms rem Some r by (simp_all add: scan_live_def remaining_def)
    moreover have "remaining s \<noteq> []" using calculation by (auto simp: remaining_def)
    ultimately show ?thesis
      using scan_next_entry [of ?s es 0] step Some r by (auto split: if_splits)
  qed
qed

lemma scan_all_remaining:
  "scan_live s \<Longrightarrow> scan_all s = Some (takeWhile (\<lambda>e. before_end (scan_end s) (fst e)) (remaining s))"
proof (induction "remaining s" arbitrary: s)
  case Nil
  then show ?case using scan_next_remaining [of s] by (subst scan_all.simps) auto
next
  case (Cons e es)
  note rem = Cons.hyps(2) [symmetric]
  show ?case
  proof (cases "before_end (scan_end s) (fst e)")
    case True
    then obtain s' where s': "scan_next s = Some (Some e, s')" "remaining s' = es" "scan_live s'" "scan_end s' = scan_end s"
      using scan_next_remaining [OF Cons.prems] by (auto simp: rem)
    then have "scan_all s' = Some (takeWhile (\<lambda>e. before_end (scan_end s) (fst e)) es)"
      using Cons.hyps(1) [of s'] by simp
    then show ?thesis using True s' rem by (subst scan_all.simps) simp
  next
    case False
    then show ?thesis using scan_next_remaining [OF Cons.prems] by (subst scan_all.simps) (auto simp: rem)
  qed
qed

text \<open>Where the scan starts.\<close>

definition after_start :: "'k::linorder bound \<Rightarrow> 'k \<Rightarrow> bool" where
  "after_start lo k = (case lo of Included a \<Rightarrow> a \<le> k | Excluded a \<Rightarrow> a < k | Unbounded \<Rightarrow> True)"

lemma start_idx_rest:
  assumes "bmap es"
  shows "drop (start_idx lo es) es = filter (\<lambda>e. after_start lo (fst e)) es"
proof (cases lo)
  case (Included a)
  from assms show ?thesis
  proof (cases rule: binary_search_split [of es a])
    case (found xs v ys)
    then show ?thesis by (simp add: Included start_idx_def after_start_def filter_empty_conv filter_id_conv not_le less_imp_le)
  next
    case (missing xs ys)
    then show ?thesis by (simp add: Included start_idx_def after_start_def filter_empty_conv filter_id_conv not_le less_imp_le)
  qed
next
  case (Excluded a)
  from assms show ?thesis
  proof (cases rule: binary_search_split [of es a])
    case (found xs v ys)
    then have "filter (\<lambda>e. a < fst e) xs = []" "filter (\<lambda>e. a < fst e) ys = ys"
      by (auto simp: filter_empty_conv filter_id_conv not_less less_imp_le)
    then show ?thesis using found by (simp add: Excluded start_idx_def after_start_def)
  next
    case (missing xs ys)
    then have "filter (\<lambda>e. a < fst e) xs = []" "filter (\<lambda>e. a < fst e) ys = ys"
      by (auto simp: filter_empty_conv filter_id_conv not_less less_imp_le)
    then show ?thesis using missing by (simp add: Excluded start_idx_def after_start_def)
  qed
qed (simp add: start_idx_def after_start_def)

lemma first_child_split:
  assumes "shape (Internal ks cs c)" and "bmap (collect_all (Internal ks cs c))"
  obtains ls d rs where "cs = ls @ d # rs" "length ls = first_child lo ks" "shape d" "bmap (collect_all d)"
    "filter (\<lambda>e. after_start lo (fst e)) (concat (map collect_all ls)) = []"
    "filter (\<lambda>e. after_start lo (fst e)) (concat (map collect_all rs)) = concat (map collect_all rs)"
proof (cases "lo = Unbounded")
  case True
  obtain d rs where cs: "cs = d # rs" using assms(1) by (cases cs) auto
  have "bmap (collect_all d)" "shape d" using assms cs by (auto simp: sorted_wrt_append)
  then show thesis using that [of "[]" d rs] cs True by (simp add: first_child_def after_start_def)
next
  case False
  then obtain a where a: "lo = Included a \<or> lo = Excluded a" by (cases lo) auto
  then have i: "first_child lo ks = partition_point (\<lambda>k. \<not> a < k) ks" by (auto simp: first_child_def not_less)
  obtain ls d rs where cs: "cs = ls @ d # rs" "length ls = first_child lo ks"
    and out: "\<forall>e \<in> set (concat (map collect_all ls)). fst e < min_key d" "first_child lo ks = 0 \<or> min_key d \<le> a"
      "\<forall>e \<in> set (concat (map collect_all rs)). a < fst e"
    and d: "shape d" "bmap (collect_all d)"
    by (rule child_split [OF assms i])
  have "fst e < a" if "e \<in> set (concat (map collect_all ls))" for e
    using that out(1,2) cs(2) by fastforce
  then have "filter (\<lambda>e. after_start lo (fst e)) (concat (map collect_all ls)) = []"
    using a unfolding filter_empty_conv after_start_def by fastforce
  moreover have "filter (\<lambda>e. after_start lo (fst e)) (concat (map collect_all rs)) = concat (map collect_all rs)"
    using a out(3) unfolding filter_id_conv after_start_def by fastforce
  ultimately show thesis using that cs d by blast
qed

lemma init_walk_rest:
  "shape n \<or> n = Leaf [] c0 \<Longrightarrow> bmap (collect_all n) \<Longrightarrow>
     case init_walk lo n of (st, es, pos) \<Rightarrow>
       drop pos es @ stack_rest st = filter (\<lambda>e. after_start lo (fst e)) (collect_all n) \<and> list_all frame_ok st"
proof (induction n)
  case (Leaf es c)
  then show ?case by (simp add: stack_rest_def start_idx_rest)
next
  case (Internal ks cs c)
  then have sh: "shape (Internal ks cs c)" by simp
  obtain ls d rs where cs: "cs = ls @ d # rs" "length ls = first_child lo ks"
    and d: "shape d" "bmap (collect_all d)"
    and out: "filter (\<lambda>e. after_start lo (fst e)) (concat (map collect_all ls)) = []"
      "filter (\<lambda>e. after_start lo (fst e)) (concat (map collect_all rs)) = concat (map collect_all rs)"
    by (rule first_child_split [OF sh Internal.prems(2)])
  obtain st es pos where w: "init_walk lo d = (st, es, pos)" by (metis prod_cases3)
  have IH: "drop pos es @ stack_rest st = filter (\<lambda>e. after_start lo (fst e)) (collect_all d)" "list_all frame_ok st"
    using Internal.IH [of d] cs(1) d w by auto
  have sel: "map (init_walk lo) cs ! first_child lo ks = init_walk lo d"
    using cs by (metis list.simps(9) map_append length_map nth_append_length)
  have rest: "drop (Suc (first_child lo ks)) cs = rs" using cs by simp
  have iw: "init_walk lo (Internal ks cs c) = (st @ [(Internal ks cs c, first_child lo ks)], es, pos)"
    by (simp only: init_walk.simps Let_def sel w prod.case)
  have "stack_rest (st @ [(Internal ks cs c, first_child lo ks)]) = stack_rest st @ concat (map collect_all rs)"
    by (simp only: stack_rest_def map_append concat_append frame_rest.simps rest list.map concat.simps append_Nil2)
  moreover have "collect_all (Internal ks cs c) = concat (map collect_all ls) @ collect_all d @ concat (map collect_all rs)"
    by (simp add: cs(1))
  ultimately show ?case using IH out sh unfolding iw prod.case
    by (simp only: filter_append append_Nil list_all_append list.pred_inject fst_conv simp_thms flip: append_assoc)
qed

lemma in_range_split: "in_range lo hi k \<longleftrightarrow> after_start lo k \<and> before_end hi k"
  by (auto simp: in_range_def after_start_def before_end_def split: bound.splits)

lemma range_scan_spec:
  assumes "searchable t"
  shows "range_scan lo hi t = Some (filter (\<lambda>e. in_range lo hi (fst e)) (bpt_entries t))"
proof (cases "tree_len t = 0")
  case True
  then have "scan_all (scan_new lo hi t) = Some []"
    by (subst scan_all.simps, subst scan_next.simps) (simp add: scan_new_def)
  then show ?thesis using True assms by (simp add: range_scan_def searchable_def)
next
  case False
  obtain st es pos where w: "init_walk lo (root t) = (st, es, pos)" by (metis prod_cases3)
  have srt: "bmap (bpt_entries t)" and root: "shape (root t) \<or> (\<exists>c. root t = Leaf [] c)"
    using assms by (auto simp: searchable_def)
  have rest: "drop pos es @ stack_rest st = filter (\<lambda>e. after_start lo (fst e)) (bpt_entries t)" "list_all frame_ok st"
    using init_walk_rest [of "root t" _ lo] root srt w by (auto simp: bpt_entries_def)
  let ?s = "scan_new lo hi t"
  have s: "scan_live ?s" "scan_end ?s = hi" "remaining ?s = filter (\<lambda>e. after_start lo (fst e)) (bpt_entries t)"
    using False w rest by (simp_all add: scan_new_def scan_live_def remaining_def)
  have "bmap (filter (\<lambda>e. after_start lo (fst e)) (bpt_entries t))"
    using srt by (simp add: sorted_wrt_map sorted_wrt_filter)
  then have "takeWhile (\<lambda>e. before_end hi (fst e)) (filter (\<lambda>e. after_start lo (fst e)) (bpt_entries t))
      = filter (\<lambda>e. before_end hi (fst e)) (filter (\<lambda>e. after_start lo (fst e)) (bpt_entries t))"
    by (rule takeWhile_sorted) (auto simp: before_end_def split: bound.splits)
  then show ?thesis
    using scan_all_remaining [OF s(1)] s(2,3) by (simp add: range_scan_def in_range_split cong: filter_cong)
qed

end
