(* ===== verification/Bptree_Build.thy ===== *)
theory Bptree_Build
  imports Bptree_Search
begin

text \<open>
  Bulk construction of the B+tree: when the loop that adds levels ends, that it keeps the entries,
  and that the compact construction produces a balanced tree whose nodes respect both bounds of their
  fill.
\<close>

section \<open>Cutting evenly\<close>

lemma length_cut [simp]: "length (cut_pieces ss xs) = length ss"
  by (induction ss arbitrary: xs) auto

lemma cut_sizes:
  "sum_list ss = length xs \<Longrightarrow> concat (cut_pieces ss xs) = xs \<and> map length (cut_pieces ss xs) = ss"
  by (induction ss arbitrary: xs) auto

lemma length_even_sizes [simp]: "length (even_sizes n g) = g"
  by (simp add: even_sizes_def)

lemma sum_even_sizes:
  assumes "0 < g"
  shows "sum_list (even_sizes n g) = n"
proof -
  have split: "[0..<g] = [0..<n mod g] @ [n mod g..<g]" using upt_split [of 0 "n mod g" g] assms by simp
  let ?f = "\<lambda>i. if i < n mod g then n div g + 1 else n div g"
  have lo: "map ?f [0..<n mod g] = replicate (n mod g) (n div g + 1)" by (intro nth_equalityI) simp_all
  have hi: "map ?f [n mod g..<g] = replicate (g - n mod g) (n div g)" by (intro nth_equalityI) simp_all
  have "sum_list (even_sizes n g) = (n mod g) * (n div g + 1) + (g - n mod g) * (n div g)"
    unfolding even_sizes_def split map_append lo hi by (simp add: sum_list_replicate)
  also have "\<dots> = n mod g + g * (n div g)" using assms by (simp add: algebra_simps flip: distrib_left)
  finally show ?thesis by simp
qed

lemma even_sizes_bounds:
  assumes "s \<in> set (even_sizes n g)"
  shows "n div g \<le> s" and "s \<le> div_ceil n g"
  using assms by (auto simp: even_sizes_def div_ceil_def)

text \<open>Groups of at most \<open>M\<close> elements, as few as possible, are at least half full.\<close>

lemma few_groups:
  assumes "M < n" and "0 < M" and g: "g = div_ceil n M"
  shows "2 \<le> g" and "div_ceil M 2 \<le> n div g" and "div_ceil n g \<le> M"
proof -
  have lo: "n \<le> g * M" and hi: "g * M < n + M" using div_ceil_bounds [OF assms(2), of n] by (simp_all add: g)
  show g2: "2 \<le> g"
  proof (rule ccontr)
    assume "\<not> 2 \<le> g"
    then have "g * M \<le> M" by (cases g) auto
    then show False using lo assms(1) by linarith
  qed
  have "g * (div_ceil M 2 * 2) \<le> g * (M + 1)" 
    using div_ceil_bounds(2) [of 2 M] by (intro mult_le_mono2) simp
  also have "\<dots> \<le> 2 * n"
  proof -
    obtain g' where g': "g = g' + 2" using g2 by (metis add.commute le_Suc_ex)
    have "(g' + 1) * M + 1 \<le> n" using hi by (simp add: g' algebra_simps)
    then have "2 * ((g' + 1) * M + 1) \<le> 2 * n" by simp
    moreover have "g * (M + 1) \<le> 2 * ((g' + 1) * M + 1)"
    proof -
      have "g' \<le> g' * M" using assms(2) by simp
      then show ?thesis by (simp add: g' algebra_simps)
    qed
    ultimately show ?thesis by simp
  qed
  finally have "div_ceil M 2 * g \<le> n" by (simp add: algebra_simps)
  then show "div_ceil M 2 \<le> n div g" using g2 by (simp add: less_eq_div_iff_mult_less_eq)
  have "div_ceil n g * g < n + g" using div_ceil_bounds(2) [of g n] g2 by simp
  then have "div_ceil n g * g < (M + 1) * g" using lo by (simp add: algebra_simps)
  then have "div_ceil n g < M + 1" by (simp only: mult_less_cancel2)
  then show "div_ceil n g \<le> M" by simp
qed

lemma lower_groups_few:
  assumes "minimum \<le> div_ceil n g"
  shows "lower_groups n minimum g = g"
  using assms by (cases g) simp_all

lemma div_le_div_ceil: "n div g \<le> div_ceil n g"
  by (simp add: div_ceil_def)

text \<open>Both constructions of the code cut in this way.\<close>

lemma cut_evenly:
  assumes "M < length xs" and "0 < M" and "minimum = div_ceil M 2"
    and "gs = cut_pieces (even_sizes (length xs) (lower_groups (length xs) minimum (div_ceil (length xs) M))) xs"
  shows "concat gs = xs" and "length gs = div_ceil (length xs) M" and "2 \<le> length gs"
    and "\<And>g. g \<in> set gs \<Longrightarrow> minimum \<le> length g \<and> length g \<le> M"
proof -
  let ?n = "length xs" and ?g = "div_ceil (length xs) M"
  note few = few_groups [OF assms(1,2) refl]
  have lg: "lower_groups ?n minimum ?g = ?g"
    using few(2) div_le_div_ceil [of ?n ?g] assms(3) by (intro lower_groups_few) simp
  have cut: "concat gs = xs \<and> map length gs = even_sizes ?n ?g"
    unfolding assms(4) lg by (rule cut_sizes) (use few(1) sum_even_sizes in simp)
  then show "concat gs = xs" by simp
  show len: "length gs = ?g" using cut by (metis length_even_sizes length_map)
  show "2 \<le> length gs" using len few(1) by simp
  fix x
  assume "x \<in> set gs"
  then have "length x \<in> set (even_sizes ?n ?g)" using cut by (metis image_eqI set_map)
  then show "minimum \<le> length x \<and> length x \<le> M" using even_sizes_bounds few assms(3) by fastforce
qed

section \<open>The loop that adds levels\<close>

definition level_keeps ::
    "(('k, 'v) btree_node list \<Rightarrow> ('k, 'v) btree_node list) \<Rightarrow> (('k, 'v) btree_node list \<Rightarrow> bool) \<Rightarrow> bool" where
  "level_keeps level P \<longleftrightarrow> (\<forall>cs. P cs \<and> 1 < length cs \<longrightarrow>
     P (level cs) \<and> level cs \<noteq> [] \<and> length (level cs) < length cs \<and>
     concat (map collect_all (level cs)) = concat (map collect_all cs))"

lemma build_up_ends:
  assumes "level_keeps level P" and "P cs" and "cs \<noteq> []"
  shows "\<exists>n. build_up level cs = Some n \<and> P [n] \<and> collect_all n = concat (map collect_all cs)"
  using assms(2,3)
proof (induction "length cs" arbitrary: cs rule: less_induct)
  case less
  show ?case
  proof (cases "1 < length cs")
    case True
    then have "P (level cs)" "level cs \<noteq> []" "length (level cs) < length cs"
      "concat (map collect_all (level cs)) = concat (map collect_all cs)"
      using assms(1) less.prems by (auto simp: level_keeps_def)
    then show ?thesis using less.hyps [of "level cs"] True by (subst build_up.simps) simp
  next
    case False
    then obtain n where "cs = [n]" using less.prems(2) by (cases cs) auto
    then show ?thesis using less.prems(1) by (subst build_up.simps) simp
  qed
qed

text \<open>A level that never gets shorter is built forever.\<close>

lemma build_up_short:
  "build_up level cs = Some n \<Longrightarrow> (\<forall>cs. 1 < length cs \<longrightarrow> 1 < length (level cs)) \<longrightarrow> length cs \<le> 1"
proof (erule build_up.raw_induct [rotated])
  fix f level cs n
  assume IH: "\<And>level cs n. f level cs = Some n \<Longrightarrow> (\<forall>cs. 1 < length cs \<longrightarrow> 1 < length (level cs)) \<longrightarrow> length cs \<le> 1"
    and body: "(if 1 < length cs then f level (level cs) else Some (hd cs)) = Some (n :: ('k, 'v) btree_node)"
  show "(\<forall>cs. 1 < length cs \<longrightarrow> 1 < length (level cs)) \<longrightarrow> length cs \<le> 1"
    using IH [of level "level cs" n] body by (force split: if_splits)
qed

lemma build_up_diverges:
  "(\<And>cs. 1 < length cs \<Longrightarrow> 1 < length (level cs)) \<Longrightarrow> 1 < length cs \<Longrightarrow> build_up level cs = None"
  using build_up_short [of level cs] by (cases "build_up level cs") auto

section \<open>Termination\<close>

lemma length_chunks_less: "2 \<le> n \<Longrightarrow> 1 < length xs \<Longrightarrow> length (chunks n xs) < length xs"
proof (induction n xs rule: chunks.induct)
  case (1 n xs)
  show ?case
  proof (cases "1 < length (drop n xs)")
    case True
    then have "length (chunks n (drop n xs)) < length (drop n xs)" using 1 by (cases "xs = []") auto
    then show ?thesis using 1(2,3) by (subst chunks.simps) auto
  next
    case False
    then have "length (chunks n (drop n xs)) \<le> length (drop n xs)"
      by (cases "drop n xs") (auto simp: chunks.simps)
    then show ?thesis using 1(2,3) by (subst chunks.simps) auto
  qed
qed

lemma concat_chunks [simp]: "0 < n \<Longrightarrow> concat (chunks n xs) = xs"
  by (induction n xs rule: chunks.induct) (subst chunks.simps, auto)

lemma chunks_sizes: "0 < n \<Longrightarrow> c \<in> set (chunks n xs) \<Longrightarrow> c \<noteq> [] \<and> length c \<le> n"
  by (induction n xs rule: chunks.induct) (subst (asm) (2) chunks.simps, auto split: if_splits)

lemma chunks_Nil_iff [simp]: "0 < n \<Longrightarrow> chunks n xs = [] \<longleftrightarrow> xs = []"
  by (subst chunks.simps) auto

lemma length_chunks_1 [simp]: "length (chunks (Suc 0) xs) = length xs"
  by (induction xs) (simp_all add: chunks.simps)

lemma collect_join_nodes [simp]: "c \<noteq> [] \<Longrightarrow> collect_all (join_nodes p c) = concat (map collect_all c)"
  by (cases c) (auto simp: join_nodes_def mk_internal_def)

lemma collect_mk [simp]: "collect_all (mk_leaf p es) = es" "collect_all (mk_internal p cs) = concat (map collect_all cs)"
  by (simp_all add: mk_leaf_def mk_internal_def)

lemma concat_join_nodes:
  "\<forall>c \<in> set gs. c \<noteq> [] \<Longrightarrow> concat (map collect_all (map (join_nodes p) gs)) = concat (map collect_all (concat gs))"
  by (induction gs) auto

lemma chunk_level_keeps: "2 \<le> max_internal p \<Longrightarrow> level_keeps (chunk_level p) (\<lambda>_. True)"
  unfolding level_keeps_def chunk_level_def
proof (intro allI impI, elim conjE)
  fix cs :: "('k, 'v) btree_node list"
  assume p: "2 \<le> max_internal p" and cs: "1 < length cs"
  have "\<forall>c \<in> set (chunks (max_internal p) cs). c \<noteq> []" using chunks_sizes [of "max_internal p" _ cs] p by auto
  from concat_join_nodes [OF this] show "True \<and> map (join_nodes p) (chunks (max_internal p) cs) \<noteq> [] \<and>
      length (map (join_nodes p) (chunks (max_internal p) cs)) < length cs \<and>
      concat (map collect_all (map (join_nodes p) (chunks (max_internal p) cs))) = concat (map collect_all cs)"
    using p cs length_chunks_less [OF p cs] by auto
qed

text \<open>A compact level has fewer nodes as soon as nodes may have two children.\<close>

lemma few_groups_less:
  assumes "2 \<le> M" and "M < n"
  shows "div_ceil n M < n"
proof -
  have "div_ceil n M * 2 \<le> div_ceil n M * M" using assms(1) by simp
  also have "\<dots> < n + M" using div_ceil_bounds(2) [of M n] assms(1) by simp
  also have "\<dots> \<le> 2 * n" using assms(2) by simp
  finally show ?thesis by simp
qed

lemma compact_level_groups:
  assumes "0 < max_internal p" and "max_internal p < length cs"
  obtains gs where "build_compact_internal_level p cs = map (join_nodes p) gs" "concat gs = cs"
    "length gs = div_ceil (length cs) (max_internal p)" "2 \<le> length gs"
    "\<forall>g \<in> set gs. min_internal p \<le> length g \<and> length g \<le> max_internal p"
proof -
  let ?gs = "cut_pieces (even_sizes (length cs) (lower_groups (length cs) (min_internal p) (div_ceil (length cs) (max_internal p)))) cs"
  have "build_compact_internal_level p cs = map (join_nodes p) ?gs"
    using assms by (simp add: build_compact_internal_level_def Let_def)
  then show thesis using that [of ?gs] cut_evenly [OF assms(2,1) min_internal_def refl] by blast
qed

lemma min_internal_pos: "0 < max_internal p \<Longrightarrow> 0 < min_internal p"
  using div_ceil_bounds(1) [of 2 "max_internal p"] by (cases "min_internal p") (auto simp: min_internal_def)

lemma compact_level_keeps:
  assumes "2 \<le> max_internal p"
  shows "level_keeps (build_compact_internal_level p) (\<lambda>_. True)"
  unfolding level_keeps_def
proof (intro allI impI, elim conjE)
  fix cs :: "('k, 'v) btree_node list"
  assume cs: "1 < length cs"
  show "True \<and> build_compact_internal_level p cs \<noteq> [] \<and> length (build_compact_internal_level p cs) < length cs \<and>
      concat (map collect_all (build_compact_internal_level p cs)) = concat (map collect_all cs)"
  proof (cases "length cs \<le> max_internal p")
    case True
    then show ?thesis using cs by (simp add: build_compact_internal_level_def Let_def)
  next
    case False
    then have more: "max_internal p < length cs" by simp
    have pos: "0 < max_internal p" using assms by simp
    obtain gs where gs: "build_compact_internal_level p cs = map (join_nodes p) gs" "concat gs = cs"
      "length gs = div_ceil (length cs) (max_internal p)" "2 \<le> length gs"
      "\<forall>g \<in> set gs. min_internal p \<le> length g \<and> length g \<le> max_internal p"
      by (rule compact_level_groups [OF pos more])
    have "g \<noteq> []" if "g \<in> set gs" for g using gs(5) that min_internal_pos [OF pos] by auto
    then have "concat (map collect_all (map (join_nodes p) gs)) = concat (map collect_all cs)"
      using concat_join_nodes [of gs p] gs(2) by simp
    moreover have "length gs < length cs" using gs(3) few_groups_less [OF assms more] by simp
    ultimately show ?thesis using gs(1,4) by auto
  qed
qed

lemma length_chunks_more:
  assumes "0 < n"
  shows "1 < length (chunks n xs) \<longleftrightarrow> n < length xs"
proof (cases "xs = []")
  case False
  then have "chunks n xs = take n xs # chunks n (drop n xs)" using assms by (subst chunks.simps) simp
  moreover have "chunks n (drop n xs) = [] \<longleftrightarrow> length xs \<le> n" using assms by simp
  ultimately show ?thesis by (auto simp: not_le)
qed (simp add: chunks.simps)

lemma length_compact_leaves:
  assumes "0 < max_leaf p"
  shows "1 < length (build_compact_leaves p es) \<longleftrightarrow> max_leaf p < length es"
    and "build_compact_leaves p es \<noteq> []" and "concat (map collect_all (build_compact_leaves p es)) = es"
proof -
  have "(1 < length (build_compact_leaves p es) \<longleftrightarrow> max_leaf p < length es) \<and> build_compact_leaves p es \<noteq> [] \<and>
    concat (map collect_all (build_compact_leaves p es)) = es"
  proof (cases "max_leaf p < length es")
    case True
    let ?gs = "cut_pieces (even_sizes (length es) (lower_groups (length es) (min_leaf p) (div_ceil (length es) (max_leaf p)))) es"
    note gs = cut_evenly [OF True assms min_leaf_def refl]
    have "build_compact_leaves p es = map (mk_leaf p) ?gs" using True by (simp add: build_compact_leaves_def Let_def)
    moreover have "concat (map collect_all (map (mk_leaf p) ?gs)) = es" using gs(1) by (simp add: o_def)
    moreover have "1 < length (map (mk_leaf p) ?gs)" using gs(3) by simp
    ultimately show ?thesis using True by auto
  qed (simp add: build_compact_leaves_def)
  then show "1 < length (build_compact_leaves p es) \<longleftrightarrow> max_leaf p < length es" "build_compact_leaves p es \<noteq> []"
    "concat (map collect_all (build_compact_leaves p es)) = es" by simp_all
qed

lemma single_child_level:
  assumes "max_internal p = 1" and "1 < length cs"
  shows "1 < length (chunk_level p cs)" and "1 < length (build_compact_internal_level p cs)"
proof -
  show "1 < length (chunk_level p cs)" using assms by (simp add: chunk_level_def)
  have "max_internal p < length cs" "0 < max_internal p" using assms by simp_all
  from compact_level_groups [OF this(2,1)] obtain gs where
    "build_compact_internal_level p cs = map (join_nodes p) gs" "2 \<le> length gs" by metis
  then show "1 < length (build_compact_internal_level p cs)" by simp
qed

lemma build_up_single:
  "length cs = 1 \<Longrightarrow> build_up level cs = Some (hd cs)"
  by (subst build_up.simps) simp

text \<open>
  C10. The loop that adds levels to a tree ends exactly if internal nodes may have two children or all
  entries fit into one leaf, in the plain and in the compact construction, and then the tree holds the
  given entries. With single-child nodes it runs forever.
\<close>

theorem rebuild_terminates_iff:
  assumes "1 \<le> max_leaf p" and "1 \<le> max_internal p"
  shows "(rebuild p es \<noteq> None \<longleftrightarrow> 2 \<le> max_internal p \<or> length es \<le> max_leaf p)
    \<and> (rebuild_compact p es \<noteq> None \<longleftrightarrow> 2 \<le> max_internal p \<or> length es \<le> max_leaf p)
    \<and> (\<forall>t. rebuild p es = Some t \<or> rebuild_compact p es = Some t \<longrightarrow> bpt_entries t = es)"
proof (cases "es = []")
  case True
  then show ?thesis by (simp add: rebuild_def rebuild_compact_def bpt_entries_def bpt_new_def)
next
  case False
  let ?leaves = "map (mk_leaf p) (chunks (max_leaf p) es)"
  have pos: "0 < max_leaf p" using assms(1) by simp
  note compact = length_compact_leaves [OF pos, of es]
  have plain: "1 < length ?leaves \<longleftrightarrow> max_leaf p < length es" "?leaves \<noteq> []" "concat (map collect_all ?leaves) = es"
    using length_chunks_more [OF pos, of es] pos False by (simp_all add: o_def)
  consider (levels) "2 \<le> max_internal p" | (leaf) "length es \<le> max_leaf p" | (endless) "max_internal p = 1" "max_leaf p < length es"
    using assms(2) by linarith
  then show ?thesis
  proof cases
    case levels
    obtain n m where "build_up (chunk_level p) ?leaves = Some n" "collect_all n = es"
      "build_up (build_compact_internal_level p) (build_compact_leaves p es) = Some m" "collect_all m = es"
      using build_up_ends [OF chunk_level_keeps [OF levels] TrueI plain(2)] plain(3)
        build_up_ends [OF compact_level_keeps [OF levels] TrueI compact(2)] compact(3) by auto
    then show ?thesis using levels False by (auto simp: rebuild_def rebuild_compact_def bpt_entries_def)
  next
    case leaf
    then have one: "length ?leaves = 1" "length (build_compact_leaves p es) = 1"
      using plain(1,2) compact(1,2) by (auto simp: not_less le_Suc_eq)
    then show ?thesis using False leaf plain(3) compact(3) build_up_single [OF one(1)] build_up_single [OF one(2)]
      by (auto simp: rebuild_def rebuild_compact_def bpt_entries_def length_Suc_conv)
  next
    case endless
    have "build_up (chunk_level p) ?leaves = None" "build_up (build_compact_internal_level p) (build_compact_leaves p es) = None"
      using single_child_level [OF endless(1)] plain(1) compact(1) endless(2) by (auto intro!: build_up_diverges)
    then show ?thesis using endless False by (simp add: rebuild_def rebuild_compact_def)
  qed
qed

theorem rebuild_terminates_iff_witness:
  "rebuild \<lparr>max_leaf = 1, max_internal = 2, blake3 = id\<rparr> [(1 :: nat, ''a''), (2, ''b''), (3, ''c'')] \<noteq> None
   \<and> rebuild \<lparr>max_leaf = 1, max_internal = 1, blake3 = id\<rparr> [(1 :: nat, ''a''), (2, ''b'')] = None"
  using rebuild_terminates_iff [of "\<lparr>max_leaf = 1, max_internal = 2, blake3 = id\<rparr>" "[(1 :: nat, ''a''), (2, ''b''), (3, ''c'')]"]
    rebuild_terminates_iff [of "\<lparr>max_leaf = 1, max_internal = 1, blake3 = id\<rparr>" "[(1 :: nat, ''a''), (2, ''b'')]"]
  by simp

end
