(* ===== verification/Bptree_Valid.thy ===== *)
theory Bptree_Valid
  imports Bptree_Build
begin

text \<open>
  The invariant of the B+tree: bounds on the fill of every node, separators and checksums that match
  the children, leaves at one depth and entries in key order. Insertion, deletion and the compact
  construction keep it, and it implies that the validation of the code succeeds.
\<close>

section \<open>The invariant\<close>

fun node_inv :: "btree_params \<Rightarrow> bool \<Rightarrow> ('k, 'v) btree_node \<Rightarrow> bool" where
  "node_inv p is_root (Leaf es c) \<longleftrightarrow>
     length es \<le> max_leaf p \<and> (is_root \<or> min_leaf p \<le> length es) \<and> c = leaf_checksum p (length es)"
| "node_inv p is_root (Internal ks cs c) \<longleftrightarrow>
     2 \<le> length cs \<and> length cs \<le> max_internal p \<and> (is_root \<or> min_internal p \<le> length cs) \<and>
     ks = map min_key (drop 1 cs) \<and> c = internal_checksum p cs \<and> list_all (node_inv p False) cs"

fun balanced :: "('k, 'v) btree_node \<Rightarrow> bool" where
  "balanced (Leaf es c) \<longleftrightarrow> True"
| "balanced (Internal ks cs c) \<longleftrightarrow> list_all balanced cs \<and> (\<forall>x \<in> set cs. node_depth x = node_depth (hd cs))"

definition params_ok :: "btree_params \<Rightarrow> bool" where
  "params_ok p \<longleftrightarrow> 1 \<le> max_leaf p \<and> 3 \<le> max_internal p"

definition bpt_inv :: "btree_params \<Rightarrow> ('k::linorder, 'v) bptree \<Rightarrow> bool" where
  "bpt_inv p t \<longleftrightarrow> node_inv p True (root t) \<and> balanced (root t) \<and> bmap (bpt_entries t) \<and>
     tree_len t = length (bpt_entries t)"

lemma min_fill_pos: "params_ok p \<Longrightarrow> 1 \<le> min_leaf p" "params_ok p \<Longrightarrow> 2 \<le> min_internal p"
  using div_ceil_bounds(1) [of 2 "max_leaf p"] div_ceil_bounds(1) [of 2 "max_internal p"]
  by (auto simp: params_ok_def min_leaf_def min_internal_def)

lemma node_inv_root: "node_inv p False n \<Longrightarrow> node_inv p r n"
  by (cases n) auto

lemma node_inv_shape: "params_ok p \<Longrightarrow> node_inv p False n \<Longrightarrow> shape n"
  using min_fill_pos(1) [of p] by (induction n) (fastforce simp: list_all_iff)+

lemma root_inv_shape: "params_ok p \<Longrightarrow> node_inv p True n \<Longrightarrow> shape n \<or> (\<exists>c. n = Leaf [] c)"
  using node_inv_shape [of p] by (cases n) (fastforce simp: list_all_iff)+

lemma bpt_inv_searchable: "params_ok p \<Longrightarrow> bpt_inv p t \<Longrightarrow> searchable t"
  using root_inv_shape [of p "root t"] by (auto simp: bpt_inv_def searchable_def)

section \<open>Validation succeeds\<close>

lemma windows_ok_sorted: "sorted_wrt R xs \<Longrightarrow> windows_ok R xs"
  by (induction R xs rule: windows_ok.induct) auto

lemma first_error_ok: "\<forall>r \<in> set rs. r = Inr () \<Longrightarrow> first_error rs = Inr ()"
  by (induction rs) auto

lemma min_keys_sorted:
  assumes "\<forall>x \<in> set cs. shape x" and "bmap (concat (map collect_all cs))"
  shows "sorted_wrt (<) (map min_key cs)"
  using assms
proof (induction cs)
  case (Cons c cs)
  have "min_key c < min_key d" if d: "d \<in> set cs" for d
  proof -
    have "shape c" "shape d" using Cons.prems(1) d by auto
    moreover have "hd (collect_all d) \<in> set (concat (map collect_all cs))"
      using d \<open>shape d\<close> by (auto intro!: bexI [of _ d])
    ultimately show ?thesis
      using Cons.prems(2) by (auto simp: shape_min_key sorted_wrt_append)
  qed
  then show ?case using Cons by (auto simp: sorted_wrt_append)
qed simp

lemma node_inv_validate:
  "params_ok p \<Longrightarrow> node_inv p r n \<Longrightarrow> bmap (collect_all n) \<Longrightarrow> validate_node p r n = Inr ()"
proof (induction n arbitrary: r)
  case (Leaf es c)
  then show ?case by (auto intro: windows_ok_sorted simp: sorted_wrt_map)
next
  case (Internal ks cs c)
  have sh: "\<forall>x \<in> set cs. shape x" using Internal.prems by (auto simp: list_all_iff intro: node_inv_shape)
  have kids: "validate_node p False x = Inr ()" if x: "x \<in> set cs" for x
  proof (rule Internal.IH [OF x Internal.prems(1)])
    show "node_inv p False x" using Internal.prems(2) x by (simp add: list_all_iff)
    obtain as bs where "cs = as @ x # bs" using x by (metis split_list)
    then show "bmap (collect_all x)" using Internal.prems(3) by (simp add: sorted_wrt_append)
  qed
  have "sorted_wrt (<) (map min_key cs)" using min_keys_sorted sh Internal.prems(3) by simp
  then have "windows_ok (<) ks"
    using Internal.prems(2) by (auto intro: windows_ok_sorted simp: drop_map [symmetric] sorted_wrt_drop)
  moreover have "first_error (map (validate_node p False) cs) = Inr ()" using kids by (intro first_error_ok) auto
  ultimately show ?case using Internal.prems(2) by (auto simp: Let_def)
qed

lemma node_inv_checksums: "node_inv p r n \<Longrightarrow> verify_node_checksums p n = Inr ()"
proof (induction n arbitrary: r)
  case (Internal ks cs c)
  then have "first_error (map (verify_node_checksums p) cs) = Inr ()"
    by (intro first_error_ok) (auto simp: list_all_iff)
  then show ?case using Internal.prems by (simp add: Let_def)
qed simp

lemma bpt_inv_validate: "params_ok p \<Longrightarrow> bpt_inv p t \<Longrightarrow> bpt_validate p t = Inr ()"
proof (cases "tree_len t = 0")
  case True
  assume "params_ok p" "bpt_inv p t"
  then show ?thesis using True root_inv_shape [of p "root t"] by (auto simp: bpt_inv_def bpt_validate_def bpt_entries_def)
next
  case False
  assume "params_ok p" "bpt_inv p t"
  then show ?thesis using False node_inv_validate [of p True "root t"] node_inv_checksums [of p True "root t"]
    by (simp add: bpt_inv_def bpt_validate_def bpt_entries_def)
qed

section \<open>Compact construction\<close>

definition level_ok :: "btree_params \<Rightarrow> ('k, 'v) btree_node list \<Rightarrow> bool" where
  "level_ok p cs \<longleftrightarrow> (\<forall>c \<in> set cs. node_inv p (length cs = 1) c \<and> balanced c \<and> node_depth c = node_depth (hd cs))"

lemma join_nodes_internal: "2 \<le> length g \<Longrightarrow> join_nodes p g = mk_internal p g"
  by (simp add: join_nodes_def)

lemma mk_internal_ok:
  assumes "2 \<le> length g" "length g \<le> max_internal p" "r \<or> min_internal p \<le> length g"
    and "\<forall>c \<in> set g. node_inv p False c \<and> balanced c \<and> node_depth c = d"
  shows "node_inv p r (mk_internal p g)" "balanced (mk_internal p g)" "node_depth (mk_internal p g) = Suc d"
proof -
  have "g \<noteq> []" using assms(1) by auto
  then have "hd g \<in> set g" by simp
  with assms show "node_inv p r (mk_internal p g)" "balanced (mk_internal p g)" "node_depth (mk_internal p g) = Suc d"
    by (auto simp: mk_internal_def list_all_iff hd_map \<open>g \<noteq> []\<close>)
qed

lemma compact_level_ok:
  assumes "params_ok p" and "level_ok p cs" and "1 < length cs"
  shows "level_ok p (build_compact_internal_level p cs)"
proof -
  let ?d = "node_depth (hd cs)"
  have kids: "\<forall>c \<in> set cs. node_inv p False c \<and> balanced c \<and> node_depth c = ?d"
    using assms(2,3) by (auto simp: level_ok_def)
  show ?thesis
  proof (cases "length cs \<le> max_internal p")
    case True
    then have "build_compact_internal_level p cs = [mk_internal p cs]"
      using assms(3) by (simp add: build_compact_internal_level_def Let_def)
    then show ?thesis using mk_internal_ok [of cs p True ?d] True assms(3) kids by (simp add: level_ok_def)
  next
    case False
    then have more: "max_internal p < length cs" by simp
    have pos: "0 < max_internal p" using assms(1) by (simp add: params_ok_def)
    obtain gs where gs: "build_compact_internal_level p cs = map (join_nodes p) gs" "concat gs = cs"
      "length gs = div_ceil (length cs) (max_internal p)" "2 \<le> length gs"
      "\<forall>g \<in> set gs. min_internal p \<le> length g \<and> length g \<le> max_internal p"
      by (rule compact_level_groups [OF pos more])
    have ok: "node_inv p False (join_nodes p g) \<and> balanced (join_nodes p g) \<and> node_depth (join_nodes p g) = Suc ?d"
      if g: "g \<in> set gs" for g
    proof -
      have "2 \<le> length g" using gs(5) g min_fill_pos(2) [OF assms(1)] by force
      moreover have "\<forall>c \<in> set g. node_inv p False c \<and> balanced c \<and> node_depth c = ?d"
        using kids g gs(2) by auto
      ultimately show ?thesis using mk_internal_ok [of g p False ?d] gs(5) g by (simp add: join_nodes_internal)
    qed
    have "hd (map (join_nodes p) gs) \<in> join_nodes p ` set gs" using gs(4) by (cases gs) auto
    then have "node_depth (hd (map (join_nodes p) gs)) = Suc ?d" using ok by auto
    then show ?thesis using ok gs(1,4) by (auto simp: level_ok_def)
  qed
qed

lemma leaf_level_ok:
  assumes "gs \<noteq> []" and "\<forall>x \<in> set gs. length x \<le> max_leaf p \<and> (length gs = 1 \<or> min_leaf p \<le> length x)"
  shows "level_ok p (map (mk_leaf p) gs)"
  using assms by (auto simp: level_ok_def mk_leaf_def hd_map)

lemma compact_leaves_ok:
  assumes "0 < max_leaf p"
  shows "level_ok p (build_compact_leaves p es)"
proof (cases "length es \<le> max_leaf p")
  case True
  then show ?thesis using leaf_level_ok [of "[es]" p] by (simp add: build_compact_leaves_def)
next
  case False
  then have more: "max_leaf p < length es" by simp
  let ?gs = "cut_pieces (even_sizes (length es) (lower_groups (length es) (min_leaf p) (div_ceil (length es) (max_leaf p)))) es"
  note cut = cut_evenly [OF more assms min_leaf_def refl]
  have "build_compact_leaves p es = map (mk_leaf p) ?gs" using False by (simp add: build_compact_leaves_def Let_def)
  moreover have "?gs \<noteq> []" using cut(3) by (cases ?gs) auto
  ultimately show ?thesis using leaf_level_ok [of ?gs p] cut(4) by auto
qed

lemma compact_level_keeps_ok: "params_ok p \<Longrightarrow> level_keeps (build_compact_internal_level p) (level_ok p)"
  using compact_level_keeps [of p] compact_level_ok [of p]
  by (auto simp: level_keeps_def params_ok_def)

lemma bpt_new_inv: "bpt_inv p (bpt_new p)" "bpt_entries (bpt_new p) = []"
  by (simp_all add: bpt_inv_def bpt_new_def bpt_entries_def)

lemma rebuild_compact_inv:
  assumes "params_ok p" and "bmap es"
  shows "\<exists>t. rebuild_compact p es = Some t \<and> bpt_inv p t \<and> bpt_entries t = es"
proof (cases "es = []")
  case True
  then show ?thesis using bpt_new_inv by (auto simp: rebuild_compact_def)
next
  case False
  have "0 < max_leaf p" using assms(1) by (simp add: params_ok_def)
  note leaves = compact_leaves_ok [OF this, of es] length_compact_leaves(2,3) [OF this, of es]
  obtain n where n: "build_up (build_compact_internal_level p) (build_compact_leaves p es) = Some n"
    "level_ok p [n]" "collect_all n = es"
    using build_up_ends [OF compact_level_keeps_ok [OF assms(1)] leaves(1,2)] leaves(3) by auto
  then show ?thesis using False assms(2) by (simp add: rebuild_compact_def bpt_inv_def bpt_entries_def level_ok_def)
qed

section \<open>Insertion\<close>

lemma bmap_put_middle:
  "\<forall>x \<in> set xs. fst x < k \<Longrightarrow> \<forall>y \<in> set ys. k < fst y \<Longrightarrow> bmap_put k v (xs @ ms @ ys) = xs @ bmap_put k v ms @ ys"
proof (induction xs)
  case Nil
  then show ?case by (induction ms) (cases ys; force)+
qed force

lemma length_bmap_put:
  "bmap es \<Longrightarrow> length (bmap_put k v es) = (if k \<in> fst ` set es then length es else length es + 1)"
  by (induction es) fastforce+

lemma div_ceil_2: "div_ceil n 2 = Suc n div 2"
  by (simp add: div_ceil_def) presburger

text \<open>The halves of a list that is one element too long.\<close>

lemma split_halves:
  assumes "length xs = Suc m" and "h = div_ceil (length xs) 2" and "1 \<le> m"
  shows "length (take h xs) \<le> m" "length (drop h xs) \<le> m" "div_ceil m 2 \<le> length (take h xs)" "div_ceil m 2 \<le> length (drop h xs)"
  using assms by (simp_all add: div_ceil_2 min_def) presburger+

definition insert_ok ::
    "btree_params \<Rightarrow> bool \<Rightarrow> 'k::linorder \<Rightarrow> 'v \<Rightarrow> ('k, 'v) btree_node \<Rightarrow>
     ('k, 'v) btree_node \<times> 'v option \<times> ('k, 'v) btree_node option \<Rightarrow> bool" where
  "insert_ok p r k v n res \<longleftrightarrow>
     (case res of (n', previous, split) \<Rightarrow>
        let nodes = n' # (case split of None \<Rightarrow> [] | Some right \<Rightarrow> [right])
        in previous = map_of (collect_all n) k \<and>
           concat (map collect_all nodes) = bmap_put k v (collect_all n) \<and>
           (\<forall>x \<in> set nodes. node_inv p (r \<and> split = None) x \<and> balanced x \<and> node_depth x = node_depth n))"

lemma insert_leaf_ok:
  assumes "params_ok p" and "node_inv p r (Leaf es c)" and "bmap es"
  shows "insert_ok p r k v (Leaf es c) (insert_into_node p k v (Leaf es c))"
proof (cases rule: binary_search_split [OF assms(3), of k])
  case (1 xs w ys)
  have put: "bmap_put k v es = xs @ (k, v) # ys"
    using bmap_put_middle [of xs k ys v "[(k, w)]"] 1 by simp
  have "map_of xs k = None" using 1(3) by (intro map_of_outside) auto
  then have "map_of es k = Some w" using 1(1) by (simp add: map_add_def)
  then show ?thesis using 1 assms(2) put by (simp add: insert_ok_def mk_leaf_def)
next
  case (2 xs ys)
  define es' where "es' = xs @ (k, v) # ys"
  have put: "bmap_put k v es = es'" using bmap_put_middle [of xs k ys v "[]"] 2 by (simp add: es'_def)
  have none: "map_of es k = None" using 2(1,3,4) by (intro map_of_outside) auto
  have ins: "insert_at (length xs) (k, v) es = es'" using 2(1) by (simp add: insert_at_def es'_def)
  have len: "length es' = Suc (length es)" using 2(1) by (simp add: es'_def)
  show ?thesis
  proof (cases "length es' \<le> max_leaf p")
    case True
    then show ?thesis using 2(2) ins put none assms(2) len by (auto simp: insert_ok_def mk_leaf_def Let_def)
  next
    case False
    then have m: "length es' = Suc (max_leaf p)" using assms(2) len by simp
    have pos: "1 \<le> max_leaf p" using assms(1) by (simp add: params_ok_def)
    let ?h = "div_ceil (length es') 2"
    have res: "insert_into_node p k v (Leaf es c) = (mk_leaf p (take ?h es'), None, Some (mk_leaf p (drop ?h es')))"
      using 2(2) ins False by (simp add: Let_def)
    show ?thesis
      unfolding insert_ok_def res using split_halves [OF m refl pos] put none
      by (simp add: mk_leaf_def min_leaf_def del: length_take length_drop)
  qed
qed

lemma internal_result_ok:
  assumes "params_ok p" and "length cs = length nodes \<or> Suc (length cs) = length nodes"
    and "node_inv p r (Internal ks cs c)"
    and "\<forall>x \<in> set nodes. node_inv p False x \<and> balanced x \<and> node_depth x = d" and "node_depth (Internal ks cs c) = Suc d"
    and "previous = map_of (collect_all (Internal ks cs c)) k"
    and "concat (map collect_all nodes) = bmap_put k v (collect_all (Internal ks cs c))"
    and "res = (if length nodes \<le> max_internal p then (mk_internal p nodes, previous, None)
         else let h = div_ceil (length nodes) 2
              in (mk_internal p (take h nodes), previous, Some (mk_internal p (drop h nodes))))"
  shows "insert_ok p r k v (Internal ks cs c) res"
proof (cases "length nodes \<le> max_internal p")
  case True
  have "2 \<le> length nodes" "r \<or> min_internal p \<le> length nodes" using assms(2,3) by auto
  from mk_internal_ok [OF this(1) True this(2) assms(4)] show ?thesis
    using assms(5-8) True by (simp add: insert_ok_def del: node_depth.simps collect_all.simps(2))
next
  case False
  have m: "length nodes = Suc (max_internal p)" using False assms(2,3) by auto
  have pos: "1 \<le> max_internal p" using assms(1) by (simp add: params_ok_def)
  let ?h = "div_ceil (length nodes) 2"
  note half = split_halves [OF m refl pos]
  have two: "2 \<le> length (take ?h nodes)" "2 \<le> length (drop ?h nodes)"
    using half(3,4) min_fill_pos(2) [OF assms(1)] by (simp_all only: min_internal_def)
  have mk_ok: "node_inv p False (mk_internal p g) \<and> balanced (mk_internal p g) \<and> node_depth (mk_internal p g) = Suc d"
    if "g = take ?h nodes \<or> g = drop ?h nodes" for g
  proof -
    have "set g \<subseteq> set nodes" using that by (auto dest: in_set_takeD in_set_dropD)
    then have "\<forall>x \<in> set g. node_inv p False x \<and> balanced x \<and> node_depth x = d" using assms(4) by blast
    moreover have "2 \<le> length g" "length g \<le> max_internal p" "min_internal p \<le> length g"
      using that two half by (auto simp only: min_internal_def)
    ultimately show ?thesis using mk_internal_ok [of g p False d] by simp
  qed
  have res: "res = (mk_internal p (take ?h nodes), previous, Some (mk_internal p (drop ?h nodes)))"
    using False assms(8) by (simp add: Let_def)
  have "concat (map collect_all (take ?h nodes)) @ concat (map collect_all (drop ?h nodes)) = concat (map collect_all nodes)"
    by (simp flip: concat_append map_append)
  then show ?thesis
    unfolding insert_ok_def res using mk_ok assms(5-7)
    by (simp del: node_depth.simps collect_all.simps(2))
qed

lemma insert_into_node_ok:
  "params_ok p \<Longrightarrow> node_inv p r n \<Longrightarrow> balanced n \<Longrightarrow> bmap (collect_all n) \<Longrightarrow>
     insert_ok p r k v n (insert_into_node p k v n)"
proof (induction n arbitrary: r)
  case (Leaf es c)
  then show ?case by (intro insert_leaf_ok) simp_all
next
  case (Internal ks cs c)
  have kids: "\<forall>x \<in> set cs. node_inv p False x \<and> balanced x \<and> node_depth x = node_depth (hd cs)"
    using Internal.prems(2,3) by (auto simp: list_all_iff)
  have "cs \<noteq> []" using Internal.prems(2) by auto
  then have sh: "shape (Internal ks cs c)"
    using kids Internal.prems(1,2) by (auto simp: list_all_iff intro: node_inv_shape)
  let ?i = "partition_point (\<lambda>s. k \<ge> s) ks"
  have i: "?i = partition_point (\<lambda>s. \<not> k < s) ks" by (simp add: not_less)
  obtain ls d rs where cs: "cs = ls @ d # rs" "length ls = ?i"
    and out: "\<forall>e \<in> set (concat (map collect_all ls)). fst e < min_key d" "?i = 0 \<or> min_key d \<le> k"
      "\<forall>e \<in> set (concat (map collect_all rs)). k < fst e"
    and d: "shape d" "bmap (collect_all d)"
    by (rule child_split [OF sh Internal.prems(4) i])
  have low: "\<forall>e \<in> set (concat (map collect_all ls)). fst e < k" using out(1,2) cs(2) by fastforce
  obtain child previous split where r: "insert_into_node p k v d = (child, previous, split)" by (metis prod_cases3)
  have dk: "node_inv p False d" "balanced d" "node_depth d = node_depth (hd cs)" using kids cs(1) by auto
  let ?new = "child # (case split of None \<Rightarrow> [] | Some right \<Rightarrow> [right])"
  have ih: "previous = map_of (collect_all d) k" "concat (map collect_all ?new) = bmap_put k v (collect_all d)"
      "\<forall>x \<in> set ?new. node_inv p False x \<and> balanced x \<and> node_depth x = node_depth (hd cs)"
    using Internal.IH [of d False] Internal.prems(1) cs(1) dk d(2) r by (auto simp: insert_ok_def Let_def)
  let ?nodes = "ls @ ?new @ rs"
  have sel: "map (insert_into_node p k v) cs ! ?i = (child, previous, split)"
    using cs r by (metis list.simps(9) map_append length_map nth_append_length)
  have upd: "(case split of None \<Rightarrow> cs[?i := child] | Some right \<Rightarrow> insert_at (?i + 1) right (cs[?i := child])) = ?nodes"
    unfolding cs(2) [symmetric] by (simp add: cs(1) insert_at_def list_update_append split: option.splits)
  show ?case
  proof (rule internal_result_ok [where nodes = ?nodes and d = "node_depth (hd cs)" and previous = previous])
    show "length cs = length ?nodes \<or> Suc (length cs) = length ?nodes"
      by (simp add: cs(1) split: option.splits)
    show "\<forall>x \<in> set ?nodes. node_inv p False x \<and> balanced x \<and> node_depth x = node_depth (hd cs)"
      using ih(3) kids cs(1) by (simp add: ball_Un)
    show "node_depth (Internal ks cs c) = Suc (node_depth (hd cs))" using \<open>cs \<noteq> []\<close> by (simp add: hd_map)
    have "map_of (concat (map collect_all ls)) k = None" "map_of (concat (map collect_all rs)) k = None"
      using low out(3) by (intro map_of_outside; force)+
    then show "previous = map_of (collect_all (Internal ks cs c)) k"
      using ih(1) by (simp add: cs(1) map_add_def split: option.splits)
    show "concat (map collect_all ?nodes) = bmap_put k v (collect_all (Internal ks cs c))"
      using ih(2) bmap_put_middle [OF low out(3)] by (simp add: cs(1))
    show "insert_into_node p k v (Internal ks cs c) =
        (if length ?nodes \<le> max_internal p then (mk_internal p ?nodes, previous, None)
         else let h = div_ceil (length ?nodes) 2
              in (mk_internal p (take h ?nodes), previous, Some (mk_internal p (drop h ?nodes))))"
      by (simp only: insert_into_node.simps Let_def sel prod.case upd)
  qed (use Internal.prems in simp_all)
qed

lemma bpt_insert_inv:
  assumes "params_ok p" and "bpt_inv p t" and "bpt_insert p k v t = (previous, t')"
  shows "bpt_inv p t'" and "bpt_entries t' = bmap_put k v (bpt_entries t)" and "previous = map_of (bpt_entries t) k"
proof -
  obtain n prev split where r: "insert_into_node p k v (root t) = (n, prev, split)" by (metis prod_cases3)
  have srt: "bmap (bpt_entries t)" and len: "tree_len t = length (bpt_entries t)" using assms(2) by (simp_all add: bpt_inv_def)
  let ?nodes = "n # (case split of None \<Rightarrow> [] | Some right \<Rightarrow> [right])"
  have ok: "prev = map_of (bpt_entries t) k" "concat (map collect_all ?nodes) = bmap_put k v (bpt_entries t)"
    "\<forall>x \<in> set ?nodes. node_inv p (split = None) x \<and> balanced x \<and> node_depth x = node_depth (root t)"
    using insert_into_node_ok [of p True "root t" k v] assms(1,2) r by (auto simp: bpt_inv_def insert_ok_def Let_def bpt_entries_def)
  let ?root = "case split of None \<Rightarrow> n | Some right \<Rightarrow> mk_internal p [n, right]"
  have "node_inv p True ?root \<and> balanced ?root \<and> collect_all ?root = bmap_put k v (bpt_entries t)"
  proof (cases split)
    case (Some right)
    then show ?thesis using ok(2,3) assms(1) mk_internal_ok [of "[n, right]" p True "node_depth (root t)"]
      by (simp add: params_ok_def)
  qed (use ok in simp)
  moreover have "length (bmap_put k v (bpt_entries t)) =
      (if map_of (bpt_entries t) k = None then length (bpt_entries t) + 1 else length (bpt_entries t))"
    using length_bmap_put [OF srt, of k v] by (simp only: map_of_eq_None_iff if_not_P split: if_split) simp
  ultimately show "bpt_inv p t'" and "bpt_entries t' = bmap_put k v (bpt_entries t)" and "previous = map_of (bpt_entries t) k"
    using assms(3) ok(1) srt len r by (auto simp: bpt_insert_def bpt_inv_def bpt_entries_def Let_def)
qed

end
