(* ===== verification/Bptree_Bulk.thy ===== *)
theory Bptree_Bulk
  imports Bptree_Valid
begin

text \<open>
  The two loaders that build a tree from a stream of entries, with and without a known length: they
  accept exactly the streams that are strictly ascending, free of faults and of the announced length,
  and leave the tree alone otherwise.
\<close>

section \<open>Streams\<close>

definition stream_of :: "'x list \<Rightarrow> 'e option \<Rightarrow> ('e + 'x) list \<Rightarrow> ('e + 'x) list" where
  "stream_of xs fault junk = map Inr xs @ (case fault of None \<Rightarrow> [] | Some e \<Rightarrow> Inl e # junk)"

text \<open>Every stream has this form: its entries up to the first fault.\<close>

lemma stream_of_cases: "\<exists>xs fault junk. it = stream_of xs fault junk"
proof (induction it)
  case Nil
  then show ?case by (intro exI [of _ "[]"] exI [of _ None]) (simp add: stream_of_def)
next
  case (Cons x it)
  then obtain xs fault junk where it: "it = stream_of xs fault junk" by blast
  show ?case
  proof (cases x)
    case (Inl e)
    then show ?thesis by (intro exI [of _ "[]"] exI [of _ "Some e"] exI [of _ it]) (simp add: stream_of_def)
  next
    case (Inr y)
    then show ?thesis by (intro exI [of _ "y # xs"] exI [of _ fault] exI [of _ junk]) (simp add: stream_of_def it)
  qed
qed

lemma stream_of_simps:
  "stream_of (x # xs) fault junk = Inr x # stream_of xs fault junk"
  "stream_of [] None junk = []" "stream_of [] (Some e) junk = Inl e # junk"
  by (simp_all add: stream_of_def)

definition after :: "'k::linorder option \<Rightarrow> ('k \<times> 'v) list \<Rightarrow> bool" where
  "after prev es \<longleftrightarrow> bmap es \<and> (case prev of None \<Rightarrow> True | Some q \<Rightarrow> \<forall>e \<in> set es. q < fst e)"

lemma after_Nil [simp]: "after prev []"
  by (simp add: after_def split: option.split)

lemma after_Cons [simp]:
  "after prev ((k, v) # es) \<longleftrightarrow> \<not> (case prev of None \<Rightarrow> False | Some q \<Rightarrow> q \<ge> k) \<and> after (Some k) es"
  by (cases prev) (auto simp: after_def not_le)

lemma after_None: "after None es \<longleftrightarrow> bmap es"
  by (simp add: after_def)

section \<open>Known length\<close>

lemma take_sorted_stream:
  "take_sorted n prev (stream_of es fault junk) =
     (if \<not> after prev (take n es) then Inl (Tree KeyOrderViolation)
      else if length es < n then Inl (case fault of None \<Rightarrow> Tree LengthMismatch | Some e \<Rightarrow> Source e)
      else Inr (take n es, (if take n es = [] then prev else Some (fst (last (take n es)))), stream_of (drop n es) fault junk))"
proof (induction n arbitrary: prev es)
  case (Suc n)
  show ?case
  proof (cases es)
    case Nil
    then show ?thesis by (cases fault) (simp_all add: stream_of_simps)
  next
    case (Cons x xs)
    obtain k v where "x = (k, v)" by force
    then show ?thesis using Suc.IH [of "Some k" xs] Cons by (simp add: stream_of_simps)
  qed
qed simp

lemma take_sorted_add:
  "take_sorted (a + b) prev it =
     (case take_sorted a prev it of
        Inl e \<Rightarrow> Inl e
      | Inr (es, prev', it') \<Rightarrow>
          (case take_sorted b prev' it' of Inl e \<Rightarrow> Inl e | Inr (fs, rest) \<Rightarrow> Inr (es @ fs, rest)))"
  by (induction a prev it rule: take_sorted.induct) (auto split: sum.splits prod.splits)

lemma take_sorted_length: "take_sorted a prev it = Inr (es, rest) \<Longrightarrow> length es = a"
  by (induction a prev it arbitrary: es rest rule: take_sorted.induct) (auto split: sum.splits if_splits)

lemma read_leaves_take:
  "read_leaves ss prev it =
     (case take_sorted (sum_list ss) prev it of Inl e \<Rightarrow> Inl e | Inr (es, prev', rest) \<Rightarrow> Inr (cut_pieces ss es, rest))"
proof (induction ss arbitrary: prev it)
  case (Cons s ss)
  show ?case
    using Cons.IH take_sorted_length [of s prev it]
    by (auto simp: take_sorted_add split: sum.splits prod.splits)
qed simp

lemma compact_leaves_cut:
  assumes "es \<noteq> []" and "0 < max_leaf p" and "n = length es"
  shows "map (mk_leaf p) (cut_pieces (even_sizes n (lower_groups n (min_leaf p) (div_ceil n (max_leaf p)))) es)
    = build_compact_leaves p es"
    and "sum_list (even_sizes n (lower_groups n (min_leaf p) (div_ceil n (max_leaf p)))) = n"
proof -
  let ?g = "lower_groups n (min_leaf p) (div_ceil n (max_leaf p))"
  have "map (mk_leaf p) (cut_pieces (even_sizes n ?g) es) = build_compact_leaves p es \<and> sum_list (even_sizes n ?g) = n"
  proof (cases "max_leaf p < length es")
    case True
    then have "2 \<le> ?g" using cut_evenly(3) [OF True assms(2) min_leaf_def refl] assms(3) by simp
    then show ?thesis using True sum_even_sizes [of ?g n] assms(3) by (simp add: build_compact_leaves_def Let_def)
  next
    case False
    have "div_ceil n (max_leaf p) * max_leaf p < n + max_leaf p" "n \<le> div_ceil n (max_leaf p) * max_leaf p"
      using div_ceil_bounds [OF assms(2), of n] by simp_all
    then have "div_ceil n (max_leaf p) * max_leaf p < 2 * max_leaf p" "0 < div_ceil n (max_leaf p)"
      using False assms(1,3) by (linarith, cases "div_ceil n (max_leaf p)") auto
    then have "div_ceil n (max_leaf p) = 1" by simp
    then have "even_sizes n ?g = [n]" by (simp add: even_sizes_def)
    then show ?thesis using False assms(3) by (simp add: build_compact_leaves_def)
  qed
  then show "map (mk_leaf p) (cut_pieces (even_sizes n ?g) es) = build_compact_leaves p es" "sum_list (even_sizes n ?g) = n"
    by simp_all
qed

text \<open>What a loader that expects \<open>n\<close> entries answers, and what one without an expectation answers.\<close>

definition expected_verdict :: "nat \<Rightarrow> ('k::linorder \<times> 'v) list \<Rightarrow> 'e option \<Rightarrow> 'e rebuild_error + unit" where
  "expected_verdict n es fault =
     (if \<not> bmap (take n es) then Inl (Tree KeyOrderViolation)
      else if n < length es then Inl (Tree LengthMismatch)
      else case fault of
             Some e \<Rightarrow> Inl (Source e)
           | None \<Rightarrow> if length es < n then Inl (Tree LengthMismatch) else Inr ())"

definition open_verdict :: "('k::linorder \<times> 'v) list \<Rightarrow> 'e option \<Rightarrow> 'e rebuild_error + nat" where
  "open_verdict es fault =
     (if \<not> bmap es then Inl (Tree KeyOrderViolation)
      else case fault of Some e \<Rightarrow> Inl (Source e) | None \<Rightarrow> Inr (length es))"

lemma sorted_iter_correct:
  assumes "params_ok p"
  shows "\<exists>t'. try_rebuild_compact_from_sorted_iter p n (stream_of es fault junk) t = Some (expected_verdict n es fault, t') \<and>
    (if isl (expected_verdict n es fault) then t' = t else bpt_inv p t' \<and> bpt_entries t' = es)"
proof (cases "n = 0")
  case True
  then show ?thesis using bpt_new_inv [of p]
    by (cases es; cases fault)
      (auto simp: try_rebuild_compact_from_sorted_iter_def build_compact_root_from_sorted_iter_def stream_end_def
        stream_of_simps expected_verdict_def bpt_new_def)
next
  case False
  let ?sizes = "even_sizes n (lower_groups n (min_leaf p) (div_ceil n (max_leaf p)))"
  have pos: "0 < max_leaf p" using assms by (simp add: params_ok_def)
  have "sum_list ?sizes = n"
    using compact_leaves_cut(2) [of "replicate n undefined" p n] False pos by simp
  note read = read_leaves_take [of ?sizes None "stream_of es fault junk"] this
  show ?thesis
  proof (cases "isl (expected_verdict n es fault)")
    case True
    then show ?thesis using read False
      by (cases "drop n es"; cases fault)
        (auto simp: try_rebuild_compact_from_sorted_iter_def build_compact_root_from_sorted_iter_def stream_end_def
          take_sorted_stream after_None stream_of_simps expected_verdict_def split: if_splits)
  next
    case ok: False
    then have es: "length es = n" "bmap es" "fault = None"
      by (auto simp: expected_verdict_def not_less split: if_splits option.splits)
    then have ne: "es \<noteq> []" using False by auto
    from es have "read_leaves ?sizes None (stream_of es fault junk) = Inr (cut_pieces ?sizes es, [])"
      using read by (simp add: take_sorted_stream after_None stream_of_simps)
    moreover obtain t' where "rebuild_compact p es = Some t'" "bpt_inv p t'" "bpt_entries t' = es"
      using rebuild_compact_inv [OF assms es(2)] by blast
    ultimately show ?thesis using es ne False compact_leaves_cut(1) [OF ne pos es(1) [symmetric]]
      by (auto simp: try_rebuild_compact_from_sorted_iter_def build_compact_root_from_sorted_iter_def stream_end_def
        expected_verdict_def rebuild_compact_def)
  qed
qed

section \<open>Unknown length\<close>

lemma stream_leaves_fails:
  "\<not> after prev es \<or> fault = Some e \<Longrightarrow>
   stream_leaves ml (stream_of es fault junk) prev leaf leaves len =
     Inl (if \<not> after prev es then Tree KeyOrderViolation else Source e)"
  by (induction es arbitrary: prev leaf leaves len) (auto simp: stream_of_simps Let_def)

lemma stream_leaves_fills:
  "after prev es \<Longrightarrow> length leaf < ml \<Longrightarrow> \<forall>l \<in> set leaves. length l = ml \<Longrightarrow>
   \<exists>ls l. stream_leaves ml (stream_of es None junk) prev leaf leaves len = Inr (ls, l, len + length es) \<and>
     concat ls @ l = concat leaves @ leaf @ es \<and> (\<forall>x \<in> set ls. length x = ml) \<and> length l < ml"
proof (induction es arbitrary: prev leaf leaves len)
  case (Cons x es)
  obtain k v where x: "x = (k, v)" by force
  note prems = Cons.prems [unfolded x]
  show ?case
  proof (cases "Suc (length leaf) = ml")
    case True
    then show ?thesis using Cons.IH [of "Some k" "[]" "leaves @ [leaf @ [x]]" "Suc len"] prems
      by (auto simp: x stream_of_simps)
  next
    case False
    then show ?thesis using Cons.IH [of "Some k" "leaf @ [x]" leaves "Suc len"] prems
      by (auto simp: x stream_of_simps)
  qed
qed (simp add: stream_of_simps)

lemma finish_leaves_ok:
  assumes "params_ok p" and "\<forall>l \<in> set ls. length l = max_leaf p" and "length l < max_leaf p" and "concat ls @ l \<noteq> []"
  shows "concat (finish_leaves p ls l) = concat ls @ l" and "finish_leaves p ls l \<noteq> []"
    and "\<forall>x \<in> set (finish_leaves p ls l). length x \<le> max_leaf p \<and> (length (finish_leaves p ls l) = 1 \<or> min_leaf p \<le> length x)"
proof -
  have half: "min_leaf p \<le> max_leaf p" "min_leaf p = Suc (max_leaf p) div 2" using assms(1)
    by (auto simp: min_leaf_def div_ceil_2 params_ok_def)
  consider (none) "l = []" | (keep) "l \<noteq> []" "ls = [] \<or> min_leaf p \<le> length l"
    | (merge) ms m where "l \<noteq> []" "ls = ms @ [m]" "length l < min_leaf p"
    by (metis not_less rev_exhaust)
  then have "concat (finish_leaves p ls l) = concat ls @ l \<and> finish_leaves p ls l \<noteq> [] \<and>
    (\<forall>x \<in> set (finish_leaves p ls l). length x \<le> max_leaf p \<and> (length (finish_leaves p ls l) = 1 \<or> min_leaf p \<le> length x))"
  proof cases
    case none
    then show ?thesis using assms half by (auto simp: finish_leaves_def)
  next
    case keep
    then show ?thesis using assms half by (auto simp: finish_leaves_def)
  next
    case merge
    have m: "length m = max_leaf p" "\<forall>x \<in> set ms. length x = max_leaf p" "1 \<le> length l"
      using assms(2) merge by (auto simp: Suc_le_eq)
    define xs where "xs = m @ l"
    define h where "h = length xs div 2"
    have "min_leaf p \<le> h" "h \<le> max_leaf p" "min_leaf p \<le> length xs - h" "length xs - h \<le> max_leaf p" "h \<le> length xs"
      using m half merge(3) by (auto simp: xs_def h_def)
    moreover have "finish_leaves p ls l = ms @ [take h xs, drop h xs]"
      using merge by (simp add: finish_leaves_def Let_def xs_def h_def)
    moreover have "concat ls @ l = concat ms @ xs" using merge by (simp add: xs_def)
    ultimately show ?thesis using m(2) half(1) by auto
  qed
  then show "concat (finish_leaves p ls l) = concat ls @ l" "finish_leaves p ls l \<noteq> []"
    "\<forall>x \<in> set (finish_leaves p ls l). length x \<le> max_leaf p \<and> (length (finish_leaves p ls l) = 1 \<or> min_leaf p \<le> length x)"
    by blast+
qed

lemma unknown_len_iter_correct:
  assumes "params_ok p"
  shows "\<exists>t'. try_rebuild_compact_from_sorted_unknown_len_iter p (stream_of es fault junk) t = Some (open_verdict es fault, t') \<and>
    (if isl (open_verdict es fault) then t' = t else bpt_inv p t' \<and> bpt_entries t' = es)"
proof (cases "isl (open_verdict es fault)")
  case True
  then have "\<not> after None es \<or> fault = Some (the fault)"
    by (auto simp: open_verdict_def after_None split: if_splits option.splits)
  from stream_leaves_fails [OF this] True show ?thesis
    by (auto simp: try_rebuild_compact_from_sorted_unknown_len_iter_def build_compact_root_from_sorted_unknown_len_iter_def
      open_verdict_def after_None split: if_splits option.splits)
next
  case False
  then have es: "bmap es" "fault = None" by (auto simp: open_verdict_def split: if_splits option.splits)
  have "0 < max_leaf p" using assms by (simp add: params_ok_def)
  then obtain ls l where l: "stream_leaves (max_leaf p) (stream_of es fault junk) None [] [] 0 = Inr (ls, l, length es)"
    "concat ls @ l = es" "\<forall>x \<in> set ls. length x = max_leaf p" "length l < max_leaf p"
    using stream_leaves_fills [of None es "[]" "max_leaf p" "[]" junk 0] es by (auto simp: after_None)
  show ?thesis
  proof (cases "es = []")
    case True
    then show ?thesis using l(1) es bpt_new_inv [of p]
      by (simp add: try_rebuild_compact_from_sorted_unknown_len_iter_def build_compact_root_from_sorted_unknown_len_iter_def
        open_verdict_def bpt_new_def)
  next
    case ne: False
    then have "concat ls @ l \<noteq> []" using l(2) by simp
    note leaves = finish_leaves_ok [OF assms l(3,4) this]
    have "concat (map collect_all (map (mk_leaf p) (finish_leaves p ls l))) = es"
      using leaves(1) l(2) by (simp add: o_def)
    with build_up_ends [OF compact_level_keeps_ok [OF assms] leaf_level_ok [OF leaves(2,3)]] leaves(2)
    obtain n where "build_up (build_compact_internal_level p) (map (mk_leaf p) (finish_leaves p ls l)) = Some n"
      "level_ok p [n]" "collect_all n = es" by auto
    then show ?thesis using l(1) es ne
      by (simp add: try_rebuild_compact_from_sorted_unknown_len_iter_def build_compact_root_from_sorted_unknown_len_iter_def
        open_verdict_def bpt_inv_def bpt_entries_def level_ok_def)
  qed
qed

section \<open>Property\<close>

text \<open>
  C9. Loading a tree from a stream of entries: the loader with an announced length and the one without
  both end; they report the first entry out of order, a wrong number of entries or the fault of the
  source, whichever comes first, and leave the tree as it was; otherwise the new tree is valid and holds
  exactly the entries of the stream.
\<close>

theorem bulk_load_correct:
  assumes "params_ok p"
  shows "(\<exists>t'. try_rebuild_compact_from_sorted_iter p n (stream_of es fault junk) t = Some (expected_verdict n es fault, t') \<and>
      (if isl (expected_verdict n es fault) then t' = t else bpt_validate p t' = Inr () \<and> bpt_entries t' = es))
    \<and> (\<exists>t'. try_rebuild_compact_from_sorted_unknown_len_iter p (stream_of es fault junk) t = Some (open_verdict es fault, t') \<and>
      (if isl (open_verdict es fault) then t' = t else bpt_validate p t' = Inr () \<and> bpt_entries t' = es))"
  using sorted_iter_correct [OF assms, of n es fault junk t] unknown_len_iter_correct [OF assms, of es fault junk t]
    bpt_inv_validate [OF assms] by (auto split: if_splits)

theorem bulk_load_correct_witness:
  "\<exists>t. try_rebuild_compact_from_sorted_unknown_len_iter \<lparr>max_leaf = 1, max_internal = 3, blake3 = id\<rparr>
      [Inr (1 :: nat, ''a''), Inr (3, ''b'')] (bpt_new \<lparr>max_leaf = 1, max_internal = 3, blake3 = id\<rparr>) = Some (Inr 2 :: nat rebuild_error + nat, t)
    \<and> bpt_entries t = [(1, ''a''), (3, ''b'')]"
  using bulk_load_correct [of "\<lparr>max_leaf = 1, max_internal = 3, blake3 = id\<rparr>" 0 "[(1 :: nat, ''a''), (3, ''b'')]"
      "None :: nat option" "[]" "bpt_new \<lparr>max_leaf = 1, max_internal = 3, blake3 = id\<rparr>"]
  by (auto simp: params_ok_def stream_of_def open_verdict_def)

end
