(* ===== verification/Ordered_Map.thy ===== *)
theory Ordered_Map
  imports Tide_Prelude
begin

text \<open>
  The contract of an ordered map as its clients use it, and what follows for a client that keeps
  entries in buckets under the hash of their names.
\<close>

section \<open>Association lists in key order\<close>

lemma bmap_eqI: "bmap a \<Longrightarrow> bmap b \<Longrightarrow> map_of a = map_of b \<Longrightarrow> a = b"
  for a b :: "('k::linorder \<times> 'v) list"
proof (induction a arbitrary: b)
  case Nil
  then show ?case by simp
next
  case (Cons x a)
  obtain k v where x: "x = (k, v)" by force
  have "map_of b k = Some v" using Cons.prems(3) x by (metis map_of_Cons_code(2))
  then obtain y b' where b: "b = y # b'" by (cases b) auto
  obtain k' v' where y: "y = (k', v')" by force
  have min_a: "k \<le> j" if "map_of (x # a) j \<noteq> None" for j
    using Cons.prems(1) that x by (force split: if_splits dest: map_of_SomeD)
  have min_b: "k' \<le> j" if "map_of b j \<noteq> None" for j
    using Cons.prems(2) that b y by (force split: if_splits dest: map_of_SomeD)
  have "map_of (x # a) k' \<noteq> None" unfolding Cons.prems(3) b y by simp
  then have "k \<le> k'" by (rule min_a)
  moreover have "k' \<le> k" using \<open>map_of b k = Some v\<close> by (intro min_b) simp
  ultimately have "k = k'" by simp
  have "v = v'" using \<open>map_of b k = Some v\<close> b y \<open>k = k'\<close> by simp
  moreover have "map_of a = map_of b'"
  proof
    fix j
    show "map_of a j = map_of b' j"
    proof (cases "j = k")
      case True
      have "map_of a k = None" "map_of b' k = None"
        using Cons.prems(1,2) x y b \<open>k = k'\<close> by (auto simp: map_of_eq_None_iff)
      then show ?thesis using True by simp
    next
      case False
      then show ?thesis using fun_cong [OF Cons.prems(3), of j] x y b \<open>k = k'\<close> by simp
    qed
  qed
  ultimately show ?case using Cons.IH [of b'] Cons.prems(1,2) b x y \<open>k = k'\<close> by simp
qed

lemma set_bmap_put: "set (bmap_put k v m) \<subseteq> insert (k, v) (set m)"
  by (induction m) (auto split: if_splits)

lemma sum_bmap_put:
  "bmap m \<Longrightarrow> map_of m k = None \<Longrightarrow> sum_list (map (\<lambda>e. f (fst e)) (bmap_put k v m)) = f k + sum_list (map (\<lambda>e. f (fst e)) m)"
  for f :: "'k::linorder \<Rightarrow> nat"
  by (induction m) (auto split: if_splits)

lemma sum_bmap_del:
  "bmap m \<Longrightarrow> map_of m k \<noteq> None \<Longrightarrow> f k + sum_list (map (\<lambda>e. f (fst e)) (bmap_del k m)) = sum_list (map (\<lambda>e. f (fst e)) m)"
  for f :: "'k::linorder \<Rightarrow> nat"
proof (induction m)
  case (Cons x m)
  show ?case
  proof (cases "fst x = k")
    case True
    then have "filter (\<lambda>e. fst e \<noteq> k) m = m" using Cons.prems(1) by (auto simp: filter_id_conv)
    then show ?thesis using True by (simp add: bmap_del_def)
  next
    case False
    then show ?thesis using Cons by (auto simp: bmap_del_def split: if_splits)
  qed
qed simp

section \<open>The contract\<close>

locale ordered_map =
  fixes ok :: "'t \<Rightarrow> bool"
    and items :: "'t \<Rightarrow> ('k::linorder \<times> 'v) list"
    and get :: "'k \<Rightarrow> 't \<Rightarrow> 'v option"
    and ins :: "'k \<Rightarrow> 'v \<Rightarrow> 't \<Rightarrow> 'v option \<times> 't"
    and del :: "'k \<Rightarrow> 't \<Rightarrow> ('v option \<times> 't) option"
    and upd :: "'k \<Rightarrow> ('v \<Rightarrow> 'v) \<Rightarrow> 't \<Rightarrow> (bool \<times> 't) option"
  assumes items_sorted: "ok t \<Longrightarrow> bmap (items t)"
    and get_items: "ok t \<Longrightarrow> get k t = map_of (items t) k"
    and ins_items: "ok t \<Longrightarrow> ok (snd (ins k v t)) \<and> items (snd (ins k v t)) = bmap_put k v (items t)"
    and del_items: "ok t \<Longrightarrow> \<exists>t'. del k t = Some (map_of (items t) k, t') \<and> ok t' \<and> items t' = bmap_del k (items t)"
    and upd_items: "ok t \<Longrightarrow> \<exists>t'. upd k f t = Some (k \<in> fst ` set (items t), t') \<and> ok t' \<and>
      items t' = (case map_of (items t) k of None \<Rightarrow> items t | Some v \<Rightarrow> bmap_put k (f v) (items t))"
begin

lemma get_after_ins: "ok t \<Longrightarrow> get j (snd (ins k v t)) = (if j = k then Some v else get j t)"
  using ins_items [of t k v] by (simp add: get_items)

lemma get_after_del: "ok t \<Longrightarrow> get j (snd (the (del k t))) = (if j = k then None else get j t)"
  using del_items [of t k] by (auto simp: get_items)

text \<open>Appending to the value of a key, or starting a new one.\<close>

lemma upd_or_ins:
  assumes "ok t" and "t' = (if get k t \<noteq> None then snd (the (upd k f t)) else snd (ins k v t))"
  shows "ok t'" and "items t' = bmap_put k (case map_of (items t) k of None \<Rightarrow> v | Some w \<Rightarrow> f w) (items t)"
proof -
  have "ok t' \<and> items t' = bmap_put k (case map_of (items t) k of None \<Rightarrow> v | Some w \<Rightarrow> f w) (items t)"
    using assms ins_items [OF assms(1), of k v] upd_items [OF assms(1), of k f]
    by (auto simp: get_items split: option.splits)
  then show "ok t'" "items t' = bmap_put k (case map_of (items t) k of None \<Rightarrow> v | Some w \<Rightarrow> f w) (items t)" by simp_all
qed

text \<open>Writing a value back, or removing the key when nothing is left.\<close>

lemma ins_or_del:
  assumes "ok t" and "t' = (if gone then snd (the (del k t)) else snd (ins k v t))"
  shows "ok t'" and "items t' = (if gone then bmap_del k (items t) else bmap_put k v (items t))"
proof -
  have "ok t' \<and> items t' = (if gone then bmap_del k (items t) else bmap_put k v (items t))"
    using assms ins_items [OF assms(1), of k v] del_items [OF assms(1), of k] by auto
  then show "ok t'" "items t' = (if gone then bmap_del k (items t) else bmap_put k v (items t))" by simp_all
qed

end

section \<open>Buckets\<close>

lemma option_eq_SomeI: "(\<And>e. x = Some e \<longleftrightarrow> y = Some e) \<Longrightarrow> x = y"
  by (cases x; cases y) auto

text \<open>
  A map from hashes to buckets and a map from names hold the same entries: no bucket is empty, the
  entries of a bucket have different names, all with the hash of the bucket.
\<close>

definition bucket_ok :: "('n \<Rightarrow> 'k) \<Rightarrow> ('e \<Rightarrow> 'n) \<Rightarrow> 'k \<Rightarrow> 'e list \<Rightarrow> bool" where
  "bucket_ok key nm k b \<longleftrightarrow> b \<noteq> [] \<and> distinct (map nm b) \<and> (\<forall>e \<in> set b. key (nm e) = k)"

definition buckets_index ::
    "('n::linorder \<Rightarrow> 'k::linorder) \<Rightarrow> ('e \<Rightarrow> 'n) \<Rightarrow> ('k \<times> 'e list) list \<Rightarrow> ('n \<times> 'e) list \<Rightarrow> bool" where
  "buckets_index key nm bs nt \<longleftrightarrow> bmap bs \<and> bmap nt \<and> (\<forall>k b. map_of bs k = Some b \<longrightarrow> bucket_ok key nm k b) \<and>
     (\<forall>n e. map_of nt n = Some e \<longleftrightarrow> nm e = n \<and> (\<exists>b. map_of bs (key n) = Some b \<and> e \<in> set b))"

lemma find_distinct:
  "distinct (map f xs) \<Longrightarrow> find (\<lambda>x. f x = y) xs = Some x \<longleftrightarrow> x \<in> set xs \<and> f x = y"
  by (induction xs) (auto simp: image_iff)

lemma bucket_lookup:
  assumes "buckets_index key nm bs nt"
  shows "map_of nt n = (case map_of bs (key n) of None \<Rightarrow> None | Some b \<Rightarrow> find (\<lambda>e. nm e = n) b)"
proof (cases "map_of bs (key n)")
  case None
  then have "map_of nt n \<noteq> Some e" for e using assms by (simp add: buckets_index_def)
  then show ?thesis using None by (cases "map_of nt n") auto
next
  case (Some b)
  then have "distinct (map nm b)" using assms by (auto simp: buckets_index_def bucket_ok_def)
  then have "find (\<lambda>e. nm e = n) b = Some e \<longleftrightarrow> e \<in> set b \<and> nm e = n" for e by (rule find_distinct)
  moreover have "map_of nt n = Some e \<longleftrightarrow> nm e = n \<and> e \<in> set b" for e
    using assms Some by (simp add: buckets_index_def)
  ultimately have "map_of nt n = Some e \<longleftrightarrow> find (\<lambda>e. nm e = n) b = Some e" for e by blast
  then show ?thesis using Some by (simp add: option_eq_SomeI)
qed

lemma buckets_index_put:
  assumes "buckets_index key nm bs nt" and "map_of nt (nm e) = None"
  shows "buckets_index key nm (bmap_put (key (nm e)) (case map_of bs (key (nm e)) of None \<Rightarrow> [e] | Some b \<Rightarrow> b @ [e]) bs)
    (bmap_put (nm e) e nt)"
proof -
  define k where "k = key (nm e)"
  define b where "b = (case map_of bs k of None \<Rightarrow> [] | Some b \<Rightarrow> b)"
  have put: "(case map_of bs k of None \<Rightarrow> [e] | Some b \<Rightarrow> b @ [e]) = b @ [e]" by (simp add: b_def split: option.split)
  have srt: "bmap bs" "bmap nt" and ok: "\<And>k b. map_of bs k = Some b \<Longrightarrow> bucket_ok key nm k b"
    and iff: "\<And>n x. map_of nt n = Some x \<longleftrightarrow> nm x = n \<and> (\<exists>b. map_of bs (key n) = Some b \<and> x \<in> set b)"
    using assms(1) by (simp_all add: buckets_index_def)
  have in_b: "x \<in> set b \<longleftrightarrow> (\<exists>c. map_of bs k = Some c \<and> x \<in> set c)" for x by (cases "map_of bs k") (simp_all add: b_def)
  have new: "nm e \<noteq> nm x" if "x \<in> set b" for x
    using iff [of "nm e" x] assms(2) that by (auto simp: in_b k_def)
  then have "nm e \<notin> nm ` set b" by blast
  have "b \<noteq> [] \<Longrightarrow> bucket_ok key nm k b" using ok [of k] by (simp add: b_def split: option.splits)
  then have push: "bucket_ok key nm k (b @ [e])"
    using \<open>nm e \<notin> nm ` set b\<close> by (cases "b = []") (auto simp: bucket_ok_def k_def)
  have "bucket_ok key nm j c" if "map_of (bmap_put k (b @ [e]) bs) j = Some c" for j c
    using ok [of j c] push that by (cases "j = k") simp_all
  moreover have "map_of (bmap_put (nm e) e nt) n = Some x \<longleftrightarrow>
      nm x = n \<and> (\<exists>c. map_of (bmap_put k (b @ [e]) bs) (key n) = Some c \<and> x \<in> set c)" for n x
  proof (cases "n = nm e")
    case True
    then show ?thesis using new [of x] by (auto simp: k_def)
  next
    case False
    then show ?thesis using iff [of n x] in_b [of x] by (cases "key n = k") auto
  qed
  ultimately show ?thesis unfolding k_def [symmetric] put using srt by (simp add: buckets_index_def)
qed

lemma buckets_index_del:
  assumes "buckets_index key nm bs nt" and "map_of bs (key n) = Some b" and "b' = filter (\<lambda>e. nm e \<noteq> n) b"
  shows "buckets_index key nm (if b' = [] then bmap_del (key n) bs else bmap_put (key n) b' bs) (bmap_del n nt)"
proof -
  let ?bs = "if b' = [] then bmap_del (key n) bs else bmap_put (key n) b' bs"
  have srt: "bmap bs" "bmap nt" and ok: "\<And>k b. map_of bs k = Some b \<Longrightarrow> bucket_ok key nm k b"
    and iff: "\<And>j x. map_of nt j = Some x \<longleftrightarrow> nm x = j \<and> (\<exists>b. map_of bs (key j) = Some b \<and> x \<in> set b)"
    using assms(1) by (simp_all add: buckets_index_def)
  have find': "map_of ?bs k = (if k = key n then (if b' = [] then None else Some b') else map_of bs k)" for k by simp
  have "distinct (map nm b')" if "distinct (map nm b)" using that assms(3) by (simp add: distinct_map_filter)
  then have "bucket_ok key nm k c" if "map_of ?bs k = Some c" for k c
    using ok [of k c] ok [OF assms(2)] that assms(3) unfolding find' by (auto simp: bucket_ok_def split: if_splits)
  moreover have "map_of (bmap_del n nt) j = Some x \<longleftrightarrow> nm x = j \<and> (\<exists>c. map_of ?bs (key j) = Some c \<and> x \<in> set c)" for j x
    unfolding find' using iff [of j x] assms(2,3) by (auto simp: filter_empty_conv)
  moreover have "bmap ?bs" "bmap (bmap_del n nt)" using srt by simp_all
  ultimately show ?thesis unfolding buckets_index_def by blast
qed

lemma buckets_index_concat:
  assumes "buckets_index key nm bs nt"
  shows "distinct (map nm (concat (map snd bs)))"
    and "e \<in> set (concat (map snd bs)) \<longleftrightarrow> map_of nt (nm e) = Some e"
proof -
  have srt: "bmap bs" and ok: "\<And>k b. (k, b) \<in> set bs \<Longrightarrow> bucket_ok key nm k b"
    and iff: "\<And>n x. map_of nt n = Some x \<longleftrightarrow> nm x = n \<and> (\<exists>b. map_of bs (key n) = Some b \<and> x \<in> set b)"
    using assms by (auto simp: buckets_index_def bmap_in_iff)
  from srt ok show "distinct (map nm (concat (map snd bs)))"
  proof (induction bs)
    case (Cons x bs)
    obtain k b where x: "x = (k, b)" by force
    have "bucket_ok key nm k b" using Cons.prems(2) x by simp
    moreover have "key (nm e) \<noteq> k" if "(j, c) \<in> set bs" "e \<in> set c" for j c e
    proof -
      have "key (nm e) = j" using Cons.prems(2) [of j c] that by (simp add: bucket_ok_def)
      moreover have "k < j" using Cons.prems(1) that(1) x by force
      ultimately show ?thesis by simp
    qed
    moreover have "distinct (map nm (concat (map snd bs)))" using Cons by simp
    ultimately show ?case by (fastforce simp: x bucket_ok_def)
  qed simp
  show "e \<in> set (concat (map snd bs)) \<longleftrightarrow> map_of nt (nm e) = Some e"
  proof
    assume "e \<in> set (concat (map snd bs))"
    then obtain k b where "(k, b) \<in> set bs" "e \<in> set b" by auto
    then show "map_of nt (nm e) = Some e" using ok [of k b] iff [of "nm e" e] srt by (auto simp: bucket_ok_def bmap_in_iff)
  next
    assume "map_of nt (nm e) = Some e"
    then obtain b where "(key (nm e), b) \<in> set bs" "e \<in> set b" using iff [of "nm e" e] by (auto dest: map_of_SomeD)
    then show "e \<in> set (concat (map snd bs))" by force
  qed
qed

end
