(* ===== verification/Bptree_Map.thy ===== *)
theory Bptree_Map
  imports Bptree_Valid Ordered_Map
begin

text \<open>
  The B+tree as an ordered map. Every sequence of insertions, deletions, updates, lookups, predecessor
  searches and range scans gives the answers of a sorted association list, and validation succeeds
  after each of them. The bulk loaders accept exactly the sorted streams.
\<close>

section \<open>Deletion and update\<close>

lemma bmap_del_middle: "bmap (xs @ (k, v) # ys) \<Longrightarrow> bmap_del k (xs @ (k, v) # ys) = xs @ ys"
proof -
  assume "bmap (xs @ (k, v) # ys)"
  then have "\<forall>x \<in> set xs. fst x \<noteq> k" "\<forall>y \<in> set ys. fst y \<noteq> k" by (auto simp: sorted_wrt_append)
  then have "filter (\<lambda>e. fst e \<noteq> k) xs = xs" "filter (\<lambda>e. fst e \<noteq> k) ys = ys" by (simp_all add: filter_id_conv)
  then show ?thesis by (simp add: bmap_del_def)
qed

lemma bmap_del_missing: "\<forall>x \<in> set xs. fst x \<noteq> k \<Longrightarrow> bmap_del k xs = xs"
  by (simp add: bmap_del_def filter_id_conv)

text \<open>What deletion finds and what it removes.\<close>

lemma binary_search_remove:
  assumes "bmap es"
  shows "case binary_search k es of
      Inr i \<Rightarrow> map_of es k = Some (snd (es ! i)) \<and> remove_at i es = bmap_del k es
    | Inl i \<Rightarrow> map_of es k = None \<and> bmap_del k es = es"
proof (cases rule: binary_search_split [OF assms, of k])
  case (1 xs v ys)
  have "map_of xs k = None" using 1(3) by (intro map_of_outside) auto
  then have "map_of es k = Some v" using 1(1) by (simp add: map_add_def)
  moreover have "bmap_del k es = xs @ ys" using assms unfolding 1(1) by (rule bmap_del_middle)
  ultimately show ?thesis using 1(1,2) by (simp add: remove_at_def)
next
  case (2 xs ys)
  then have out: "\<forall>x \<in> set es. fst x \<noteq> k" by auto
  then have "map_of es k = None" by (rule map_of_outside)
  then show ?thesis using 2(2) bmap_del_missing [OF out] by simp
qed

lemma bpt_delete_inv:
  assumes "params_ok p" and "bpt_inv p t"
  shows "\<exists>t'. bpt_delete p k t = Some (map_of (bpt_entries t) k, t') \<and> bpt_inv p t' \<and>
    bpt_entries t' = bmap_del k (bpt_entries t)"
proof -
  have srt: "bmap (bpt_entries t)" using assms(2) by (simp add: bpt_inv_def)
  show ?thesis
    using binary_search_remove [OF srt, of k] rebuild_compact_inv [OF assms(1) bmap_bmap_del [OF srt, of k]] assms(2)
    by (auto simp: bpt_delete_def Let_def split: sum.splits)
qed

lemma bpt_update_inv:
  assumes "params_ok p" and "bpt_inv p t"
  shows "\<exists>t'. bpt_update p k f t = Some (k \<in> fst ` set (bpt_entries t), t') \<and> bpt_inv p t' \<and>
    bpt_entries t' = (case map_of (bpt_entries t) k of None \<Rightarrow> bpt_entries t | Some v \<Rightarrow> bmap_put k (f v) (bpt_entries t))"
proof -
  have srt: "bmap (bpt_entries t)" using assms(2) by (simp add: bpt_inv_def)
  show ?thesis
  proof (cases rule: binary_search_split [OF srt, of k])
    case (1 xs v ys)
    have "map_of xs k = None" using 1(3) by (intro map_of_outside) auto
    then have get: "map_of (bpt_entries t) k = Some v" using 1(1) by (simp add: map_add_def)
    have put: "bmap_put k (f v) (bpt_entries t) = xs @ (k, f v) # ys"
      using bmap_put_middle [of xs k ys "f v" "[(k, v)]"] 1 by simp
    then have "bmap (xs @ (k, f v) # ys)" using bmap_bmap_put [OF srt, of k "f v"] by simp
    then obtain t' where "rebuild_compact p (xs @ (k, f v) # ys) = Some t'" "bpt_inv p t'" "bpt_entries t' = xs @ (k, f v) # ys"
      using rebuild_compact_inv [OF assms(1)] by blast
    then show ?thesis using 1(1,2) get put by (simp add: bpt_update_def Let_def)
  next
    case (2 xs ys)
    then have "\<forall>x \<in> set (bpt_entries t). fst x \<noteq> k" by auto
    then have "map_of (bpt_entries t) k = None" "k \<notin> fst ` set (bpt_entries t)" using map_of_outside by auto
    then show ?thesis using 2(2) assms(2) by (simp add: bpt_update_def Let_def)
  qed
qed

lemma bpt_get_inv: "params_ok p \<Longrightarrow> bpt_inv p t \<Longrightarrow> bpt_get k t = map_of (bpt_entries t) k"
  using bpt_inv_searchable [of p t] get_in_node_map_of [of "root t" _ k]
  by (auto simp: searchable_def bpt_get_def bpt_entries_def)

lemma floor_entry_inv: "params_ok p \<Longrightarrow> bpt_inv p t \<Longrightarrow> floor_entry k t = floor_spec k (bpt_entries t)"
  using bpt_inv_searchable [of p t] floor_in_node_spec [of "root t" _ k]
  by (auto simp: searchable_def floor_entry_def bpt_entries_def)

text \<open>The tree is an ordered map.\<close>

interpretation bpt_map: ordered_map "\<lambda>t. params_ok p \<and> bpt_inv p t" bpt_entries bpt_get "bpt_insert p" "bpt_delete p" "bpt_update p"
  for p :: btree_params
proof
  fix t :: "('a::linorder, 'b) bptree" and k v f
  assume t: "params_ok p \<and> bpt_inv p t"
  then show "bmap (bpt_entries t)" by (simp add: bpt_inv_def)
  show "bpt_get k t = map_of (bpt_entries t) k" using t bpt_get_inv [of p t k] by simp
  show "(params_ok p \<and> bpt_inv p (snd (bpt_insert p k v t))) \<and> bpt_entries (snd (bpt_insert p k v t)) = bmap_put k v (bpt_entries t)"
    using t bpt_insert_inv [of p t k v "fst (bpt_insert p k v t)" "snd (bpt_insert p k v t)"] by simp
  show "\<exists>t'. bpt_delete p k t = Some (map_of (bpt_entries t) k, t') \<and> (params_ok p \<and> bpt_inv p t') \<and>
      bpt_entries t' = bmap_del k (bpt_entries t)" using bpt_delete_inv [of p t k] t by auto
  show "\<exists>t'. bpt_update p k f t = Some (k \<in> fst ` set (bpt_entries t), t') \<and> (params_ok p \<and> bpt_inv p t') \<and>
      bpt_entries t' = (case map_of (bpt_entries t) k of None \<Rightarrow> bpt_entries t | Some v \<Rightarrow> bmap_put k (f v) (bpt_entries t))"
    using bpt_update_inv [of p t k f] t by auto
qed

section \<open>Commands\<close>

datatype ('k, 'v) map_command =
    Put 'k 'v | Remove 'k | Modify 'k "'v \<Rightarrow> 'v" | Lookup 'k | Floor 'k | Scan "'k bound" "'k bound" | Compact | Clear

datatype ('k, 'v) map_answer = Val "'v option" | Done bool | Entry "('k \<times> 'v) option" | Items "('k \<times> 'v) list" | Loops

primrec bpt_step :: "btree_params \<Rightarrow> ('k::linorder, 'v) map_command \<Rightarrow> ('k, 'v) bptree \<Rightarrow> ('k, 'v) map_answer \<times> ('k, 'v) bptree" where
  "bpt_step p (Put k v) t = (let (r, t') = bpt_insert p k v t in (Val r, t'))"
| "bpt_step p (Remove k) t = (case bpt_delete p k t of None \<Rightarrow> (Loops, t) | Some (r, t') \<Rightarrow> (Val r, t'))"
| "bpt_step p (Modify k f) t = (case bpt_update p k f t of None \<Rightarrow> (Loops, t) | Some (r, t') \<Rightarrow> (Done r, t'))"
| "bpt_step p (Lookup k) t = (Val (bpt_get k t), t)"
| "bpt_step p (Floor k) t = (Entry (floor_entry k t), t)"
| "bpt_step p (Scan lo hi) t = (case range_scan lo hi t of None \<Rightarrow> (Loops, t) | Some es \<Rightarrow> (Items es, t))"
| "bpt_step p Compact t = (case compact p t of None \<Rightarrow> (Loops, t) | Some t' \<Rightarrow> (Done True, t'))"
| "bpt_step p Clear t = (Done True, bpt_clear p t)"

text \<open>The same commands on a sorted association list.\<close>

primrec map_step :: "('k::linorder, 'v) map_command \<Rightarrow> ('k \<times> 'v) list \<Rightarrow> ('k, 'v) map_answer \<times> ('k \<times> 'v) list" where
  "map_step (Put k v) m = (Val (map_of m k), bmap_put k v m)"
| "map_step (Remove k) m = (Val (map_of m k), bmap_del k m)"
| "map_step (Modify k f) m = (Done (k \<in> fst ` set m), case map_of m k of None \<Rightarrow> m | Some v \<Rightarrow> bmap_put k (f v) m)"
| "map_step (Lookup k) m = (Val (map_of m k), m)"
| "map_step (Floor k) m = (Entry (floor_spec k m), m)"
| "map_step (Scan lo hi) m = (Items (filter (\<lambda>e. in_range lo hi (fst e)) m), m)"
| "map_step Compact m = (Done True, m)"
| "map_step Clear m = (Done True, [])"

lemma compact_inv:
  assumes "params_ok p" and "bpt_inv p t"
  shows "\<exists>t'. compact p t = Some t' \<and> bpt_inv p t' \<and> bpt_entries t' = bpt_entries t"
  using rebuild_compact_inv [OF assms(1), of "bpt_entries t"] assms(2) by (auto simp: compact_def bpt_inv_def)

lemma bpt_step_refines:
  assumes "params_ok p" and "bpt_inv p t"
  shows "bpt_inv p (snd (bpt_step p c t)) \<and> fst (bpt_step p c t) = fst (map_step c (bpt_entries t)) \<and>
    bpt_entries (snd (bpt_step p c t)) = snd (map_step c (bpt_entries t))"
proof (cases c)
  case (Put k v)
  obtain r t' where "bpt_insert p k v t = (r, t')" by force
  then show ?thesis using bpt_insert_inv [OF assms] Put by simp
next
  case (Remove k)
  then show ?thesis using bpt_delete_inv [OF assms, of k] by auto
next
  case (Modify k f)
  then show ?thesis using bpt_update_inv [OF assms, of k f] by auto
next
  case (Scan lo hi)
  then show ?thesis using range_scan_spec [OF bpt_inv_searchable [OF assms]] assms by simp
next
  case Compact
  then show ?thesis using compact_inv [OF assms] by auto
qed (use assms in \<open>simp_all add: bpt_get_inv floor_entry_inv bpt_clear_def bpt_new_inv\<close>)

interpretation bpt: refined_machine "bpt_step p" "\<lambda>t. params_ok p \<and> bpt_inv p t" map_step bpt_entries
  for p :: btree_params
  by unfold_locales (use bpt_step_refines in blast)+

section \<open>Properties\<close>

text \<open>
  C1. The B+tree implements an ordered map: for capacities of at least one entry per leaf and three
  children per internal node, every sequence of insertions, deletions, updates, lookups, predecessor
  searches, range scans, compactions and resets gives the answers of a sorted association list, and
  the entries of the tree are that list.
\<close>

theorem bptree_refines_map:
  assumes "params_ok p"
  shows "fst (run_commands (bpt_step p) cs (bpt_new p)) = fst (run_commands map_step cs [])
    \<and> bpt_entries (snd (run_commands (bpt_step p) cs (bpt_new p))) = snd (run_commands map_step cs [])"
  using bpt.run_refines [of p "bpt_new p" cs] assms by (simp add: bpt_new_inv)

theorem bptree_refines_map_witness:
  "fst (run_commands (bpt_step \<lparr>max_leaf = 1, max_internal = 3, blake3 = id\<rparr>)
      [Put 2 ''b'', Put 1 ''a'', Put 3 ''c'', Remove 1, Floor 1, Scan (Included 2) Unbounded]
      (bpt_new \<lparr>max_leaf = 1, max_internal = 3, blake3 = id\<rparr>))
   = [Val None, Val None, Val None, Val (Some ''a''), Entry (None :: (nat \<times> string) option), Items [(2, ''b''), (3, ''c'')]]"
  using bptree_refines_map [of "\<lparr>max_leaf = 1, max_internal = 3, blake3 = id\<rparr>"
      "[Put 2 ''b'', Put 1 ''a'', Put 3 ''c'', Remove 1, Floor (1 :: nat), Scan (Included 2) Unbounded]"]
  by (simp add: params_ok_def bmap_del_def floor_spec_def last_option_def in_range_def)

text \<open>
  With room for two children only, an insertion splits three children into two and one, and a node with
  a single child does not pass the validation.
\<close>

lemma two_children_not_valid:
  "bpt_validate \<lparr>max_leaf = 2, max_internal = 2, blake3 = (\<lambda>_. [])\<rparr>
     (fold (\<lambda>k t. snd (bpt_insert \<lparr>max_leaf = 2, max_internal = 2, blake3 = (\<lambda>_. [])\<rparr> k ''v'' t)) [0, 1, 2, 3, 4 :: nat]
        (bpt_new \<lparr>max_leaf = 2, max_internal = 2, blake3 = (\<lambda>_. [])\<rparr>)) = Inl InternalTooFewChildren"
  by code_simp

text \<open>
  C3. For capacities of at least one entry per leaf and three children per internal node, the tree that
  any sequence of operations leaves behind passes the validation of the code: the fill of every node,
  the separators, the key order within nodes and the checksums of all nodes; its leaves are all at one
  depth, and its length field counts its entries. The bound on the children is needed: see
  \<open>two_children_not_valid\<close>.
\<close>

theorem bptree_always_valid:
  assumes "params_ok p" and "t = snd (run_commands (bpt_step p) cs (bpt_new p))"
  shows "bpt_validate p t = Inr () \<and> balanced (root t) \<and> tree_len t = length (bpt_entries t)"
  using bpt.run_inv [of p "bpt_new p" cs] assms by (simp add: bpt_new_inv bpt_inv_validate) (simp add: bpt_inv_def)

theorem bptree_always_valid_witness:
  "bpt_validate \<lparr>max_leaf = 1, max_internal = 3, blake3 = id\<rparr>
     (snd (run_commands (bpt_step \<lparr>max_leaf = 1, max_internal = 3, blake3 = id\<rparr>)
        [Put (2 :: nat) ''b'', Put 1 ''a'', Remove 2] (bpt_new \<lparr>max_leaf = 1, max_internal = 3, blake3 = id\<rparr>))) = Inr ()"
  using bptree_always_valid [of "\<lparr>max_leaf = 1, max_internal = 3, blake3 = id\<rparr>" _
      "[Put (2 :: nat) ''b'', Put 1 ''a'', Remove 2]", OF _ refl]
  by (simp add: params_ok_def)

end
