(* ===== verification/Bptree_Lazy.thy ===== *)
theory Bptree_Lazy
  imports Bptree_Map
begin

text \<open>
  Trees that are searchable although their nodes may be underfull: what the plain construction and
  the lazy deletion leave behind, and the answers of the queries on them.
\<close>

section \<open>Queries on searchable trees\<close>

lemma searchable_node:
  assumes "searchable t"
  obtains c where "shape (root t) \<or> root t = Leaf [] c" "bmap (collect_all (root t))"
  using assms by (auto simp: searchable_def bpt_entries_def)

lemma searchable_get: "searchable t \<Longrightarrow> bpt_get k t = map_of (bpt_entries t) k"
  by (erule searchable_node) (simp add: bpt_get_def bpt_entries_def get_in_node_map_of)

lemma searchable_range: "searchable t \<Longrightarrow> bpt_range lo hi t = filter (\<lambda>e. in_range lo hi (fst e)) (bpt_entries t)"
  by (erule searchable_node, unfold bpt_range_def Let_def, subst collect_range_spec, assumption+)
    (auto simp: bpt_entries_def opt_range_def in_range_def split_beta intro!: filter_cong split: bound.split)

lemma searchable_from_to:
  "searchable t \<Longrightarrow> range_from_to a b t = filter (\<lambda>e. a \<le> fst e \<and> fst e < b) (bpt_entries t)"
  by (erule searchable_node, unfold range_from_to_def, subst collect_range_spec, assumption+)
    (auto simp: bpt_entries_def opt_range_def intro!: filter_cong filter_False [symmetric])

section \<open>The plain construction\<close>

lemma shape_join_nodes: "g \<noteq> [] \<Longrightarrow> \<forall>c \<in> set g. shape c \<Longrightarrow> shape (join_nodes p g)"
  by (auto simp: join_nodes_def mk_internal_def list_all_iff)

lemma chunk_level_shapes: "2 \<le> max_internal p \<Longrightarrow> level_keeps (chunk_level p) (\<lambda>cs. \<forall>c \<in> set cs. shape c)"
  unfolding level_keeps_def
proof (intro allI impI)
  fix cs :: "('k, 'v) btree_node list"
  assume p: "2 \<le> max_internal p" and cs: "(\<forall>c \<in> set cs. shape c) \<and> 1 < length cs"
  have "concat (chunks (max_internal p) cs) = cs" using p by simp
  then have "\<forall>g \<in> set (chunks (max_internal p) cs). set g \<subseteq> set cs" by (metis set_concat UN_upper set_map)
  then have "\<forall>c \<in> set (chunk_level p cs). shape c"
    using cs chunks_sizes [of "max_internal p"] p
    by (auto simp: chunk_level_def subset_iff intro!: shape_join_nodes)
  then show "(\<forall>c \<in> set (chunk_level p cs). shape c) \<and> chunk_level p cs \<noteq> [] \<and> length (chunk_level p cs) < length cs \<and>
      concat (map collect_all (chunk_level p cs)) = concat (map collect_all cs)"
    using chunk_level_keeps [OF p] cs unfolding level_keeps_def by blast
qed

lemma rebuild_searchable:
  assumes "1 \<le> max_leaf p" and "2 \<le> max_internal p" and "bmap es"
  shows "\<exists>t. rebuild p es = Some t \<and> searchable t \<and> bpt_entries t = es"
proof (cases "es = []")
  case True
  then show ?thesis by (auto simp: rebuild_def bpt_new_def searchable_def bpt_entries_def)
next
  case False
  let ?leaves = "map (mk_leaf p) (chunks (max_leaf p) es)"
  have pos: "0 < max_leaf p" using assms(1) by simp
  have "\<forall>c \<in> set ?leaves. shape c" using chunks_sizes [OF pos, of _ es] by (auto simp: mk_leaf_def)
  moreover have "?leaves \<noteq> []" "concat (map collect_all ?leaves) = es" using pos False by (simp_all add: o_def)
  ultimately obtain n where "build_up (chunk_level p) ?leaves = Some n" "shape n" "collect_all n = es"
    using build_up_ends [OF chunk_level_shapes [OF assms(2)], of ?leaves] by auto
  then show ?thesis using False assms(3) by (simp add: rebuild_def searchable_def bpt_entries_def)
qed

section \<open>Property\<close>

text \<open>
  C11. Lazy deletion on a searchable tree ends, returns the value of the key, removes exactly that
  entry and leaves a searchable tree, whatever the fill of its nodes; on that tree lookups, range
  queries and the lazy range iterator all answer from the remaining entries.
\<close>

theorem delete_lazy_correct:
  assumes "1 \<le> max_leaf p" and "2 \<le> max_internal p" and "searchable t"
  shows "\<exists>underfull t'. delete_lazy p k t = Some (map_of (bpt_entries t) k, underfull, t')
    \<and> searchable t' \<and> bpt_entries t' = bmap_del k (bpt_entries t)
    \<and> (\<forall>j. bpt_get j t' = (if j = k then None else bpt_get j t))
    \<and> (\<forall>lo hi. range_scan lo hi t' = Some (bpt_range lo hi t')
         \<and> bpt_range lo hi t' = filter (\<lambda>e. fst e \<noteq> k \<and> in_range lo hi (fst e)) (bpt_entries t))"
proof -
  have srt: "bmap (bpt_entries t)" using assms(3) by (simp add: searchable_def)
  have "\<exists>underfull t'. delete_lazy p k t = Some (map_of (bpt_entries t) k, underfull, t')
    \<and> searchable t' \<and> bpt_entries t' = bmap_del k (bpt_entries t)"
    using binary_search_remove [OF srt, of k] rebuild_searchable [OF assms(1,2) bmap_bmap_del [OF srt, of k]] assms(3)
    by (auto simp: delete_lazy_def Let_def split: sum.splits)
  then obtain underfull t' where t': "delete_lazy p k t = Some (map_of (bpt_entries t) k, underfull, t')"
    "searchable t'" "bpt_entries t' = bmap_del k (bpt_entries t)" by blast
  have "bpt_get j t' = (if j = k then None else bpt_get j t)" for j
    using t'(2,3) assms(3) by (simp add: searchable_get map_of_bmap_del)
  moreover have "range_scan lo hi t' = Some (bpt_range lo hi t')
    \<and> bpt_range lo hi t' = filter (\<lambda>e. fst e \<noteq> k \<and> in_range lo hi (fst e)) (bpt_entries t)" for lo hi
    using range_scan_spec [OF t'(2), of lo hi] searchable_range [OF t'(2), of lo hi] t'(3) by (simp add: bmap_del_def conj_commute)
  ultimately show ?thesis using t' by blast
qed

theorem delete_lazy_correct_witness:
  "\<exists>underfull t'. delete_lazy \<lparr>max_leaf = 1, max_internal = 2, blake3 = id\<rparr> 1
      \<lparr>root = Leaf [(1 :: nat, ''a''), (4, ''b'')] [], tree_len = 2\<rparr> = Some (Some ''a'', underfull, t')
    \<and> range_scan Unbounded (Excluded 5) t' = Some [(4, ''b'')]"
  using delete_lazy_correct [of "\<lparr>max_leaf = 1, max_internal = 2, blake3 = id\<rparr>"
      "\<lparr>root = Leaf [(1 :: nat, ''a''), (4, ''b'')] [], tree_len = 2\<rparr>" 1]
  by (force simp: searchable_def bpt_entries_def in_range_def)

end
