(* ===== verification/Dir_Types.thy ===== *)
theory Dir_Types
  imports Bptree "HOL-Library.List_Lexorder"
begin

text \<open>
  The types of the directory index: entries of the two representations, the policy that switches
  between them, the readdir cookies, the version evidence in them and the prefetch window. Names are
  byte lists in lexicographic order. Counters, inode numbers and cookies are 64-bit words; the
  reserved bytes of the structures, always zero, and the page authority of the tree state, always that
  of a runtime-only root, are left out.
\<close>

unbundle bit_operations_syntax

section \<open>Entries and representations\<close>

record dir_micro_entry =
  name_len :: "32 word"
  inode_id :: "64 word"
  entry_generation :: "64 word"
  entry_kind :: "32 word"
  entry_name :: "byte list"

record dir_btree_leaf_entry =
  leaf_hash :: "64 word"
  leaf_name_len :: "16 word"
  leaf_inode_id :: "64 word"
  leaf_generation :: "64 word"
  leaf_kind :: "32 word"
  leaf_flags :: byte
  leaf_name :: "byte list"

record dir_micro_list =
  ml_inode_id :: "64 word"
  ml_version :: "64 word"
  ml_entry_count :: "64 word"
  ml_total_name_bytes :: "64 word"
  ml_flags :: byte
  ml_entries :: "dir_micro_entry list"

record dir_btree_state =
  bs_inode_id :: "64 word"
  bs_version :: "64 word"
  bs_entry_count :: "64 word"
  bs_total_name_bytes :: "64 word"
  bs_depth :: byte
  bs_flags :: byte

definition btree_state_new :: "64 word \<Rightarrow> 64 word \<Rightarrow> dir_btree_state" where
  "btree_state_new ino ver =
     \<lparr>bs_inode_id = ino, bs_version = ver, bs_entry_count = 0, bs_total_name_bytes = 0, bs_depth = 0, bs_flags = 0\<rparr>"

datatype dir_storage = MicroList dir_micro_list | BTree dir_btree_state

definition storage_kind :: "dir_storage \<Rightarrow> byte" where
  "storage_kind s = (case s of MicroList _ \<Rightarrow> 0 | BTree _ \<Rightarrow> 1)"

definition storage_entry_count :: "dir_storage \<Rightarrow> 64 word" where
  "storage_entry_count s = (case s of MicroList l \<Rightarrow> ml_entry_count l | BTree r \<Rightarrow> bs_entry_count r)"

definition storage_total_name_bytes :: "dir_storage \<Rightarrow> 64 word" where
  "storage_total_name_bytes s = (case s of MicroList l \<Rightarrow> ml_total_name_bytes l | BTree r \<Rightarrow> bs_total_name_bytes r)"

definition flags_has_subdirs :: "byte \<Rightarrow> bool" where
  "flags_has_subdirs f \<longleftrightarrow> f AND 1 \<noteq> 0"

definition flags_set_has_subdirs :: "bool \<Rightarrow> byte \<Rightarrow> byte" where
  "flags_set_has_subdirs v f = (if v then f OR 1 else f AND NOT 1)"

section \<open>Policy\<close>

record dataset_dir_policy =
  dir_micro_max_entries :: nat
  dir_micro_max_name_bytes :: nat
  dir_btree_downshift_entries :: nat
  dir_btree_downshift_name_bytes :: nat

definition default_dir_policy :: dataset_dir_policy where
  "default_dir_policy = \<lparr>dir_micro_max_entries = 50, dir_micro_max_name_bytes = 2048,
     dir_btree_downshift_entries = 20, dir_btree_downshift_name_bytes = 1024\<rparr>"

definition should_use_btree :: "dataset_dir_policy \<Rightarrow> 64 word \<Rightarrow> 64 word \<Rightarrow> bool" where
  "should_use_btree p cnt name_bytes \<longleftrightarrow>
     unat cnt > dir_micro_max_entries p \<or> unat name_bytes > dir_micro_max_name_bytes p"

definition should_use_micro_from_btree :: "dataset_dir_policy \<Rightarrow> 64 word \<Rightarrow> 64 word \<Rightarrow> bool" where
  "should_use_micro_from_btree p cnt name_bytes \<longleftrightarrow>
     unat cnt \<le> dir_btree_downshift_entries p \<and> unat name_bytes \<le> dir_btree_downshift_name_bytes p"

section \<open>Cookies\<close>

type_synonym dir_cookie = "64 word"

definition payload_mask :: "64 word" where
  "payload_mask = push_bit 63 1 - 1"

definition encode_micro :: "32 word \<Rightarrow> dir_cookie" where
  "encode_micro entry_index = ucast entry_index AND payload_mask"

definition encode_btree :: "16 word \<Rightarrow> 16 word \<Rightarrow> dir_cookie" where
  "encode_btree page_index entry_index =
     push_bit 63 1 OR ((push_bit 16 (ucast page_index) OR ucast entry_index) AND payload_mask)"

definition cookie_kind :: "dir_cookie \<Rightarrow> byte" where
  "cookie_kind c = ucast (drop_bit 63 c AND 1)"

definition cookie_payload :: "dir_cookie \<Rightarrow> 64 word" where
  "cookie_payload c = c AND payload_mask"

definition cookie_is_micro :: "dir_cookie \<Rightarrow> bool" where
  "cookie_is_micro c \<longleftrightarrow> cookie_kind c = 0"

definition cookie_is_btree :: "dir_cookie \<Rightarrow> bool" where
  "cookie_is_btree c \<longleftrightarrow> cookie_kind c = 1"

definition as_micro_entry_index :: "dir_cookie \<Rightarrow> 32 word option" where
  "as_micro_entry_index c = (if cookie_is_micro c then Some (ucast (cookie_payload c)) else None)"

definition as_btree_indices :: "dir_cookie \<Rightarrow> (16 word \<times> 16 word) option" where
  "as_btree_indices c =
     (if cookie_is_btree c
      then let p = cookie_payload c in Some (ucast (drop_bit 16 p), ucast (p AND 0xFFFF))
      else None)"

definition cookie_from_index :: "nat \<Rightarrow> bool \<Rightarrow> dir_cookie" where
  "cookie_from_index index is_btree =
     (if is_btree then encode_btree (word_of_nat (index div 128)) (word_of_nat (index mod 128))
      else encode_micro (word_of_nat index))"

definition index_from_cookie :: "dir_cookie \<Rightarrow> nat \<Rightarrow> nat" where
  "index_from_cookie c len =
     (if c = 0 then 0
      else if cookie_is_micro c
      then min (case as_micro_entry_index c of None \<Rightarrow> 0 | Some i \<Rightarrow> unat i) len
      else case as_btree_indices c of
             Some (page, entry) \<Rightarrow> min (unat page * 128 + unat entry) len
           | None \<Rightarrow> min (unat (cookie_payload c)) len)"

text \<open>Cookies that carry the low 14 bits of the directory version.\<close>

definition dir_cookie_versioned_mask :: "64 word" where
  "dir_cookie_versioned_mask = push_bit 62 1"

definition dir_cookie_version_tag_mask :: "64 word" where
  "dir_cookie_version_tag_mask = push_bit 48 (push_bit 14 1 - 1)"

definition dir_cookie_position_mask :: "64 word" where
  "dir_cookie_position_mask = push_bit 48 1 - 1"

definition dir_cookie_version_tag :: "64 word \<Rightarrow> 64 word" where
  "dir_cookie_version_tag ver = ver AND (push_bit 14 1 - 1)"

definition dir_cookie_decode_version :: "64 word \<Rightarrow> 64 word option" where
  "dir_cookie_decode_version c =
     (if c AND dir_cookie_versioned_mask = 0 then None
      else Some (drop_bit 48 (c AND dir_cookie_version_tag_mask)))"

definition dir_cookie_encode_versioned :: "64 word \<Rightarrow> 64 word \<Rightarrow> 64 word" where
  "dir_cookie_encode_versioned skip ver =
     dir_cookie_versioned_mask OR push_bit 48 (dir_cookie_version_tag ver) OR (skip AND dir_cookie_position_mask)"

definition dir_cookie_skip :: "64 word \<Rightarrow> nat" where
  "dir_cookie_skip c = unat (c AND dir_cookie_position_mask)"

definition dir_cookie_resume_skip :: "64 word \<Rightarrow> 64 word \<Rightarrow> nat option" where
  "dir_cookie_resume_skip c ver =
     (if c = 0 then Some 0
      else case dir_cookie_decode_version c of
             None \<Rightarrow> None
           | Some v \<Rightarrow> if v = dir_cookie_version_tag ver then Some (dir_cookie_skip c) else None)"

section \<open>Prefetch window\<close>

record dir_prefetch_window =
  pf_window_size :: nat
  pf_cursor :: nat
  pf_total_entries :: nat
  pf_triggered :: bool
  pf_exhausted :: bool

definition pf_new :: dir_prefetch_window where
  "pf_new = \<lparr>pf_window_size = 64, pf_cursor = 0, pf_total_entries = 0, pf_triggered = False, pf_exhausted = False\<rparr>"

definition pf_with_window_size :: "nat \<Rightarrow> dir_prefetch_window" where
  "pf_with_window_size n =
     \<lparr>pf_window_size = max n 1, pf_cursor = 0, pf_total_entries = 0, pf_triggered = False, pf_exhausted = False\<rparr>"

definition pf_set_total_entries :: "nat \<Rightarrow> dir_prefetch_window \<Rightarrow> dir_prefetch_window" where
  "pf_set_total_entries n w =
     w\<lparr>pf_total_entries := n, pf_cursor := 0, pf_triggered := False, pf_exhausted := (n = 0)\<rparr>"

definition pf_window_start :: "dir_prefetch_window \<Rightarrow> nat" where
  "pf_window_start w =
     (if pf_total_entries w = 0 then 0 else (pf_cursor w div pf_window_size w) * pf_window_size w)"

definition pf_window_end :: "dir_prefetch_window \<Rightarrow> nat" where
  "pf_window_end w = min (pf_window_start w + pf_window_size w) (pf_total_entries w)"

definition pf_is_in_last_window :: "dir_prefetch_window \<Rightarrow> bool" where
  "pf_is_in_last_window w \<longleftrightarrow> pf_total_entries w = 0 \<or> pf_window_end w \<ge> pf_total_entries w"

definition pf_advance :: "dir_prefetch_window \<Rightarrow> bool \<times> dir_prefetch_window" where
  "pf_advance w =
     (if pf_exhausted w \<or> pf_cursor w \<ge> pf_total_entries w then (False, w\<lparr>pf_exhausted := True\<rparr>)
      else
        let w1 = w\<lparr>pf_cursor := pf_cursor w + 1\<rparr>;
            w2 = (if pf_cursor w1 \<ge> pf_total_entries w1 then w1\<lparr>pf_exhausted := True\<rparr> else w1);
            w3 = (if pf_window_start w2 \<noteq> pf_window_start w then w2\<lparr>pf_triggered := False\<rparr> else w2)
        in (True, w3))"

definition pf_should_prefetch :: "dir_prefetch_window \<Rightarrow> bool" where
  "pf_should_prefetch w \<longleftrightarrow>
     \<not> (pf_triggered w \<or> pf_exhausted w) \<and> \<not> pf_total_entries w \<le> pf_window_size w \<and>
     pf_cursor w - pf_window_start w \<ge> pf_window_size w * 3 div 4 \<and> \<not> pf_is_in_last_window w"

definition pf_acknowledged :: "dir_prefetch_window \<Rightarrow> dir_prefetch_window" where
  "pf_acknowledged w = w\<lparr>pf_triggered := True\<rparr>"

definition pf_reset :: "dir_prefetch_window \<Rightarrow> dir_prefetch_window" where
  "pf_reset w = w\<lparr>pf_cursor := 0, pf_triggered := False, pf_exhausted := (pf_total_entries w = 0)\<rparr>"

definition pf_seek_to :: "nat \<Rightarrow> dir_prefetch_window \<Rightarrow> dir_prefetch_window" where
  "pf_seek_to position w =
     (if position \<ge> pf_total_entries w
      then w\<lparr>pf_cursor := pf_total_entries w, pf_exhausted := True, pf_triggered := False\<rparr>
      else w\<lparr>pf_cursor := position, pf_exhausted := False, pf_triggered := False\<rparr>)"

definition pf_next_window_range :: "dir_prefetch_window \<Rightarrow> (nat \<times> nat) option" where
  "pf_next_window_range w =
     (if pf_is_in_last_window w then None
      else Some (pf_window_end w, min (pf_window_end w + pf_window_size w) (pf_total_entries w)))"

end
