(* ===== verification/Dir_Index.thy ===== *)
theory Dir_Index
  imports Dir_Types
begin

text \<open>
  The polymorphic directory index: a micro-list of entries in insertion order, or a B+tree from name
  hashes to buckets together with a map from names, and the operations of the directory on either.
  The hash of the tree nodes is a parameter. Both node capacities are 128, so that the operations of
  the tree end; the trees exist whenever the storage is the tree representation, where the code
  expects them.
\<close>

section \<open>The index\<close>

definition fnv_offset :: "64 word" where
  "fnv_offset = 0xcbf29ce484222325"

definition fnv_prime :: "64 word" where
  "fnv_prime = 0x100000001b3"

definition name_hash :: "byte list \<Rightarrow> 64 word" where
  "name_hash nm = fold (\<lambda>b h. (h XOR ucast b) * fnv_prime) nm fnv_offset"

definition dir_entry_from_btree_leaf :: "dir_btree_leaf_entry \<Rightarrow> dir_micro_entry" where
  "dir_entry_from_btree_leaf e =
     \<lparr>name_len = ucast (leaf_name_len e), inode_id = leaf_inode_id e, entry_generation = leaf_generation e,
      entry_kind = leaf_kind e, entry_name = leaf_name e\<rparr>"

datatype dir_index_error = EntryAlreadyExists | EntryNotFound | DirNotEmpty | StaleCursor

datatype swap_mode = SwapRename | SwapNoReplace | SwapExchange

type_synonym dir_hash_tree = "(64 word, dir_btree_leaf_entry list) bptree"
type_synonym dir_name_tree = "(byte list \<times> dir_btree_leaf_entry) list"

definition dir_tree_params :: "(byte list \<Rightarrow> byte list) \<Rightarrow> btree_params" where
  "dir_tree_params h = \<lparr>max_leaf = 128, max_internal = 128, blake3 = h\<rparr>"

record dir_index =
  storage :: dir_storage
  dir_policy :: dataset_dir_policy
  btree :: "dir_hash_tree option"
  name_btree :: "dir_name_tree option"
  directory_inode_id :: "64 word"
  directory_version :: "64 word"
  dir_cursor :: nat
  prefetch_window :: dir_prefetch_window
  dirty :: bool

definition dir_new :: "64 word \<Rightarrow> dataset_dir_policy \<Rightarrow> dir_index" where
  "dir_new ino pol =
     \<lparr>storage = MicroList \<lparr>ml_inode_id = ino, ml_version = 0, ml_entry_count = 0, ml_total_name_bytes = 0,
        ml_flags = 0, ml_entries = []\<rparr>,
      dir_policy = pol, btree = None, name_btree = None, directory_inode_id = ino, directory_version = 0,
      dir_cursor = 0, prefetch_window = pf_new, dirty = True\<rparr>"

definition dir_len :: "dir_index \<Rightarrow> nat" where
  "dir_len d = unat (storage_entry_count (storage d))"

definition dir_lookup :: "byte list \<Rightarrow> dir_index \<Rightarrow> dir_micro_entry option" where
  "dir_lookup nm d =
     (case storage d of
        MicroList l \<Rightarrow> find (\<lambda>e. entry_name e = nm) (ml_entries l)
      | BTree _ \<Rightarrow>
          (case bpt_get (name_hash nm) (the (btree d)) of
             None \<Rightarrow> None
           | Some bucket \<Rightarrow> map_option dir_entry_from_btree_leaf (find (\<lambda>e. leaf_name e = nm) bucket)))"

definition dir_contains :: "byte list \<Rightarrow> dir_index \<Rightarrow> bool" where
  "dir_contains nm d \<longleftrightarrow> dir_lookup nm d \<noteq> None"

section \<open>Insertion and deletion in a representation\<close>

definition bucket_push ::
    "(byte list \<Rightarrow> byte list) \<Rightarrow> 64 word \<Rightarrow> dir_btree_leaf_entry \<Rightarrow> dir_hash_tree \<Rightarrow> dir_hash_tree" where
  "bucket_push h hash leaf tree =
     (if contains_key hash tree
      then snd (the (bpt_update (dir_tree_params h) hash (\<lambda>bucket. bucket @ [leaf]) tree))
      else snd (bpt_insert (dir_tree_params h) hash [leaf] tree))"

definition insert_inner ::
    "(byte list \<Rightarrow> byte list) \<Rightarrow> byte list \<Rightarrow> 64 word \<Rightarrow> 64 word \<Rightarrow> 32 word \<Rightarrow> dir_index \<Rightarrow> dir_index" where
  "insert_inner h nm ino gen knd d =
     (case storage d of
        MicroList l \<Rightarrow>
          d\<lparr>storage := MicroList (l\<lparr>ml_entry_count := ml_entry_count l + 1,
              ml_total_name_bytes := ml_total_name_bytes l + word_of_nat (length nm),
              ml_entries := ml_entries l @
                [\<lparr>name_len = word_of_nat (length nm), inode_id = ino, entry_generation = gen, entry_kind = knd,
                  entry_name = nm\<rparr>]\<rparr>)\<rparr>
      | BTree r \<Rightarrow>
          let hash = name_hash nm;
              leaf = \<lparr>leaf_hash = hash, leaf_name_len = word_of_nat (length nm), leaf_inode_id = ino,
                leaf_generation = gen, leaf_kind = knd, leaf_flags = 0, leaf_name = nm\<rparr>
          in d\<lparr>btree := Some (bucket_push h hash leaf (the (btree d))),
               name_btree := Some (bmap_put nm leaf (the (name_btree d))),
               storage := BTree (r\<lparr>bs_entry_count := bs_entry_count r + 1,
                 bs_total_name_bytes := bs_total_name_bytes r + word_of_nat (length nm)\<rparr>)\<rparr>)"

definition position :: "('a \<Rightarrow> bool) \<Rightarrow> 'a list \<Rightarrow> nat option" where
  "position P xs = (if \<exists>x \<in> set xs. P x then Some (partition_point (\<lambda>x. \<not> P x) xs) else None)"

definition delete_inner :: "(byte list \<Rightarrow> byte list) \<Rightarrow> byte list \<Rightarrow> dir_index \<Rightarrow> dir_index" where
  "delete_inner h nm d =
     (case storage d of
        MicroList l \<Rightarrow>
          (case position (\<lambda>e. entry_name e = nm) (ml_entries l) of
             None \<Rightarrow> d
           | Some pos \<Rightarrow>
               d\<lparr>storage := MicroList (l\<lparr>
                   ml_total_name_bytes := ml_total_name_bytes l - word_of_nat (length (entry_name (ml_entries l ! pos))),
                   ml_entries := remove_at pos (ml_entries l),
                   ml_entry_count := ml_entry_count l - 1\<rparr>)\<rparr>)
      | BTree r \<Rightarrow>
          let tree = the (btree d); hash = name_hash nm
          in case bpt_get hash tree of
               None \<Rightarrow> d
             | Some bucket \<Rightarrow>
                 let bucket' = filter (\<lambda>e. leaf_name e \<noteq> nm) bucket;
                     tree' = (if bucket' = [] then snd (the (bpt_delete (dir_tree_params h) hash tree))
                              else snd (bpt_insert (dir_tree_params h) hash bucket' tree))
                 in d\<lparr>btree := Some tree',
                      name_btree := map_option (bmap_del nm) (name_btree d),
                      storage := BTree (r\<lparr>bs_entry_count := bs_entry_count r - 1,
                        bs_total_name_bytes := bs_total_name_bytes r - word_of_nat (length nm)\<rparr>)\<rparr>)"

section \<open>Switching the representation\<close>

definition leaf_of_micro :: "dir_micro_entry \<Rightarrow> dir_btree_leaf_entry" where
  "leaf_of_micro e =
     \<lparr>leaf_hash = name_hash (entry_name e),
      leaf_name_len = (if unat (name_len e) < 2 ^ 16 then ucast (name_len e) else -1),
      leaf_inode_id = inode_id e, leaf_generation = entry_generation e, leaf_kind = entry_kind e,
      leaf_flags = 0, leaf_name = entry_name e\<rparr>"

fun promote_loop ::
    "(byte list \<Rightarrow> byte list) \<Rightarrow> dir_micro_entry list \<Rightarrow> dir_hash_tree \<Rightarrow> dir_name_tree \<Rightarrow> 64 word \<Rightarrow> 64 word \<Rightarrow>
     dir_hash_tree \<times> dir_name_tree \<times> 64 word \<times> 64 word" where
  "promote_loop h [] tree nt cnt nbytes = (tree, nt, cnt, nbytes)"
| "promote_loop h (e # es) tree nt cnt nbytes =
     promote_loop h es (bucket_push h (name_hash (entry_name e)) (leaf_of_micro e) tree)
       (bmap_put (entry_name e) (leaf_of_micro e) nt) (cnt + 1) (nbytes + word_of_nat (length (entry_name e)))"

definition promote_to_btree :: "(byte list \<Rightarrow> byte list) \<Rightarrow> dir_index \<Rightarrow> dir_index" where
  "promote_to_btree h d =
     (case storage d of
        BTree _ \<Rightarrow> d
      | MicroList l \<Rightarrow>
          let (tree, nt, cnt, nbytes) = promote_loop h (ml_entries l) (bpt_new (dir_tree_params h)) [] 0 0
          in d\<lparr>storage := BTree ((btree_state_new (directory_inode_id d) (directory_version d))\<lparr>
                 bs_entry_count := cnt, bs_total_name_bytes := nbytes,
                 bs_depth := word_of_nat (tree_depth tree), bs_flags := ml_flags l AND 1\<rparr>),
               btree := Some tree, name_btree := Some nt\<rparr>)"

definition demote_to_micro :: "dir_index \<Rightarrow> dir_index" where
  "demote_to_micro d =
     (case btree d of
        None \<Rightarrow> d
      | Some tree \<Rightarrow>
          let entries = map dir_entry_from_btree_leaf (concat (map snd (bpt_entries tree)));
              has_subdirs = (case storage d of BTree r \<Rightarrow> flags_has_subdirs (bs_flags r) | MicroList _ \<Rightarrow> False)
          in d\<lparr>storage := MicroList \<lparr>ml_inode_id = directory_inode_id d, ml_version = directory_version d,
                 ml_entry_count = fold (\<lambda>e cnt. cnt + 1) entries 0,
                 ml_total_name_bytes = fold (\<lambda>e n. n + word_of_nat (length (entry_name e))) entries 0,
                 ml_flags = (if has_subdirs then 1 else 0), ml_entries = entries\<rparr>,
               btree := None, name_btree := None\<rparr>)"

definition check_and_switch :: "(byte list \<Rightarrow> byte list) \<Rightarrow> dir_index \<Rightarrow> dir_index" where
  "check_and_switch h d =
     (let cnt = storage_entry_count (storage d); nbytes = storage_total_name_bytes (storage d)
      in case storage d of
           MicroList _ \<Rightarrow> if should_use_btree (dir_policy d) cnt nbytes then promote_to_btree h d else d
         | BTree _ \<Rightarrow> if should_use_micro_from_btree (dir_policy d) cnt nbytes then demote_to_micro d else d)"

section \<open>Operations of a directory\<close>

text \<open>The version is increased and the index marked dirty after every change.\<close>

definition bump :: "dir_index \<Rightarrow> dir_index" where
  "bump d = d\<lparr>directory_version := directory_version d + 1, dirty := True\<rparr>"

definition dir_insert ::
    "(byte list \<Rightarrow> byte list) \<Rightarrow> byte list \<Rightarrow> 64 word \<Rightarrow> 64 word \<Rightarrow> 32 word \<Rightarrow> dir_index \<Rightarrow>
     (dir_index_error + unit) \<times> dir_index" where
  "dir_insert h nm ino gen knd d =
     (if dir_contains nm d then (Inl EntryAlreadyExists, d)
      else (Inr (), check_and_switch h (bump (insert_inner h nm ino gen knd d))))"

definition dir_rename ::
    "(byte list \<Rightarrow> byte list) \<Rightarrow> byte list \<Rightarrow> byte list \<Rightarrow> dir_index \<Rightarrow> (dir_index_error + unit) \<times> dir_index" where
  "dir_rename h old_name new_name d =
     (case dir_lookup old_name d of
        None \<Rightarrow> (Inl EntryNotFound, d)
      | Some e \<Rightarrow>
          if old_name = new_name then (Inr (), d)
          else if dir_contains new_name d then (Inl EntryAlreadyExists, d)
          else (Inr (), check_and_switch h (bump
                 (insert_inner h new_name (inode_id e) (entry_generation e) (entry_kind e) (delete_inner h old_name d)))))"

definition rename_overwrite ::
    "(byte list \<Rightarrow> byte list) \<Rightarrow> byte list \<Rightarrow> byte list \<Rightarrow> dir_index \<Rightarrow>
     (dir_index_error + dir_micro_entry option) \<times> dir_index" where
  "rename_overwrite h old_name new_name d =
     (case dir_lookup old_name d of
        None \<Rightarrow> (Inl EntryNotFound, d)
      | Some e \<Rightarrow>
          if old_name = new_name then (Inr None, d)
          else
            let overwritten = dir_lookup new_name d;
                d1 = (if overwritten \<noteq> None then delete_inner h new_name d else d);
                d2 = insert_inner h new_name (inode_id e) (entry_generation e) (entry_kind e) (delete_inner h old_name d1)
            in (Inr overwritten, check_and_switch h (bump d2)))"

definition move_entry_to ::
    "(byte list \<Rightarrow> byte list) \<Rightarrow> byte list \<Rightarrow> byte list \<Rightarrow> dir_index \<Rightarrow> dir_index \<Rightarrow>
     (dir_index_error + dir_micro_entry option) \<times> dir_index \<times> dir_index" where
  "move_entry_to h src_name dst_name src dst =
     (case dir_lookup src_name src of
        None \<Rightarrow> (Inl EntryNotFound, src, dst)
      | Some e \<Rightarrow>
          let overwritten = dir_lookup dst_name dst;
              dst1 = (if overwritten \<noteq> None then delete_inner h dst_name dst else dst);
              src1 = delete_inner h src_name src;
              dst2 = insert_inner h dst_name (inode_id e) (entry_generation e) (entry_kind e) dst1
          in (Inr overwritten, check_and_switch h (bump src1), check_and_switch h (bump dst2)))"

definition atomic_swap ::
    "(byte list \<Rightarrow> byte list) \<Rightarrow> byte list \<Rightarrow> byte list \<Rightarrow> swap_mode \<Rightarrow> dir_index \<Rightarrow> dir_index \<Rightarrow>
     (dir_index_error + dir_micro_entry option) \<times> dir_index \<times> dir_index" where
  "atomic_swap h src_name dst_name mode src dst =
     (case mode of
        SwapExchange \<Rightarrow>
          (case dir_lookup src_name src of
             None \<Rightarrow> (Inl EntryNotFound, src, dst)
           | Some s \<Rightarrow>
               (case dir_lookup dst_name dst of
                  None \<Rightarrow> (Inl EntryNotFound, src, dst)
                | Some t \<Rightarrow>
                    (Inr None,
                     check_and_switch h (bump
                       (insert_inner h src_name (inode_id t) (entry_generation t) (entry_kind t) (delete_inner h src_name src))),
                     check_and_switch h (bump
                       (insert_inner h dst_name (inode_id s) (entry_generation s) (entry_kind s) (delete_inner h dst_name dst))))))
      | SwapNoReplace \<Rightarrow>
          if dir_contains dst_name dst then (Inl EntryAlreadyExists, src, dst)
          else (case dir_lookup src_name src of
                  None \<Rightarrow> (Inl EntryNotFound, src, dst)
                | Some e \<Rightarrow>
                    (Inr None, check_and_switch h (bump (delete_inner h src_name src)),
                     check_and_switch h (bump
                       (insert_inner h dst_name (inode_id e) (entry_generation e) (entry_kind e) dst))))
      | SwapRename \<Rightarrow> move_entry_to h src_name dst_name src dst)"

definition dir_replace ::
    "(byte list \<Rightarrow> byte list) \<Rightarrow> byte list \<Rightarrow> 64 word \<Rightarrow> 64 word \<Rightarrow> 32 word \<Rightarrow> dir_index \<Rightarrow> dir_index" where
  "dir_replace h nm ino gen knd d =
     check_and_switch h (bump (insert_inner h nm ino gen knd (delete_inner h nm d)))"

definition dir_remove ::
    "(byte list \<Rightarrow> byte list) \<Rightarrow> byte list \<Rightarrow> dir_index \<Rightarrow> dir_micro_entry option \<times> dir_index" where
  "dir_remove h nm d =
     (case dir_lookup nm d of
        None \<Rightarrow> (None, d)
      | Some e \<Rightarrow> (Some e, check_and_switch h (bump (delete_inner h nm d))))"

definition dir_delete ::
    "(byte list \<Rightarrow> byte list) \<Rightarrow> byte list \<Rightarrow> dir_index \<Rightarrow> (dir_index_error + unit) \<times> dir_index" where
  "dir_delete h nm d =
     (let (r, d') = dir_remove h nm d in (case r of None \<Rightarrow> Inl EntryNotFound | Some _ \<Rightarrow> Inr (), d'))"

section \<open>Listing\<close>

definition unsorted_entries :: "dir_index \<Rightarrow> dir_micro_entry list" where
  "unsorted_entries d =
     (case storage d of
        MicroList l \<Rightarrow> ml_entries l
      | BTree _ \<Rightarrow> map dir_entry_from_btree_leaf (concat (map snd (bpt_entries (the (btree d))))))"

definition btree_entries_from_sorted_index :: "nat \<Rightarrow> nat \<Rightarrow> dir_index \<Rightarrow> dir_micro_entry list" where
  "btree_entries_from_sorted_index start max_entries d =
     (if max_entries = 0 then []
      else map dir_entry_from_btree_leaf (take max_entries (drop start (map snd (the (name_btree d))))))"

definition dir_list :: "dir_index \<Rightarrow> dir_micro_entry list" where
  "dir_list d =
     (case storage d of
        MicroList _ \<Rightarrow> sort_key entry_name (unsorted_entries d)
      | BTree _ \<Rightarrow> btree_entries_from_sorted_index 0 u64_max d)"

definition dir_list_from :: "dir_cookie \<Rightarrow> dir_index \<Rightarrow> dir_index_error + dir_micro_entry list \<times> dir_cookie" where
  "dir_list_from cookie d =
     (case dir_cookie_resume_skip cookie (directory_version d) of
        None \<Rightarrow> Inl StaleCursor
      | Some start \<Rightarrow>
          let entries = (case storage d of
                MicroList _ \<Rightarrow> (if start \<ge> length (dir_list d) then [] else drop start (dir_list d))
              | BTree _ \<Rightarrow> btree_entries_from_sorted_index start u64_max d);
              next_skip = sat_add64 start (length entries)
          in Inr (entries, dir_cookie_encode_versioned (word_of_nat next_skip) (directory_version d)))"

text \<open>
  A range of names; \<open>None\<close> stands for the panic of slicing with an end below the start, after the
  addition has wrapped around.
\<close>

definition dir_range_scan :: "byte list \<Rightarrow> nat \<Rightarrow> dir_index \<Rightarrow> dir_micro_entry list option" where
  "dir_range_scan start_name max_entries d =
     (if max_entries = 0 then Some []
      else case storage d of
        MicroList _ \<Rightarrow>
          let entries = dir_list d;
              start_idx = (if start_name = [] then 0
                else case binary_search start_name (map (\<lambda>e. (entry_name e, e)) entries) of
                       Inr i \<Rightarrow> i + 1 | Inl i \<Rightarrow> i);
              end' = min (wrap_add64 start_idx max_entries) (length entries)
          in if start_idx \<ge> length entries then Some []
             else if end' < start_idx then None
             else Some (slice start_idx end' entries)
      | BTree _ \<Rightarrow>
          if start_name = [] then Some (map dir_entry_from_btree_leaf (take max_entries (map snd (the (name_btree d)))))
          else Some (map dir_entry_from_btree_leaf
                 (take max_entries (map snd (filter (\<lambda>(k, _). start_name < k) (the (name_btree d)))))))"

definition entries_from_sorted_index :: "nat \<Rightarrow> nat \<Rightarrow> dir_index \<Rightarrow> dir_micro_entry list" where
  "entries_from_sorted_index start max_entries d =
     (if max_entries = 0 then []
      else case storage d of
        MicroList _ \<Rightarrow>
          let entries = dir_list d
          in if start \<ge> length entries then []
             else slice start (min (sat_add64 start max_entries) (length entries)) entries
      | BTree _ \<Rightarrow> btree_entries_from_sorted_index start max_entries d)"

section \<open>Subdirectory flag\<close>

definition dir_has_subdirs :: "dir_index \<Rightarrow> bool" where
  "dir_has_subdirs d =
     (case storage d of MicroList l \<Rightarrow> flags_has_subdirs (ml_flags l) | BTree r \<Rightarrow> flags_has_subdirs (bs_flags r))"

definition dir_set_has_subdirs :: "bool \<Rightarrow> dir_index \<Rightarrow> dir_index" where
  "dir_set_has_subdirs v d =
     (let changed = (dir_has_subdirs d \<noteq> v);
          d' = d\<lparr>storage := (case storage d of
            MicroList l \<Rightarrow> MicroList (l\<lparr>ml_flags := flags_set_has_subdirs v (ml_flags l)\<rparr>)
          | BTree r \<Rightarrow> BTree (r\<lparr>bs_flags := flags_set_has_subdirs v (bs_flags r)\<rparr>))\<rparr>
      in if changed then d'\<lparr>dirty := True\<rparr> else d')"

section \<open>Encoding\<close>

definition entry_bytes :: "dir_micro_entry \<Rightarrow> byte list" where
  "entry_bytes e =
     le_bytes 4 (unat (name_len e)) @ entry_name e @ le_bytes 8 (unat (inode_id e))
       @ le_bytes 8 (unat (entry_generation e)) @ le_bytes 4 (unat (entry_kind e))"

definition dir_to_bytes :: "dir_index \<Rightarrow> byte list" where
  "dir_to_bytes d =
     (let entries = dir_list d
      in le_bytes 8 (unat (directory_inode_id d)) @ le_bytes 8 (unat (directory_version d))
           @ le_bytes 8 (if dir_has_subdirs d then 1 else 0) @ le_bytes 8 (length entries)
           @ concat (map entry_bytes entries))"

fun dir_read_entries :: "(byte list \<Rightarrow> byte list) \<Rightarrow> nat \<Rightarrow> nat \<Rightarrow> byte list \<Rightarrow> dir_index \<Rightarrow> dir_index option" where
  "dir_read_entries h 0 off bytes d = Some d"
| "dir_read_entries h (Suc n) off bytes d =
     (if off + 4 > length bytes then None
      else
        let nl = le_nat (slice off (off + 4) bytes); off1 = off + 4
        in if off1 + nl + 20 > length bytes then None
           else
             let nm = slice off1 (off1 + nl) bytes;
                 off2 = off1 + nl;
                 ino = word_of_nat (le_nat (slice off2 (off2 + 8) bytes));
                 gen = word_of_nat (le_nat (slice (off2 + 8) (off2 + 16) bytes));
                 knd = word_of_nat (le_nat (slice (off2 + 16) (off2 + 20) bytes))
             in dir_read_entries h n (off2 + 20) bytes (insert_inner h nm ino gen knd d))"

definition dir_from_bytes :: "(byte list \<Rightarrow> byte list) \<Rightarrow> byte list \<Rightarrow> dataset_dir_policy \<Rightarrow> dir_index option" where
  "dir_from_bytes h bytes pol =
     (if length bytes < 32 then None
      else
        let ino = word_of_nat (le_nat (slice 0 8 bytes));
            ver = word_of_nat (le_nat (slice 8 16 bytes));
            flags = (word_of_nat (le_nat (slice 16 24 bytes)) :: 64 word);
            entry_count = le_nat (slice 24 32 bytes);
            d0 = (dir_set_has_subdirs (flags AND 1 \<noteq> 0) ((dir_new ino pol)\<lparr>directory_version := ver\<rparr>))\<lparr>dirty := False\<rparr>
        in case dir_read_entries h entry_count 32 bytes d0 of
             None \<Rightarrow> None
           | Some d \<Rightarrow> Some ((check_and_switch h d)\<lparr>dirty := False\<rparr>))"

section \<open>The iterator of the index\<close>

definition dir_next_entry :: "dir_index \<Rightarrow> dir_micro_entry option \<times> dir_index" where
  "dir_next_entry d =
     (let len = dir_len d;
          d1 = (if pf_total_entries (prefetch_window d) \<noteq> len \<or> dir_cursor d = 0
                then d\<lparr>prefetch_window := pf_seek_to (dir_cursor d) (pf_set_total_entries len (prefetch_window d))\<rparr>
                else d)
      in if dir_cursor d1 \<ge> len then (None, d1)
         else
           let entry = (case storage d1 of
                 MicroList _ \<Rightarrow> if dir_cursor d1 \<ge> length (dir_list d1) then None else Some (dir_list d1 ! dir_cursor d1)
               | BTree _ \<Rightarrow> (case btree_entries_from_sorted_index (dir_cursor d1) 1 d1 of [] \<Rightarrow> None | e # _ \<Rightarrow> Some e))
           in case entry of
                None \<Rightarrow> (None, d1)
              | Some e \<Rightarrow>
                  (Some e, d1\<lparr>dir_cursor := dir_cursor d1 + 1, prefetch_window := snd (pf_advance (prefetch_window d1))\<rparr>))"

definition dir_reset_cursor :: "dir_index \<Rightarrow> dir_index" where
  "dir_reset_cursor d = d\<lparr>dir_cursor := 0, prefetch_window := pf_reset (prefetch_window d)\<rparr>"

definition dir_seek_to_cursor :: "dir_cookie \<Rightarrow> dir_index \<Rightarrow> dir_index" where
  "dir_seek_to_cursor cookie d =
     (let len = dir_len d; c = index_from_cookie cookie len
      in d\<lparr>dir_cursor := c, prefetch_window := pf_seek_to c (pf_set_total_entries len (prefetch_window d))\<rparr>)"

definition dir_current_cursor :: "dir_index \<Rightarrow> dir_cookie" where
  "dir_current_cursor d =
     cookie_from_index (dir_cursor d) (case storage d of BTree _ \<Rightarrow> True | MicroList _ \<Rightarrow> False)"

section \<open>The snapshot iterator\<close>

record dir_index_iter =
  iter_entries :: "(dir_micro_entry \<times> dir_cookie) list"
  iter_position :: nat

definition sat_inc16 :: "16 word \<Rightarrow> 16 word" where
  "sat_inc16 w = (if w = -1 then w else w + 1)"

fun iter_btree_cookies ::
    "16 word \<Rightarrow> 16 word \<Rightarrow> dir_btree_leaf_entry list \<Rightarrow> (dir_micro_entry \<times> dir_cookie) list" where
  "iter_btree_cookies page entry_in_page [] = []"
| "iter_btree_cookies page entry_in_page (e # es) =
     (dir_entry_from_btree_leaf e, encode_btree page entry_in_page) #
       (let next = sat_inc16 entry_in_page
        in if next = 128 then iter_btree_cookies (sat_inc16 page) 0 es else iter_btree_cookies page next es)"

definition iter_new :: "dir_index \<Rightarrow> dir_index_iter" where
  "iter_new d =
     \<lparr>iter_entries = (case storage d of
        MicroList l \<Rightarrow> map (\<lambda>(i, e). (e, encode_micro (word_of_nat i))) (enumerate 0 (ml_entries l))
      | BTree _ \<Rightarrow> iter_btree_cookies 0 0 (concat (map snd (bpt_entries (the (btree d)))))),
      iter_position = 0\<rparr>"

definition iter_next :: "dir_index_iter \<Rightarrow> (dir_micro_entry \<times> dir_cookie) option \<times> dir_index_iter" where
  "iter_next it =
     (if iter_position it \<ge> length (iter_entries it) then (None, it)
      else (Some (iter_entries it ! iter_position it), it\<lparr>iter_position := iter_position it + 1\<rparr>))"

definition iter_seek_to :: "dir_cookie \<Rightarrow> dir_index_iter \<Rightarrow> dir_index_iter" where
  "iter_seek_to cookie it =
     (if cookie = 0 then it\<lparr>iter_position := 0\<rparr>
      else
        let start = min (iter_position it) (length (iter_entries it))
        in case find (\<lambda>i. snd (iter_entries it ! i) > cookie) [start..<length (iter_entries it)] of
             Some i \<Rightarrow> it\<lparr>iter_position := i\<rparr>
           | None \<Rightarrow> it\<lparr>iter_position := length (iter_entries it)\<rparr>)"

definition iter_current_cookie :: "dir_index_iter \<Rightarrow> dir_cookie" where
  "iter_current_cookie it =
     (if iter_position it = 0 then 0
      else if iter_position it > length (iter_entries it)
      then (case last_option (iter_entries it) of None \<Rightarrow> 0 | Some (_, c) \<Rightarrow> c)
      else snd (iter_entries it ! (iter_position it - 1)))"

end
