(* ===== verification/Dir_Refine.thy ===== *)
theory Dir_Refine
  imports Dir_Index Bptree_Map "HOL-Library.Multiset"
begin

text \<open>
  A directory index refines a map from names to inode, generation and kind: whatever the
  representation, the thresholds and the collisions of hashes, the operations answer from that map.
\<close>

section \<open>The view of a directory\<close>

type_synonym entry_data = "64 word \<times> 64 word \<times> 32 word"

definition entry_view :: "dir_micro_entry \<Rightarrow> byte list \<times> entry_data" where
  "entry_view e = (entry_name e, inode_id e, entry_generation e, entry_kind e)"

definition leaf_view :: "dir_btree_leaf_entry \<Rightarrow> entry_data" where
  "leaf_view e = (leaf_inode_id e, leaf_generation e, leaf_kind e)"

definition dir_view :: "dir_index \<Rightarrow> (byte list \<times> entry_data) list" where
  "dir_view d =
     (case storage d of
        MicroList l \<Rightarrow> map entry_view (sort_key entry_name (ml_entries l))
      | BTree _ \<Rightarrow> map (\<lambda>(n, e). (n, leaf_view e)) (the (name_btree d)))"

text \<open>The length fields are right for names that fit into them.\<close>

definition micro_len_ok :: "dir_micro_entry \<Rightarrow> bool" where
  "micro_len_ok e \<longleftrightarrow> (length (entry_name e) < 2 ^ 16 \<longrightarrow> name_len e = word_of_nat (length (entry_name e)))"

definition leaf_len_ok :: "dir_btree_leaf_entry \<Rightarrow> bool" where
  "leaf_len_ok e \<longleftrightarrow> (length (leaf_name e) < 2 ^ 16 \<longrightarrow> leaf_name_len e = word_of_nat (length (leaf_name e)))"

definition dir_ok :: "(byte list \<Rightarrow> byte list) \<Rightarrow> dir_index \<Rightarrow> bool" where
  "dir_ok h d \<longleftrightarrow>
     (case storage d of
        MicroList l \<Rightarrow> distinct (map entry_name (ml_entries l)) \<and> list_all micro_len_ok (ml_entries l)
      | BTree _ \<Rightarrow> (\<exists>t nt. btree d = Some t \<and> name_btree d = Some nt \<and> bpt_inv (dir_tree_params h) t \<and>
          buckets_index name_hash leaf_name (bpt_entries t) nt \<and> (\<forall>e \<in> snd ` set nt. leaf_len_ok e)))"

definition name_bytes :: "(byte list \<times> entry_data) list \<Rightarrow> nat" where
  "name_bytes m = sum_list (map (\<lambda>e. length (fst e)) m)"

definition dir_counts :: "dir_index \<Rightarrow> bool" where
  "dir_counts d \<longleftrightarrow> storage_entry_count (storage d) = word_of_nat (length (dir_view d)) \<and>
     storage_total_name_bytes (storage d) = word_of_nat (name_bytes (dir_view d))"

lemma dir_params_ok [simp]: "params_ok (dir_tree_params h)"
  by (simp add: params_ok_def dir_tree_params_def)

lemma entry_view_simps [simp]:
  "fst (entry_view e) = entry_name e" "snd (entry_view e) = (inode_id e, entry_generation e, entry_kind e)"
  by (simp_all add: entry_view_def)

lemma leaf_entry_view [simp]:
  "entry_name (dir_entry_from_btree_leaf e) = leaf_name e"
  "entry_view (dir_entry_from_btree_leaf e) = (leaf_name e, leaf_view e)"
  by (simp_all add: dir_entry_from_btree_leaf_def entry_view_def leaf_view_def)

lemma leaf_of_micro_view [simp]:
  "leaf_name (leaf_of_micro e) = entry_name e" "(entry_name e, leaf_view (leaf_of_micro e)) = entry_view e"
  by (simp_all add: leaf_of_micro_def entry_view_def leaf_view_def)

section \<open>Sorted micro-lists\<close>

lemma map_of_views:
  "distinct (map entry_name es) \<Longrightarrow>
     map_of (map entry_view es) n = Some x \<longleftrightarrow> (\<exists>e \<in> set es. entry_view e = (n, x))"
  by (subst map_of_eq_Some_iff) (auto simp: o_def image_iff eq_commute)

lemma micro_view_bmap:
  assumes "distinct (map entry_name es)"
  shows "bmap (map entry_view (sort_key entry_name es))"
proof -
  have "distinct (map entry_name (sort_key entry_name es))"
    using assms by (simp add: distinct_map)
  moreover have "sorted (map entry_name (sort_key entry_name es))" by simp
  ultimately have "sorted_wrt (<) (map entry_name (sort_key entry_name es))" by (simp add: strict_sorted_iff)
  then show ?thesis by (simp add: o_def)
qed

lemma micro_view_map_of:
  assumes "distinct (map entry_name es)"
  shows "map_of (map entry_view (sort_key entry_name es)) = map_of (map entry_view es)"
proof
  fix n
  have "distinct (map entry_name (sort_key entry_name es))" using assms by (simp add: distinct_map)
  from map_of_views [OF this] map_of_views [OF assms]
  show "map_of (map entry_view (sort_key entry_name es)) n = map_of (map entry_view es) n"
    by (intro option_eq_SomeI) simp
qed

lemma find_view: "map_option entry_view (find (\<lambda>e. entry_name e = n) es) = map_option (Pair n) (map_of (map entry_view es) n)"
  by (induction es) (auto simp: entry_view_def)

lemma tree_view_map_of:
  "map_of (map (\<lambda>(n, e). (n, leaf_view e)) nt) n = map_option leaf_view (map_of nt n)"
  by (induction nt) auto

lemma tree_view_keys: "map fst (map (\<lambda>(n, e). (n, leaf_view e)) nt) = map fst nt"
  by (induction nt) auto

section \<open>Lookup\<close>

lemma dir_view_bmap: "dir_ok h d \<Longrightarrow> bmap (dir_view d)"
  by (auto simp: dir_ok_def dir_view_def micro_view_bmap tree_view_keys buckets_index_def
      simp del: map_map split: dir_storage.splits)

lemma dir_lookup_view:
  assumes "dir_ok h d"
  shows "map_option entry_view (dir_lookup n d) = map_option (Pair n) (map_of (dir_view d) n)"
proof (cases "storage d")
  case (MicroList l)
  then show ?thesis using assms by (simp add: dir_ok_def dir_lookup_def dir_view_def find_view micro_view_map_of)
next
  case (BTree r)
  then obtain t nt where t: "btree d = Some t" "name_btree d = Some nt" "bpt_inv (dir_tree_params h) t"
    "buckets_index name_hash leaf_name (bpt_entries t) nt" using assms by (auto simp: dir_ok_def)
  have "map_option entry_view (map_option dir_entry_from_btree_leaf (find (\<lambda>e. leaf_name e = n) b)) =
      map_option (Pair n) (map_option leaf_view (find (\<lambda>e. leaf_name e = n) b))" for b
    by (cases "find (\<lambda>e. leaf_name e = n) b") (auto dest: find_SomeD)
  moreover have "bpt_get (name_hash n) t = map_of (bpt_entries t) (name_hash n)"
    using bpt_map.get_items [of "dir_tree_params h" t] t(3) by simp
  ultimately show ?thesis using BTree t bucket_lookup [OF t(4), of n]
    by (auto simp: dir_lookup_def dir_view_def tree_view_map_of split: option.splits)
qed

lemma dir_contains_view: "dir_ok h d \<Longrightarrow> dir_contains n d \<longleftrightarrow> map_of (dir_view d) n \<noteq> None"
  using dir_lookup_view [of h d n] by (cases "dir_lookup n d"; cases "map_of (dir_view d) n") (simp_all add: dir_contains_def)

section \<open>Insertion into a representation\<close>

definition same_rest :: "dir_index \<Rightarrow> dir_index \<Rightarrow> bool" where
  "same_rest d d' \<longleftrightarrow> directory_version d' = directory_version d \<and> dir_has_subdirs d' = dir_has_subdirs d \<and>
     dir_policy d' = dir_policy d \<and> directory_inode_id d' = directory_inode_id d"

lemma map_bmap_put:
  "map (\<lambda>(n, e). (n, f e)) (bmap_put k v m) = bmap_put k (f v) (map (\<lambda>(n, e). (n, f e)) m)"
  by (induction m) auto

lemma map_bmap_del:
  "map (\<lambda>(n, e). (n, f e)) (bmap_del k m) = bmap_del k (map (\<lambda>(n, e). (n, f e)) m)"
  by (induction m) (auto simp: bmap_del_def)

lemma bucket_push_ok:
  assumes "bpt_inv (dir_tree_params h) t" and "buckets_index name_hash leaf_name (bpt_entries t) nt"
    and "map_of nt (leaf_name e) = None"
  shows "bpt_inv (dir_tree_params h) (bucket_push h (name_hash (leaf_name e)) e t)"
    and "buckets_index name_hash leaf_name (bpt_entries (bucket_push h (name_hash (leaf_name e)) e t)) (bmap_put (leaf_name e) e nt)"
proof -
  have ok: "params_ok (dir_tree_params h) \<and> bpt_inv (dir_tree_params h) t" using assms(1) by simp
  have push: "bucket_push h (name_hash (leaf_name e)) e t =
      (if bpt_get (name_hash (leaf_name e)) t \<noteq> None
       then snd (the (bpt_update (dir_tree_params h) (name_hash (leaf_name e)) (\<lambda>b. b @ [e]) t))
       else snd (bpt_insert (dir_tree_params h) (name_hash (leaf_name e)) [e] t))"
    by (simp add: bucket_push_def contains_key_def)
  note r = bpt_map.upd_or_ins [OF ok push]
  show "bpt_inv (dir_tree_params h) (bucket_push h (name_hash (leaf_name e)) e t)" using r(1) by simp
  show "buckets_index name_hash leaf_name (bpt_entries (bucket_push h (name_hash (leaf_name e)) e t)) (bmap_put (leaf_name e) e nt)"
    unfolding r(2) by (rule buckets_index_put [OF assms(2,3)])
qed

lemma insert_inner_ok:
  assumes "dir_ok h d" and "map_of (dir_view d) n = None"
  shows "dir_ok h (insert_inner h n ino gen knd d) \<and>
    dir_view (insert_inner h n ino gen knd d) = bmap_put n (ino, gen, knd) (dir_view d)"
proof (cases "storage d")
  case (MicroList l)
  let ?e = "\<lparr>name_len = word_of_nat (length n), inode_id = ino, entry_generation = gen, entry_kind = knd, entry_name = n\<rparr>"
  have es: "distinct (map entry_name (ml_entries l))" "list_all micro_len_ok (ml_entries l)"
    using assms(1) MicroList by (simp_all add: dir_ok_def)
  have none: "map_of (map entry_view (ml_entries l)) n = None"
    using assms(2) MicroList es(1) by (simp add: dir_view_def micro_view_map_of)
  then have new: "distinct (map entry_name (ml_entries l @ [?e]))"
    using es(1) by (auto simp: map_of_eq_None_iff image_image)
  have "map entry_view (sort_key entry_name (ml_entries l @ [?e])) =
      bmap_put n (ino, gen, knd) (map entry_view (sort_key entry_name (ml_entries l)))"
  proof (rule bmap_eqI)
    have "map_of (map entry_view (ml_entries l @ [?e])) = (map_of (map entry_view (ml_entries l)))(n \<mapsto> (ino, gen, knd))"
      using none by (auto simp: fun_eq_iff map_add_def entry_view_def split: option.split)
    then show "map_of (map entry_view (sort_key entry_name (ml_entries l @ [?e]))) =
        map_of (bmap_put n (ino, gen, knd) (map entry_view (sort_key entry_name (ml_entries l))))"
      unfolding micro_view_map_of [OF new] map_of_bmap_put micro_view_map_of [OF es(1)] .
  qed (use micro_view_bmap [OF new] micro_view_bmap [OF es(1)] in simp_all)
  then show ?thesis using MicroList new es(2)
    by (simp add: insert_inner_def dir_ok_def dir_view_def micro_len_ok_def)
next
  case (BTree r)
  then obtain t nt where t: "btree d = Some t" "name_btree d = Some nt" "bpt_inv (dir_tree_params h) t"
    "buckets_index name_hash leaf_name (bpt_entries t) nt" "\<forall>e \<in> snd ` set nt. leaf_len_ok e"
    using assms(1) by (auto simp: dir_ok_def)
  let ?leaf = "\<lparr>leaf_hash = name_hash n, leaf_name_len = word_of_nat (length n), leaf_inode_id = ino,
    leaf_generation = gen, leaf_kind = knd, leaf_flags = 0, leaf_name = n\<rparr>"
  have "map_of nt n = None" using assms(2) BTree t(2) by (simp add: dir_view_def tree_view_map_of)
  then have "map_of nt (leaf_name ?leaf) = None" by simp
  note push = bucket_push_ok [OF t(3,4) this]
  have "\<forall>e \<in> snd ` set (bmap_put n ?leaf nt). leaf_len_ok e"
    using t(5) set_bmap_put [of n ?leaf nt] by (auto simp: leaf_len_ok_def)
  then show ?thesis using push BTree t(1,2)
    by (simp add: insert_inner_def dir_ok_def dir_view_def map_bmap_put leaf_view_def Let_def)
qed

lemma insert_inner_rest [simp]: "same_rest d (insert_inner h n ino gen knd d)"
  by (simp add: same_rest_def insert_inner_def dir_has_subdirs_def Let_def split: dir_storage.split)

lemma insert_inner_count:
  "storage_entry_count (storage (insert_inner h n ino gen knd d)) = storage_entry_count (storage d) + 1"
  "storage_total_name_bytes (storage (insert_inner h n ino gen knd d)) = storage_total_name_bytes (storage d) + word_of_nat (length n)"
  by (simp_all add: insert_inner_def storage_entry_count_def storage_total_name_bytes_def Let_def split: dir_storage.split)

lemma insert_inner_counts:
  assumes "dir_ok h d" and "map_of (dir_view d) n = None" and "dir_counts d"
  shows "dir_counts (insert_inner h n ino gen knd d)"
proof -
  have "bmap (dir_view d)" using assms(1) by (rule dir_view_bmap)
  then show ?thesis
    using assms length_bmap_put [of "dir_view d" n "(ino, gen, knd)"] sum_bmap_put [of "dir_view d" n length "(ino, gen, knd)"]
      insert_inner_ok [OF assms(1,2), of ino gen knd]
    by (simp add: dir_counts_def insert_inner_count name_bytes_def map_of_eq_None_iff)
qed

section \<open>Deletion from a representation\<close>

lemma position_remove:
  assumes "distinct (map f es)"
  shows "case position (\<lambda>e. f e = n) es of
      None \<Rightarrow> n \<notin> f ` set es
    | Some i \<Rightarrow> f (es ! i) = n \<and> remove_at i es = filter (\<lambda>e. f e \<noteq> n) es \<and> n \<in> f ` set es"
  using assms
proof (induction es)
  case (Cons e es)
  show ?case
  proof (cases "f e = n")
    case True
    have "f e \<notin> f ` set es" using Cons.prems by simp
    then have "\<forall>x \<in> set es. f x \<noteq> n" using True by (metis image_eqI)
    then have "filter (\<lambda>e. f e \<noteq> n) es = es" by (simp add: filter_id_conv)
    then show ?thesis using True by (simp add: position_def partition_point_def remove_at_def)
  next
    case False
    then show ?thesis using Cons by (auto simp: position_def partition_point_def remove_at_def split: if_splits)
  qed
qed (simp add: position_def)

definition delete_hits :: "byte list \<Rightarrow> dir_index \<Rightarrow> bool" where
  "delete_hits n d \<longleftrightarrow>
     (case storage d of MicroList _ \<Rightarrow> map_of (dir_view d) n \<noteq> None
      | BTree _ \<Rightarrow> bpt_get (name_hash n) (the (btree d)) \<noteq> None)"

lemma bmap_del_view: "bmap_del n (map entry_view xs) = map entry_view (filter (\<lambda>e. entry_name e \<noteq> n) xs)"
  by (simp add: bmap_del_def filter_map o_def)

lemma delete_inner_micro:
  assumes "storage d = MicroList l" and "dir_ok h d"
  shows "dir_ok h (delete_inner h n d) \<and> dir_view (delete_inner h n d) = bmap_del n (dir_view d)"
proof -
  have es: "distinct (map entry_name (ml_entries l))" "list_all micro_len_ok (ml_entries l)"
    using assms by (simp_all add: dir_ok_def)
  show ?thesis
  proof (cases "position (\<lambda>e. entry_name e = n) (ml_entries l)")
    case None
    then have "filter (\<lambda>e. entry_name e \<noteq> n) (sort_key entry_name (ml_entries l)) = sort_key entry_name (ml_entries l)"
      using position_remove [OF es(1), of n] by (auto simp: filter_id_conv)
    then show ?thesis using assms None by (simp add: delete_inner_def dir_view_def bmap_del_view)
  next
    case (Some i)
    then have r: "remove_at i (ml_entries l) = filter (\<lambda>e. entry_name e \<noteq> n) (ml_entries l)"
      using position_remove [OF es(1), of n] by simp
    show ?thesis using assms Some es
      by (simp add: delete_inner_def dir_ok_def dir_view_def bmap_del_view r filter_sort distinct_map_filter list_all_iff)
  qed
qed

lemma delete_inner_tree:
  assumes "storage d = BTree r" and "dir_ok h d"
  shows "dir_ok h (delete_inner h n d) \<and> dir_view (delete_inner h n d) = bmap_del n (dir_view d)"
proof -
  obtain t nt where t: "btree d = Some t" "name_btree d = Some nt" "bpt_inv (dir_tree_params h) t"
    "buckets_index name_hash leaf_name (bpt_entries t) nt" "\<forall>e \<in> snd ` set nt. leaf_len_ok e"
    using assms by (auto simp: dir_ok_def)
  have ok: "params_ok (dir_tree_params h) \<and> bpt_inv (dir_tree_params h) t" using t(3) by simp
  have get: "bpt_get (name_hash n) t = map_of (bpt_entries t) (name_hash n)" using bpt_map.get_items [OF ok] .
  show ?thesis
  proof (cases "bpt_get (name_hash n) t")
    case None
    then have "map_of nt n = None" using bucket_lookup [OF t(4), of n] get by simp
    then have "bmap_del n nt = nt" by (auto simp: map_of_eq_None_iff bmap_del_def filter_id_conv)
    then show ?thesis using assms None t(1,2)
      by (simp add: delete_inner_def dir_view_def map_bmap_del [symmetric])
  next
    case (Some b)
    let ?b = "filter (\<lambda>e. leaf_name e \<noteq> n) b"
    let ?t = "if ?b = [] then snd (the (bpt_delete (dir_tree_params h) (name_hash n) t))
      else snd (bpt_insert (dir_tree_params h) (name_hash n) ?b t)"
    have idx: "buckets_index name_hash leaf_name
        (if ?b = [] then bmap_del (name_hash n) (bpt_entries t) else bmap_put (name_hash n) ?b (bpt_entries t)) (bmap_del n nt)"
      using Some get by (intro buckets_index_del [OF t(4)]) simp_all
    note t' = bpt_map.ins_or_del [OF ok refl, of "?b = []" "name_hash n" ?b]
    have "\<forall>e \<in> snd ` set (bmap_del n nt). leaf_len_ok e" using t(5) by (auto simp: bmap_del_def)
    moreover have "buckets_index name_hash leaf_name (bpt_entries ?t) (bmap_del n nt)" unfolding t'(2) by (rule idx)
    moreover have "bpt_inv (dir_tree_params h) ?t" using t'(1) by simp
    moreover have "delete_inner h n d = d\<lparr>btree := Some ?t, name_btree := Some (bmap_del n nt),
        storage := BTree (r\<lparr>bs_entry_count := bs_entry_count r - 1,
          bs_total_name_bytes := bs_total_name_bytes r - word_of_nat (length n)\<rparr>)\<rparr>"
      using assms(1) Some t(1,2) by (simp add: delete_inner_def Let_def)
    ultimately show ?thesis using assms(1) t(2) by (simp add: dir_ok_def dir_view_def map_bmap_del)
  qed
qed

lemma delete_inner_ok:
  "dir_ok h d \<Longrightarrow> dir_ok h (delete_inner h n d) \<and> dir_view (delete_inner h n d) = bmap_del n (dir_view d)"
  using delete_inner_micro delete_inner_tree by (cases "storage d") blast+

lemma delete_inner_rest [simp]: "same_rest d (delete_inner h n d)"
  by (simp add: same_rest_def delete_inner_def dir_has_subdirs_def Let_def split: dir_storage.split option.split)

lemma delete_inner_count:
  assumes "dir_ok h d"
  shows "storage_entry_count (storage (delete_inner h n d)) = storage_entry_count (storage d) - (if delete_hits n d then 1 else 0)"
    and "storage_total_name_bytes (storage (delete_inner h n d)) =
      storage_total_name_bytes (storage d) - (if delete_hits n d then word_of_nat (length n) else 0)"
proof -
  have "storage_entry_count (storage (delete_inner h n d)) = storage_entry_count (storage d) - (if delete_hits n d then 1 else 0) \<and>
    storage_total_name_bytes (storage (delete_inner h n d)) =
      storage_total_name_bytes (storage d) - (if delete_hits n d then word_of_nat (length n) else 0)"
  proof (cases "storage d")
    case (MicroList l)
    then have es: "distinct (map entry_name (ml_entries l))" using assms by (simp add: dir_ok_def)
    then have "delete_hits n d \<longleftrightarrow> n \<in> entry_name ` set (ml_entries l)"
      using MicroList by (simp add: delete_hits_def dir_view_def micro_view_map_of map_of_eq_None_iff image_image)
    then show ?thesis using MicroList position_remove [OF es, of n]
      by (simp add: delete_inner_def storage_entry_count_def storage_total_name_bytes_def split: option.splits)
  next
    case (BTree r)
    then show ?thesis
      by (simp add: delete_inner_def delete_hits_def storage_entry_count_def storage_total_name_bytes_def Let_def split: option.split)
  qed
  then show "storage_entry_count (storage (delete_inner h n d)) = storage_entry_count (storage d) - (if delete_hits n d then 1 else 0)"
    "storage_total_name_bytes (storage (delete_inner h n d)) =
      storage_total_name_bytes (storage d) - (if delete_hits n d then word_of_nat (length n) else 0)" by simp_all
qed

lemma delete_hits_view: "dir_ok h d \<Longrightarrow> map_of (dir_view d) n \<noteq> None \<Longrightarrow> delete_hits n d"
  using dir_contains_view [of h d n]
  by (auto simp: delete_hits_def dir_contains_def dir_lookup_def split: dir_storage.splits option.splits)

lemma delete_inner_counts:
  assumes "dir_ok h d" and "map_of (dir_view d) n \<noteq> None" and "dir_counts d"
  shows "dir_counts (delete_inner h n d)"
proof -
  have srt: "bmap (dir_view d)" using assms(1) by (rule dir_view_bmap)
  have hit: "delete_hits n d" by (rule delete_hits_view [OF assms(1,2)])
  have len: "length (dir_view d) = 1 + length (bmap_del n (dir_view d))"
    using sum_bmap_del [OF srt assms(2), of "\<lambda>_. 1"] by (simp add: sum_list_triv)
  have bytes: "name_bytes (dir_view d) = length n + name_bytes (bmap_del n (dir_view d))"
    using sum_bmap_del [OF srt assms(2), of length] by (simp add: name_bytes_def)
  show ?thesis using assms(3) hit delete_inner_ok [OF assms(1), of n]
    by (simp add: dir_counts_def delete_inner_count [OF assms(1)] len bytes)
qed

section \<open>Switching\<close>

lemma ucast_small: "n < 2 ^ 16 \<Longrightarrow> ucast (word_of_nat n :: 32 word) = (word_of_nat n :: 16 word)"
  "n < 2 ^ 16 \<Longrightarrow> ucast (word_of_nat n :: 16 word) = (word_of_nat n :: 32 word)"
  by (simp_all add: unsigned_of_nat take_bit_nat_eq_self)

lemma unat_small: "n < 2 ^ 16 \<Longrightarrow> unat (word_of_nat n :: 32 word) = n"
  by (simp add: unat_of_nat)

lemma leaf_of_micro_len: "micro_len_ok e \<Longrightarrow> leaf_len_ok (leaf_of_micro e)"
  by (simp add: micro_len_ok_def leaf_len_ok_def leaf_of_micro_def ucast_small unat_small)

lemma micro_of_leaf_len: "leaf_len_ok e \<Longrightarrow> micro_len_ok (dir_entry_from_btree_leaf e)"
  by (simp add: micro_len_ok_def leaf_len_ok_def dir_entry_from_btree_leaf_def ucast_small)

lemma map_of_leaf_of_micro:
  "map_option leaf_view (map_of (map (\<lambda>e. (entry_name e, leaf_of_micro e)) es) n) = map_of (map entry_view es) n"
  by (induction es) (auto simp: entry_view_def leaf_view_def leaf_of_micro_def)

lemma micro_name_bytes:
  "name_bytes (map entry_view (sort_key entry_name es)) = sum_list (map (\<lambda>e. length (entry_name e)) es)"
  by (simp add: name_bytes_def o_def flip: sum_mset_sum_list)

lemma fold_count: "fold (\<lambda>e c. c + 1) es c = c + (word_of_nat (length es) :: 64 word)"
  by (induction es arbitrary: c) (simp_all add: algebra_simps)

lemma fold_bytes:
  "fold (\<lambda>e n. n + word_of_nat (f e)) es n = n + (word_of_nat (sum_list (map f es)) :: 64 word)"
  by (induction es arbitrary: n) (simp_all add: algebra_simps)

lemma promote_loop_ok:
  assumes "promote_loop h es t nt c b = (t', nt', c', b')"
    and "bpt_inv (dir_tree_params h) t" and "buckets_index name_hash leaf_name (bpt_entries t) nt"
    and "\<forall>e \<in> snd ` set nt. leaf_len_ok e"
    and "distinct (map entry_name es)" and "\<forall>e \<in> set es. micro_len_ok e \<and> map_of nt (entry_name e) = None"
  shows "bpt_inv (dir_tree_params h) t' \<and> buckets_index name_hash leaf_name (bpt_entries t') nt' \<and>
    (\<forall>e \<in> snd ` set nt'. leaf_len_ok e) \<and> map_of nt' = map_of nt ++ map_of (map (\<lambda>e. (entry_name e, leaf_of_micro e)) es) \<and>
    c' = c + word_of_nat (length es) \<and> b' = b + word_of_nat (sum_list (map (\<lambda>e. length (entry_name e)) es))"
  using assms
proof (induction es arbitrary: t nt c b)
  case (Cons e es)
  let ?t = "bucket_push h (name_hash (entry_name e)) (leaf_of_micro e) t"
  let ?nt = "bmap_put (entry_name e) (leaf_of_micro e) nt"
  have "map_of nt (leaf_name (leaf_of_micro e)) = None" using Cons.prems(6) by simp
  from bucket_push_ok [OF Cons.prems(2,3) this]
  have push: "bpt_inv (dir_tree_params h) ?t" "buckets_index name_hash leaf_name (bpt_entries ?t) ?nt" by simp_all
  have lens: "\<forall>x \<in> snd ` set ?nt. leaf_len_ok x"
    using Cons.prems(4,6) set_bmap_put [of "entry_name e" "leaf_of_micro e" nt] by (auto simp: leaf_of_micro_len)
  have new: "\<forall>x \<in> set es. micro_len_ok x \<and> map_of ?nt (entry_name x) = None"
    using Cons.prems(5,6) by (auto simp: image_iff)
  have "map_of (map (\<lambda>e. (entry_name e, leaf_of_micro e)) es) (entry_name e) = None"
    using Cons.prems(5) by (auto simp: map_of_eq_None_iff image_image)
  then have eq: "map_of ?nt ++ map_of (map (\<lambda>e. (entry_name e, leaf_of_micro e)) es) =
      map_of nt ++ map_of (map (\<lambda>e. (entry_name e, leaf_of_micro e)) (e # es))"
    by (auto simp: fun_eq_iff map_add_def split: option.split)
  have run: "promote_loop h es ?t ?nt (c + 1) (b + word_of_nat (length (entry_name e))) = (t', nt', c', b')"
    using Cons.prems(1) by simp
  have "distinct (map entry_name es)" using Cons.prems(5) by simp
  note IH = Cons.IH [OF run push lens this new, unfolded eq]
  have "c' = c + word_of_nat (length (e # es))" using IH by (simp add: add.assoc)
  moreover have "b' = b + word_of_nat (sum_list (map (\<lambda>e. length (entry_name e)) (e # es)))" using IH by (simp add: add.assoc)
  ultimately show ?case using IH by blast
qed simp

lemma promote_ok:
  assumes "dir_ok h d"
  shows "dir_ok h (promote_to_btree h d) \<and> dir_view (promote_to_btree h d) = dir_view d \<and>
    (dir_counts d \<longrightarrow> dir_counts (promote_to_btree h d)) \<and> same_rest d (promote_to_btree h d)"
proof (cases "storage d")
  case (MicroList l)
  let ?es = "ml_entries l"
  have es: "distinct (map entry_name ?es)" "list_all micro_len_ok ?es" using assms MicroList by (simp_all add: dir_ok_def)
  obtain t nt c b where loop: "promote_loop h ?es (bpt_new (dir_tree_params h)) [] 0 0 = (t, nt, c, b)" by (metis prod_cases4)
  have idx: "buckets_index name_hash leaf_name (bpt_entries (bpt_new (dir_tree_params h))) []"
    by (simp add: bpt_new_inv buckets_index_def)
  have r: "bpt_inv (dir_tree_params h) t" "buckets_index name_hash leaf_name (bpt_entries t) nt"
    "\<forall>e \<in> snd ` set nt. leaf_len_ok e" "map_of nt = map_of (map (\<lambda>e. (entry_name e, leaf_of_micro e)) ?es)"
    "c = word_of_nat (length ?es)" "b = word_of_nat (sum_list (map (\<lambda>e. length (entry_name e)) ?es))"
    using promote_loop_ok [OF loop bpt_new_inv(1) idx _ es(1)] es(2) by (simp_all add: list_all_iff)
  have "map (\<lambda>(n, e). (n, leaf_view e)) nt = map entry_view (sort_key entry_name ?es)"
  proof (rule bmap_eqI)
    show "bmap (map (\<lambda>(n, e). (n, leaf_view e)) nt)" using r(2) by (simp add: tree_view_keys buckets_index_def del: map_map)
    show "map_of (map (\<lambda>(n, e). (n, leaf_view e)) nt) = map_of (map entry_view (sort_key entry_name ?es))"
      by (simp add: fun_eq_iff tree_view_map_of r(4) micro_view_map_of [OF es(1)] map_of_leaf_of_micro)
  qed (rule micro_view_bmap [OF es(1)])
  moreover have "promote_to_btree h d = d\<lparr>storage := BTree ((btree_state_new (directory_inode_id d) (directory_version d))\<lparr>
      bs_entry_count := c, bs_total_name_bytes := b, bs_depth := word_of_nat (tree_depth t), bs_flags := ml_flags l AND 1\<rparr>),
      btree := Some t, name_btree := Some nt\<rparr>" using MicroList loop by (simp add: promote_to_btree_def)
  ultimately show ?thesis using MicroList r
    by (simp add: dir_ok_def dir_view_def dir_counts_def same_rest_def dir_has_subdirs_def flags_has_subdirs_def
      storage_entry_count_def storage_total_name_bytes_def micro_name_bytes and.assoc)
next
  case (BTree r)
  then show ?thesis using assms by (simp add: promote_to_btree_def same_rest_def)
qed

lemma demoted_leaves:
  assumes "buckets_index name_hash leaf_name bs nt" and "ls = concat (map snd bs)"
  shows "distinct (map entry_name (map dir_entry_from_btree_leaf ls))"
    and "map entry_view (sort_key entry_name (map dir_entry_from_btree_leaf ls)) = map (\<lambda>(n, e). (n, leaf_view e)) nt"
proof -
  note leaves = buckets_index_concat [OF assms(1), folded assms(2)]
  show names: "distinct (map entry_name (map dir_entry_from_btree_leaf ls))" using leaves(1) by (simp add: o_def)
  have nt: "map_of nt n = Some e \<longleftrightarrow> leaf_name e = n \<and> e \<in> set ls" for n e
    using leaves(2) [of e] assms(1) by (auto simp: buckets_index_def)
  have "map_of (map entry_view (map dir_entry_from_btree_leaf ls)) n = Some x \<longleftrightarrow> map_option leaf_view (map_of nt n) = Some x" for n x
    unfolding map_of_views [OF names] map_option_eq_Some nt by auto
  then have "map_of (map entry_view (map dir_entry_from_btree_leaf ls)) n = map_option leaf_view (map_of nt n)" for n
    by (rule option_eq_SomeI)
  then have "map_of (map entry_view (sort_key entry_name (map dir_entry_from_btree_leaf ls))) = map_of (map (\<lambda>(n, e). (n, leaf_view e)) nt)"
    unfolding micro_view_map_of [OF names] fun_eq_iff tree_view_map_of by blast
  moreover have "bmap (map (\<lambda>(n, e). (n, leaf_view e)) nt)" using assms(1) by (simp add: tree_view_keys buckets_index_def del: map_map)
  ultimately show "map entry_view (sort_key entry_name (map dir_entry_from_btree_leaf ls)) = map (\<lambda>(n, e). (n, leaf_view e)) nt"
    using micro_view_bmap [OF names] by (intro bmap_eqI)
qed

lemma demote_ok:
  assumes "dir_ok h d" and "storage d = BTree r"
  shows "dir_ok h (demote_to_micro d) \<and> dir_view (demote_to_micro d) = dir_view d \<and>
    dir_counts (demote_to_micro d) \<and> same_rest d (demote_to_micro d)"
proof -
  obtain t nt where t: "btree d = Some t" "name_btree d = Some nt"
    "buckets_index name_hash leaf_name (bpt_entries t) nt" "\<forall>e \<in> snd ` set nt. leaf_len_ok e"
    using assms by (auto simp: dir_ok_def)
  define ls where "ls = concat (map snd (bpt_entries t))"
  define es where "es = map dir_entry_from_btree_leaf ls"
  note view = demoted_leaves [OF t(3) ls_def, folded es_def]
  have "leaf_len_ok e" if "e \<in> set ls" for e
    using buckets_index_concat(2) [OF t(3), of e, folded ls_def] t(4) that by (force dest: map_of_SomeD)
  then have lens: "list_all micro_len_ok es" by (simp add: es_def list_all_iff micro_of_leaf_len)
  have eq: "demote_to_micro d = d\<lparr>storage := MicroList \<lparr>ml_inode_id = directory_inode_id d,
      ml_version = directory_version d, ml_entry_count = fold (\<lambda>e cnt. cnt + 1) es 0,
      ml_total_name_bytes = fold (\<lambda>e n. n + word_of_nat (length (entry_name e))) es 0,
      ml_flags = (if flags_has_subdirs (bs_flags r) then 1 else 0), ml_entries = es\<rparr>, btree := None, name_btree := None\<rparr>"
    unfolding demote_to_micro_def Let_def es_def ls_def t(1) assms(2) by simp
  have "dir_ok h (demote_to_micro d)" unfolding eq dir_ok_def using view(1) lens by simp
  moreover have "dir_view (demote_to_micro d) = dir_view d" unfolding eq dir_view_def using view(2) assms(2) t(2) by simp
  moreover have "dir_counts (demote_to_micro d)"
    unfolding eq dir_counts_def dir_view_def storage_entry_count_def storage_total_name_bytes_def
    by (simp add: fold_count fold_bytes [where f = "\<lambda>e. length (entry_name e)"] micro_name_bytes)
  moreover have "same_rest d (demote_to_micro d)"
    unfolding eq same_rest_def using assms(2) by (simp add: dir_has_subdirs_def flags_has_subdirs_def)
  ultimately show ?thesis by blast
qed

lemma check_and_switch_ok:
  assumes "dir_ok h d"
  shows "dir_ok h (check_and_switch h d) \<and> dir_view (check_and_switch h d) = dir_view d \<and>
    (dir_counts d \<longrightarrow> dir_counts (check_and_switch h d)) \<and> same_rest d (check_and_switch h d)"
  using assms promote_ok [of h d] demote_ok [of h d]
  by (auto simp: check_and_switch_def Let_def same_rest_def split: dir_storage.splits)

end
