(* ===== verification/Dir_Map.thy ===== *)
theory Dir_Map
  imports Dir_Refine
begin

text \<open>
  The operations of a directory as commands, the same commands on a sorted map of names, the
  movement of entries between two directories, and the entry count after a replacement.
\<close>

section \<open>Complete changes\<close>

definition dir_inv :: "(byte list \<Rightarrow> byte list) \<Rightarrow> dir_index \<Rightarrow> bool" where
  "dir_inv h d \<longleftrightarrow> dir_ok h d \<and> dir_counts d"

type_synonym name_map = "(byte list \<times> entry_data) list \<times> bool \<times> 64 word"

definition dir_abs :: "dir_index \<Rightarrow> name_map" where
  "dir_abs d = (dir_view d, dir_has_subdirs d, directory_version d)"

lemma dir_lookup_cases:
  assumes "dir_inv h d"
  obtains "dir_lookup n d = None" "map_of (dir_view d) n = None"
  | e where "dir_lookup n d = Some e" "entry_name e = n"
      "map_of (dir_view d) n = Some (inode_id e, entry_generation e, entry_kind e)"
  using dir_lookup_view [of h d n] assms
  by (cases "dir_lookup n d"; cases "map_of (dir_view d) n") (auto simp: entry_view_def dir_inv_def)

lemma bump_keeps [simp]:
  "dir_ok h (bump d) = dir_ok h d" "dir_view (bump d) = dir_view d" "dir_counts (bump d) = dir_counts d"
  "dir_has_subdirs (bump d) = dir_has_subdirs d" "directory_version (bump d) = directory_version d + 1"
  by (cases "storage d"; simp add: bump_def dir_ok_def dir_view_def dir_counts_def dir_has_subdirs_def)+

lemma change_ok:
  assumes "dir_ok h d1" and "same_rest d d1"
  shows "dir_ok h (check_and_switch h (bump d1))"
    and "dir_abs (check_and_switch h (bump d1)) = (dir_view d1, dir_has_subdirs d, directory_version d + 1)"
    and "dir_counts d1 \<Longrightarrow> dir_counts (check_and_switch h (bump d1))"
  using check_and_switch_ok [of h "bump d1"] assms by (simp_all add: same_rest_def dir_abs_def)

lemma same_rest_trans: "same_rest a b \<Longrightarrow> same_rest b c \<Longrightarrow> same_rest a c"
  by (simp add: same_rest_def)

text \<open>An insertion of a new name, the deletion of a name, and both.\<close>

lemma insert_change:
  assumes "dir_inv h d" and "map_of (dir_view d) n = None" and "d' = check_and_switch h (bump (insert_inner h n i g k d))"
  shows "dir_inv h d' \<and> dir_abs d' = (bmap_put n (i, g, k) (dir_view d), dir_has_subdirs d, directory_version d + 1)"
  using assms change_ok [of h "insert_inner h n i g k d" d] insert_inner_ok [of h d n i g k] insert_inner_counts [of h d n i g k]
  by (simp add: dir_inv_def)

lemma delete_change:
  assumes "dir_inv h d" and "map_of (dir_view d) n \<noteq> None" and "d' = check_and_switch h (bump (delete_inner h n d))"
  shows "dir_inv h d' \<and> dir_abs d' = (bmap_del n (dir_view d), dir_has_subdirs d, directory_version d + 1)"
  using assms change_ok [of h "delete_inner h n d" d] delete_inner_ok [of h d n] delete_inner_counts [of h d n]
  by (simp add: dir_inv_def)

lemma delete_inner_inv: "dir_inv h d \<Longrightarrow> map_of (dir_view d) n \<noteq> None \<Longrightarrow> dir_inv h (delete_inner h n d)"
  by (simp add: dir_inv_def delete_inner_ok delete_inner_counts)

lemma replace_change:
  assumes "dir_inv h d" and "map_of (dir_view d) a \<noteq> None" and "map_of (dir_view d) n = None \<or> n = a"
    and "d' = check_and_switch h (bump (insert_inner h n i g k (delete_inner h a d)))"
  shows "dir_inv h d' \<and> dir_abs d' = (bmap_put n (i, g, k) (bmap_del a (dir_view d)), dir_has_subdirs d, directory_version d + 1)"
proof -
  have del: "dir_inv h (delete_inner h a d)" "dir_view (delete_inner h a d) = bmap_del a (dir_view d)" "same_rest d (delete_inner h a d)"
    using assms(1,2) delete_inner_inv delete_inner_ok by (auto simp: dir_inv_def)
  then show ?thesis using insert_change [OF del(1) _ assms(4)] assms(3) by (auto simp: same_rest_def)
qed

section \<open>Commands\<close>

datatype dir_command =
    CInsert "byte list" "64 word" "64 word" "32 word" | CRename "byte list" "byte list"
  | CRenameOverwrite "byte list" "byte list" | CDelete "byte list" | CRemove "byte list"
  | CLookup "byte list" | CSetSubdirs bool

datatype dir_answer =
    Ack "dir_index_error + unit" | Displaced "dir_index_error + (byte list \<times> entry_data) option"
  | Found "(byte list \<times> entry_data) option" | Silent

primrec dir_step :: "(byte list \<Rightarrow> byte list) \<Rightarrow> dir_command \<Rightarrow> dir_index \<Rightarrow> dir_answer \<times> dir_index" where
  "dir_step h (CInsert n i g k) d = apfst Ack (dir_insert h n i g k d)"
| "dir_step h (CRename a b) d = apfst Ack (dir_rename h a b d)"
| "dir_step h (CRenameOverwrite a b) d = apfst (\<lambda>r. Displaced (map_sum id (map_option entry_view) r)) (rename_overwrite h a b d)"
| "dir_step h (CDelete n) d = apfst Ack (dir_delete h n d)"
| "dir_step h (CRemove n) d = apfst (\<lambda>r. Found (map_option entry_view r)) (dir_remove h n d)"
| "dir_step h (CLookup n) d = (Found (map_option entry_view (dir_lookup n d)), d)"
| "dir_step h (CSetSubdirs v) d = (Silent, dir_set_has_subdirs v d)"

text \<open>The same commands on a sorted map of names, with the flag and the version.\<close>

fun name_map_step :: "dir_command \<Rightarrow> name_map \<Rightarrow> dir_answer \<times> name_map" where
  "name_map_step (CInsert n i g k) (m, s, v) =
     (if map_of m n \<noteq> None then (Ack (Inl EntryAlreadyExists), m, s, v)
      else (Ack (Inr ()), bmap_put n (i, g, k) m, s, v + 1))"
| "name_map_step (CRename a b) (m, s, v) =
     (case map_of m a of
        None \<Rightarrow> (Ack (Inl EntryNotFound), m, s, v)
      | Some x \<Rightarrow> if a = b then (Ack (Inr ()), m, s, v)
          else if map_of m b \<noteq> None then (Ack (Inl EntryAlreadyExists), m, s, v)
          else (Ack (Inr ()), bmap_put b x (bmap_del a m), s, v + 1))"
| "name_map_step (CRenameOverwrite a b) (m, s, v) =
     (case map_of m a of
        None \<Rightarrow> (Displaced (Inl EntryNotFound), m, s, v)
      | Some x \<Rightarrow> if a = b then (Displaced (Inr None), m, s, v)
          else (Displaced (Inr (map_option (Pair b) (map_of m b))), bmap_put b x (bmap_del a m), s, v + 1))"
| "name_map_step (CDelete n) (m, s, v) =
     (if map_of m n = None then (Ack (Inl EntryNotFound), m, s, v) else (Ack (Inr ()), bmap_del n m, s, v + 1))"
| "name_map_step (CRemove n) (m, s, v) =
     (case map_of m n of None \<Rightarrow> (Found None, m, s, v) | Some x \<Rightarrow> (Found (Some (n, x)), bmap_del n m, s, v + 1))"
| "name_map_step (CLookup n) (m, s, v) = (Found (map_option (Pair n) (map_of m n)), m, s, v)"
| "name_map_step (CSetSubdirs b) (m, s, v) = (Silent, m, b, v)"

lemma flags_set_get: "flags_has_subdirs (flags_set_has_subdirs v f) = v"
proof -
  have "(f OR 1) AND 1 = (1 :: byte)" "(f AND NOT 1) AND 1 = (0 :: byte)"
    by (auto simp: bit_eq_iff bit_simps)
  then show ?thesis by (simp add: flags_has_subdirs_def flags_set_has_subdirs_def)
qed

lemma set_has_subdirs_ok:
  "dir_inv h d \<Longrightarrow> dir_inv h (dir_set_has_subdirs v d) \<and> dir_abs (dir_set_has_subdirs v d) = (dir_view d, v, directory_version d)"
  by (auto simp: dir_set_has_subdirs_def Let_def dir_inv_def dir_ok_def dir_counts_def dir_view_def dir_abs_def dir_has_subdirs_def
      storage_entry_count_def storage_total_name_bytes_def flags_set_get split: dir_storage.splits)

lemma rename_overwrite_map:
  "bmap m \<Longrightarrow> bmap_put b x (bmap_del a (bmap_del b m)) = bmap_put b x (bmap_del a m)"
  by (rule bmap_eqI) auto

text \<open>The entry displaced by a rename is removed first, so that the new name is free when it is inserted.\<close>

lemma rename_overwrite_ok:
  assumes "dir_inv h d"
  shows "dir_inv h (snd (dir_step h (CRenameOverwrite a b) d)) \<and>
    apsnd dir_abs (dir_step h (CRenameOverwrite a b) d) = name_map_step (CRenameOverwrite a b) (dir_abs d)"
proof (rule dir_lookup_cases [OF assms, of a])
  assume "dir_lookup a d = None" "map_of (dir_view d) a = None"
  with assms show ?thesis by (simp add: rename_overwrite_def dir_abs_def)
next
  fix e assume e: "dir_lookup a d = Some e" "entry_name e = a"
    "map_of (dir_view d) a = Some (inode_id e, entry_generation e, entry_kind e)"
  show ?thesis
  proof (cases "a = b")
    case True
    with e assms show ?thesis by (simp add: rename_overwrite_def dir_abs_def)
  next
    case ab: False
    let ?put = "\<lambda>d. check_and_switch h (bump (insert_inner h b (inode_id e) (entry_generation e) (entry_kind e) (delete_inner h a d)))"
    note put = replace_change [OF _ _ _ refl, of h _ a b "inode_id e" "entry_generation e" "entry_kind e"]
    show ?thesis
    proof (rule dir_lookup_cases [OF assms, of b])
      assume "dir_lookup b d = None" "map_of (dir_view d) b = None"
      with e ab put [OF assms] show ?thesis by (simp add: rename_overwrite_def dir_abs_def)
    next
      fix t assume t: "dir_lookup b d = Some t" "entry_name t = b"
        "map_of (dir_view d) b = Some (inode_id t, entry_generation t, entry_kind t)"
      have del: "dir_inv h (delete_inner h b d)" "dir_view (delete_inner h b d) = bmap_del b (dir_view d)"
        "same_rest d (delete_inner h b d)"
        using assms t(3) delete_inner_inv delete_inner_ok by (auto simp: dir_inv_def)
      have "bmap (dir_view d)" using assms dir_view_bmap by (auto simp: dir_inv_def)
      with put [OF del(1)] del(2,3) e ab
      have "dir_inv h (?put (delete_inner h b d)) \<and> dir_abs (?put (delete_inner h b d)) =
          (bmap_put b (inode_id e, entry_generation e, entry_kind e) (bmap_del a (dir_view d)), dir_has_subdirs d, directory_version d + 1)"
        by (simp add: same_rest_def rename_overwrite_map)
      with e t ab show ?thesis by (simp add: rename_overwrite_def dir_abs_def entry_view_def)
    qed
  qed
qed

lemma insert_refines:
  assumes "dir_inv h d"
  shows "dir_inv h (snd (dir_step h (CInsert n i g k) d)) \<and>
    apsnd dir_abs (dir_step h (CInsert n i g k) d) = name_map_step (CInsert n i g k) (dir_abs d)"
proof (cases "map_of (dir_view d) n")
  case None
  with insert_change [OF assms None refl, of i g k] dir_contains_view [of h d n] assms show ?thesis
    by (simp add: dir_insert_def dir_abs_def dir_inv_def)
next
  case (Some x)
  with dir_contains_view [of h d n] assms show ?thesis by (simp add: dir_insert_def dir_abs_def dir_inv_def)
qed

lemma rename_refines:
  assumes "dir_inv h d"
  shows "dir_inv h (snd (dir_step h (CRename a b) d)) \<and>
    apsnd dir_abs (dir_step h (CRename a b) d) = name_map_step (CRename a b) (dir_abs d)"
proof (rule dir_lookup_cases [OF assms, of a])
  assume "dir_lookup a d = None" "map_of (dir_view d) a = None"
  with assms show ?thesis by (simp add: dir_rename_def dir_abs_def)
next
  fix e assume e: "dir_lookup a d = Some e" "entry_name e = a"
    "map_of (dir_view d) a = Some (inode_id e, entry_generation e, entry_kind e)"
  have contains: "dir_contains b d \<longleftrightarrow> map_of (dir_view d) b \<noteq> None"
    using assms dir_contains_view by (auto simp: dir_inv_def)
  show ?thesis
  proof (cases "a \<noteq> b \<and> map_of (dir_view d) b = None")
    case True
    with e contains replace_change [OF assms _ _ refl, of a b "inode_id e" "entry_generation e" "entry_kind e"]
    show ?thesis by (simp add: dir_rename_def dir_abs_def)
  next
    case False
    with e contains assms show ?thesis by (auto simp: dir_rename_def dir_abs_def)
  qed
qed

lemma remove_refines:
  assumes "dir_inv h d"
  shows "dir_inv h (snd (dir_step h (CRemove n) d)) \<and>
    apsnd dir_abs (dir_step h (CRemove n) d) = name_map_step (CRemove n) (dir_abs d) \<and>
    dir_inv h (snd (dir_step h (CDelete n) d)) \<and>
    apsnd dir_abs (dir_step h (CDelete n) d) = name_map_step (CDelete n) (dir_abs d)"
proof (rule dir_lookup_cases [OF assms, of n])
  assume "dir_lookup n d = None" "map_of (dir_view d) n = None"
  with assms show ?thesis by (simp add: dir_remove_def dir_delete_def dir_abs_def)
next
  fix e assume "dir_lookup n d = Some e" "entry_name e = n"
    "map_of (dir_view d) n = Some (inode_id e, entry_generation e, entry_kind e)"
  with delete_change [OF assms _ refl, of n] show ?thesis
    by (simp add: dir_remove_def dir_delete_def dir_abs_def entry_view_def)
qed

lemma dir_step_refines:
  assumes "dir_inv h d"
  shows "dir_inv h (snd (dir_step h c d)) \<and> apsnd dir_abs (dir_step h c d) = name_map_step c (dir_abs d)"
proof (cases c)
  case (CSetSubdirs v)
  then show ?thesis using set_has_subdirs_ok [OF assms, of v] by (simp add: dir_abs_def)
next
  case (CLookup n)
  then show ?thesis using dir_lookup_view [of h d n] assms by (simp add: dir_abs_def dir_inv_def)
qed (use insert_refines [OF assms] rename_refines [OF assms] rename_overwrite_ok [OF assms] remove_refines [OF assms] in blast)+

interpretation dir_index: refined_machine "dir_step h" "dir_inv h" name_map_step dir_abs for h
  by unfold_locales (use dir_step_refines in \<open>auto simp: prod_eq_iff\<close>)

section \<open>Listing\<close>

lemma tree_entries_named:
  assumes "dir_inv h d" and "storage d = BTree r"
  obtains nt where "name_btree d = Some nt"
    "\<forall>k P. map (\<lambda>x. entry_view (dir_entry_from_btree_leaf (snd x))) (take k (filter P nt)) =
       map (\<lambda>(n, e). (n, leaf_view e)) (take k (filter P nt))"
proof -
  obtain t nt where t: "name_btree d = Some nt" "buckets_index name_hash leaf_name (bpt_entries t) nt"
    using assms by (auto simp: dir_inv_def dir_ok_def)
  have "leaf_name (snd x) = fst x" if "x \<in> set nt" for x
    using t(2) that by (cases x) (auto simp: buckets_index_def bmap_in_iff)
  then have "map (\<lambda>x. entry_view (dir_entry_from_btree_leaf (snd x))) (take k (filter P nt)) =
       map (\<lambda>(n, e). (n, leaf_view e)) (take k (filter P nt))" for k P
    by (auto dest!: in_set_takeD)
  with t(1) that show ?thesis by blast
qed

lemma dir_list_view:
  assumes "dir_inv h d" and "length (dir_view d) \<le> u64_max"
  shows "map entry_view (dir_list d) = dir_view d"
proof (cases "storage d")
  case (MicroList l)
  then show ?thesis by (simp add: dir_list_def dir_view_def unsorted_entries_def)
next
  case (BTree r)
  obtain nt where nt: "name_btree d = Some nt" and
    "\<forall>k P. map (\<lambda>x. entry_view (dir_entry_from_btree_leaf (snd x))) (take k (filter P nt)) =
       map (\<lambda>(n, e). (n, leaf_view e)) (take k (filter P nt))"
    by (rule tree_entries_named [OF assms(1) BTree])
  from this(2) [rule_format, of "length nt" "\<lambda>_. True"] nt assms(2) BTree show ?thesis
    by (simp add: dir_list_def dir_view_def btree_entries_from_sorted_index_def u64_max_def comp_def)
qed

lemma dir_len_view:
  assumes "dir_inv h d" and "length (dir_view d) \<le> u64_max"
  shows "dir_len d = length (dir_view d)"
  using assms by (simp add: dir_len_def dir_inv_def dir_counts_def u64_max_def unat_of_nat)

lemma search_after:
  assumes "bmap (map (\<lambda>e. (f e, e)) es)"
  shows "drop (case binary_search key (map (\<lambda>e. (f e, e)) es) of Inr i \<Rightarrow> i + 1 | Inl i \<Rightarrow> i) es = filter (\<lambda>e. key < f e) es"
proof (cases rule: binary_search_split [OF assms, of key, case_names found missing])
  case (found xs v ys)
  then obtain as z bs where es: "es = as @ z # bs" "xs = map (\<lambda>e. (f e, e)) as" "ys = map (\<lambda>e. (f e, e)) bs"
    by (auto simp: map_eq_append_conv map_eq_Cons_conv)
  then have "\<forall>x \<in> set as. \<not> key < f x" "\<not> key < f z" "\<forall>y \<in> set bs. key < f y" using found by auto
  then have "filter (\<lambda>e. key < f e) es = bs" by (simp add: es(1))
  then show ?thesis using found(2) by (simp add: es(1,2))
next
  case (missing xs ys)
  then obtain as bs where es: "es = as @ bs" "xs = map (\<lambda>e. (f e, e)) as" "ys = map (\<lambda>e. (f e, e)) bs"
    by (auto simp: map_eq_append_conv)
  then have "\<forall>x \<in> set as. \<not> key < f x" "\<forall>y \<in> set bs. key < f y" using missing by auto
  then have "filter (\<lambda>e. key < f e) es = bs" by (simp add: es(1))
  then show ?thesis using missing(2) by (simp add: es(1,2))
qed

lemma slice_window: "i \<le> length es \<Longrightarrow> slice i (min (i + k) (length es)) es = take k (drop i es)"
  by (simp add: slice_def min_def)

lemma dir_range_scan_view:
  assumes "dir_inv h d" and "length (dir_view d) + k \<le> u64_max"
  shows "map_option (map entry_view) (dir_range_scan start k d) =
    Some (take k (filter (\<lambda>e. start = [] \<or> start < fst e) (dir_view d)))"
proof (cases "storage d")
  case (MicroList l)
  let ?es = "dir_list d"
  have view: "dir_view d = map entry_view ?es" using dir_list_view [OF assms(1)] assms(2) by simp
  have "bmap (map (\<lambda>e. (entry_name e, e)) ?es)"
    using dir_view_bmap [of h d] assms(1) by (simp add: view dir_inv_def comp_def)
  note after = search_after [OF this, of start]
  define i where "i = (if start = [] then 0
    else case binary_search start (map (\<lambda>e. (entry_name e, e)) ?es) of Inr i \<Rightarrow> i + 1 | Inl i \<Rightarrow> i)"
  have i: "drop i ?es = filter (\<lambda>e. start = [] \<or> start < entry_name e) ?es"
    using after by (simp add: i_def)
  have "dir_range_scan start k d = Some (take k (drop i ?es))"
  proof (cases "k = 0 \<or> length ?es \<le> i")
    case True
    then show ?thesis by (auto simp: dir_range_scan_def MicroList Let_def i_def [symmetric])
  next
    case False
    then have "wrap_add64 i k = i + k" using assms(2) by (simp add: wrap_add64_def view u64_max_def)
    with False show ?thesis
      by (simp add: dir_range_scan_def MicroList Let_def i_def [symmetric] slice_window min_less_iff_disj)
  qed
  then show ?thesis by (simp add: i view take_map filter_map comp_def)
next
  case (BTree r)
  obtain nt where nt: "name_btree d = Some nt" and
    "\<forall>k P. map (\<lambda>x. entry_view (dir_entry_from_btree_leaf (snd x))) (take k (filter P nt)) =
       map (\<lambda>(n, e). (n, leaf_view e)) (take k (filter P nt))"
    by (rule tree_entries_named [OF assms(1) BTree])
  from this(2) [rule_format, of k "\<lambda>x. start = [] \<or> start < fst x"] nt BTree show ?thesis
    by (auto simp: dir_range_scan_def dir_view_def take_map filter_map comp_def case_prod_unfold)
qed

lemma bmap_put_growth: "length (bmap_put k v m) \<le> Suc (length m)"
  by (induction m) (auto split: if_splits)

lemma bmap_del_shrinks: "length (bmap_del k m) \<le> length m"
  by (simp add: bmap_del_def)

lemma rename_growth: "length (bmap_put b x (bmap_del a m)) \<le> Suc (length m)"
  by (rule le_trans [OF bmap_put_growth]) (simp add: bmap_del_shrinks)

lemma name_map_step_growth: "length (fst (snd (name_map_step c (m, s, v)))) \<le> Suc (length m)"
  by (cases c) (simp_all add: bmap_put_growth rename_growth le_SucI [OF bmap_del_shrinks] split: option.split)

lemma name_map_growth:
  "length (fst (snd (run_commands name_map_step cs x))) \<le> length (fst x) + length cs"
proof (induction cs rule: rev_induct)
  case (snoc c cs)
  obtain m s v where y: "snd (run_commands name_map_step cs x) = (m, s, v)" using prod_cases3 by blast
  show ?case using snoc name_map_step_growth [of c m s v] by (simp add: run_commands_snoc y)
qed simp

lemma dir_new_inv: "dir_inv h (dir_new ino pol)" "dir_abs (dir_new ino pol) = ([], False, 0)"
  by (simp_all add: dir_inv_def dir_ok_def dir_counts_def dir_new_def dir_view_def dir_abs_def dir_has_subdirs_def
      storage_entry_count_def storage_total_name_bytes_def flags_has_subdirs_def name_bytes_def)

section \<open>Two directories\<close>

text \<open>The effect of moving or exchanging entries on the two maps of names.\<close>

definition map_swap ::
    "byte list \<Rightarrow> byte list \<Rightarrow> swap_mode \<Rightarrow> (byte list \<times> entry_data) list \<Rightarrow> (byte list \<times> entry_data) list \<Rightarrow>
     (dir_index_error + (byte list \<times> entry_data) option) \<times> (byte list \<times> entry_data) list \<times> (byte list \<times> entry_data) list" where
  "map_swap a b mode m1 m2 =
     (case (mode, map_of m1 a, map_of m2 b) of
        (SwapExchange, Some x, Some y) \<Rightarrow> (Inr None, bmap_put a y m1, bmap_put b x m2)
      | (SwapNoReplace, _, Some y) \<Rightarrow> (Inl EntryAlreadyExists, m1, m2)
      | (SwapNoReplace, Some x, None) \<Rightarrow> (Inr None, bmap_del a m1, bmap_put b x m2)
      | (SwapRename, Some x, y) \<Rightarrow> (Inr (map_option (Pair b) y), bmap_del a m1, bmap_put b x m2)
      | _ \<Rightarrow> (Inl EntryNotFound, m1, m2))"

lemma put_del_map: "bmap m \<Longrightarrow> bmap_put a x (bmap_del a m) = bmap_put a x m"
  by (rule bmap_eqI) auto

lemma set_entry_change:
  assumes "dir_inv h d" and "map_of (dir_view d) n \<noteq> None"
    and "d' = check_and_switch h (bump (insert_inner h n i g k (delete_inner h n d)))"
  shows "dir_inv h d' \<and> dir_abs d' = (bmap_put n (i, g, k) (dir_view d), dir_has_subdirs d, directory_version d + 1)"
proof -
  have "bmap (dir_view d)" using assms(1) dir_view_bmap by (auto simp: dir_inv_def)
  then show ?thesis using replace_change [OF assms(1,2) _ assms(3)] by (simp add: put_del_map)
qed

definition swapped :: "(byte list \<Rightarrow> byte list) \<Rightarrow> dir_index \<Rightarrow> dir_index \<Rightarrow> (byte list \<times> entry_data) list \<Rightarrow> bool" where
  "swapped h d d' m \<longleftrightarrow> dir_inv h d' \<and> dir_abs d' = (m, dir_has_subdirs d, directory_version d + 1)"

lemmas swap_insert = insert_change [OF _ _ refl, folded swapped_def]
lemmas swap_delete = delete_change [OF _ _ refl, folded swapped_def]
lemmas swap_set = set_entry_change [OF _ _ refl, folded swapped_def]

lemma swap_exchange_view:
  assumes "dir_inv h src" and "dir_inv h dst" and "atomic_swap h a b SwapExchange src dst = (r, src', dst')"
    and "map_swap a b SwapExchange (dir_view src) (dir_view dst) = (r', m1, m2)"
  shows "map_sum id (map_option entry_view) r = r' \<and>
    (case r of Inl _ \<Rightarrow> src' = src \<and> dst' = dst | Inr _ \<Rightarrow> swapped h src src' m1 \<and> swapped h dst dst' m2)"
proof (rule dir_lookup_cases [OF assms(1), of a])
  assume "dir_lookup a src = None" "map_of (dir_view src) a = None"
  then show ?thesis using assms(3,4) by (auto simp: atomic_swap_def map_swap_def)
next
  fix e assume e: "dir_lookup a src = Some e" "map_of (dir_view src) a = Some (inode_id e, entry_generation e, entry_kind e)"
  show ?thesis
  proof (rule dir_lookup_cases [OF assms(2), of b])
    assume "dir_lookup b dst = None" "map_of (dir_view dst) b = None"
    then show ?thesis using assms(3,4) e by (auto simp: atomic_swap_def map_swap_def)
  next
    fix t assume "dir_lookup b dst = Some t" "map_of (dir_view dst) b = Some (inode_id t, entry_generation t, entry_kind t)"
    then show ?thesis using assms(3,4) e
      by (auto simp: atomic_swap_def map_swap_def swap_set [OF assms(1)] swap_set [OF assms(2)])
  qed
qed

lemma swap_move_view:
  assumes "dir_inv h src" and "dir_inv h dst" and "mode \<noteq> SwapExchange" and "atomic_swap h a b mode src dst = (r, src', dst')"
    and "map_swap a b mode (dir_view src) (dir_view dst) = (r', m1, m2)"
  shows "map_sum id (map_option entry_view) r = r' \<and>
    (case r of Inl _ \<Rightarrow> src' = src \<and> dst' = dst | Inr _ \<Rightarrow> swapped h src src' m1 \<and> swapped h dst dst' m2)"
proof -
  have c: "dir_contains b dst \<longleftrightarrow> dir_lookup b dst \<noteq> None" by (simp add: dir_contains_def)
  show ?thesis
  proof (rule dir_lookup_cases [OF assms(1), of a])
    assume a: "dir_lookup a src = None" "map_of (dir_view src) a = None"
    show ?thesis
      by (rule dir_lookup_cases [OF assms(2), of b]; cases mode; use assms(3,4,5) a c in
          \<open>auto simp: atomic_swap_def move_entry_to_def map_swap_def\<close>)
  next
    fix e assume e: "dir_lookup a src = Some e" "map_of (dir_view src) a = Some (inode_id e, entry_generation e, entry_kind e)"
    show ?thesis
    proof (rule dir_lookup_cases [OF assms(2), of b])
      assume "dir_lookup b dst = None" "map_of (dir_view dst) b = None"
      then show ?thesis using assms(3,4,5) e c
        by (cases mode) (auto simp: atomic_swap_def move_entry_to_def map_swap_def swap_insert [OF assms(2)] swap_delete [OF assms(1)])
    next
      fix t assume "dir_lookup b dst = Some t" "entry_name t = b"
        "map_of (dir_view dst) b = Some (inode_id t, entry_generation t, entry_kind t)"
      then show ?thesis using assms(3,4,5) e c
        by (cases mode) (auto simp: atomic_swap_def move_entry_to_def map_swap_def entry_view_def swap_set [OF assms(2)] swap_delete [OF assms(1)])
    qed
  qed
qed

lemma atomic_swap_view:
  assumes "dir_inv h src" and "dir_inv h dst" and "atomic_swap h a b mode src dst = (r, src', dst')"
    and "map_swap a b mode (dir_view src) (dir_view dst) = (r', m1, m2)"
  shows "map_sum id (map_option entry_view) r = r' \<and>
    (case r of Inl _ \<Rightarrow> src' = src \<and> dst' = dst | Inr _ \<Rightarrow> swapped h src src' m1 \<and> swapped h dst dst' m2)"
  using swap_exchange_view [of h src dst a b] swap_move_view [of h src dst mode a b] assms by (cases "mode = SwapExchange") blast+

section \<open>Conservation\<close>

lemma mset_bmap_put:
  "bmap m \<Longrightarrow> mset (map snd (bmap_put k x m)) + (case map_of m k of None \<Rightarrow> {#} | Some y \<Rightarrow> {#y#}) = mset (map snd m) + {#x#}"
proof (induction m)
  case (Cons e m)
  obtain k' v' where e: "e = (k', v')" by force
  have "map_of m k = None" if "k \<le> k'"
    using Cons.prems that by (force simp: e map_of_eq_None_iff)
  then show ?case using Cons by (auto simp: e)
qed simp

lemma mset_bmap_del:
  "bmap m \<Longrightarrow> mset (map snd (bmap_del k m)) + (case map_of m k of None \<Rightarrow> {#} | Some y \<Rightarrow> {#y#}) = mset (map snd m)"
proof (induction m)
  case (Cons e m)
  obtain k' v' where e: "e = (k', v')" by force
  show ?case
  proof (cases "k' = k")
    case True
    then have "bmap_del k m = m" using Cons.prems by (force simp: e bmap_del_def filter_id_conv)
    then show ?thesis using True by (simp add: e bmap_del_def)
  next
    case False
    then show ?thesis using Cons by (simp add: e bmap_del_def)
  qed
qed (simp add: bmap_del_def)

lemma mset_moved:
  assumes "A + {#x#} = M" and "B + Y = N + {#x#}"
  shows "A + B + Y = M + N"
proof -
  have "A + B + Y = A + (B + Y)" by (simp add: add.assoc)
  also have "\<dots> = M + N" by (simp add: assms flip: assms(1))
  finally show ?thesis .
qed

lemma mset_exchanged:
  assumes "A + {#x#} = M + {#y#}" and "B + {#y#} = N + {#x#}"
  shows "A + B = M + N"
proof -
  have "A + B + ({#x#} + {#y#}) = (A + {#x#}) + (B + {#y#})" by simp
  also have "\<dots> = M + N + ({#x#} + {#y#})" unfolding assms by simp
  finally show ?thesis by simp
qed

lemma map_swap_conserves:
  assumes "bmap m1" and "bmap m2" and "map_swap a b mode m1 m2 = (Inr out, m1', m2')"
  shows "mset (map snd m1') + mset (map snd m2') + (case out of None \<Rightarrow> {#} | Some e \<Rightarrow> {#snd e#}) =
    mset (map snd m1) + mset (map snd m2)"
proof -
  obtain x where x: "map_of m1 a = Some x"
    using assms(3) by (cases mode; cases "map_of m1 a"; cases "map_of m2 b") (auto simp: map_swap_def)
  show ?thesis
  proof (cases "mode = SwapExchange")
    case True
    then obtain y where y: "map_of m2 b = Some y" using assms(3) x by (cases "map_of m2 b") (auto simp: map_swap_def)
    have "mset (map snd (bmap_put a y m1)) + mset (map snd (bmap_put b x m2)) = mset (map snd m1) + mset (map snd m2)"
      by (rule mset_exchanged) (use mset_bmap_put [OF assms(1), of a y] mset_bmap_put [OF assms(2), of b x] x y in simp_all)
    then show ?thesis using assms(3) x y True by (auto simp: map_swap_def)
  next
    case False
    have "mset (map snd (bmap_del a m1)) + mset (map snd (bmap_put b x m2)) +
        (case map_of m2 b of None \<Rightarrow> {#} | Some y \<Rightarrow> {#y#}) = mset (map snd m1) + mset (map snd m2)"
      by (rule mset_moved) (use mset_bmap_del [OF assms(1), of a] mset_bmap_put [OF assms(2), of b x] x in simp_all)
    then show ?thesis using assms(3) x False
      by (cases mode; cases "map_of m2 b") (auto simp: map_swap_def)
  qed
qed

section \<open>The count after a replacement\<close>

text \<open>
  \<open>replace\<close> removes the name without looking it up. In the tree representation the count goes
  down whenever some name with the same hash is present, so that replacing an absent name leaves the
  count as it was although an entry was added.
\<close>

lemma replace_count:
  assumes "dir_ok h d"
  shows "storage_entry_count (storage (insert_inner h n i g k (delete_inner h n d))) =
    storage_entry_count (storage d) + (if delete_hits n d then 0 else 1)"
  by (simp add: insert_inner_count delete_inner_count [OF assms])

section \<open>Properties\<close>

text \<open>
  C38. A directory is a map of names. Whatever the policy, the representation in use, the switches
  between the representations and the collisions of name hashes, every sequence of at most
  \<open>u64_max\<close> insertions, renames with and without replacement, deletions, removals, lookups
  and changes of the subdirectory flag on a new directory gives the answers of a map in name order;
  the listing is that map, the length its size, the flag the last one set, and the version counts
  the changes. A range scan from a name gives the first entries after that name, as many as asked for.
\<close>

theorem dir_refines_map:
  assumes "length cs \<le> u64_max" and "d = snd (run_commands (dir_step h) cs (dir_new ino pol))"
    and "snd (run_commands name_map_step cs ([], False, 0)) = (m, sub, ver)"
  shows "fst (run_commands (dir_step h) cs (dir_new ino pol)) = fst (run_commands name_map_step cs ([], False, 0)) \<and>
    map entry_view (dir_list d) = m \<and> dir_len d = length m \<and> dir_has_subdirs d = sub \<and> directory_version d = ver \<and>
    (\<forall>start k. length m + k \<le> u64_max \<longrightarrow> map_option (map entry_view) (dir_range_scan start k d) =
       Some (take k (filter (\<lambda>e. start = [] \<or> start < fst e) m)))"
proof -
  note run = dir_index.run_refines [OF dir_new_inv(1), of h cs ino pol, folded assms(2), unfolded dir_new_inv(2) assms(3)]
  have inv: "dir_inv h d" unfolding assms(2) by (rule dir_index.run_inv [OF dir_new_inv(1)])
  from run have abs: "dir_view d = m" "dir_has_subdirs d = sub" "directory_version d = ver" by (simp_all add: dir_abs_def)
  have "length m \<le> u64_max" using name_map_growth [of cs "([], False, 0)"] assms(1,3) by simp
  with inv run abs show ?thesis by (simp add: dir_list_view dir_len_view dir_range_scan_view)
qed

text \<open>
  C40. Moving and exchanging entries between two directories. From directories as the operations leave
  them, a refused operation changes neither; a successful one gives both directories the entries of
  the specified change, keeps them well formed, increases both versions, and loses no entry: the
  entries of both directories afterwards, together with the replaced entry that is returned, are those
  of both directories before.
\<close>

theorem atomic_swap_correct:
  assumes "dir_inv h src" and "dir_inv h dst" and "atomic_swap h a b mode src dst = (r, src', dst')"
    and "map_swap a b mode (dir_view src) (dir_view dst) = (r', m1, m2)"
  shows "map_sum id (map_option entry_view) r = r' \<and>
    (case r of
       Inl _ \<Rightarrow> src' = src \<and> dst' = dst
     | Inr out \<Rightarrow>
         dir_inv h src' \<and> dir_abs src' = (m1, dir_has_subdirs src, directory_version src + 1) \<and>
         dir_inv h dst' \<and> dir_abs dst' = (m2, dir_has_subdirs dst, directory_version dst + 1) \<and>
         mset (map snd (dir_view src')) + mset (map snd (dir_view dst')) +
             (case out of None \<Rightarrow> {#} | Some e \<Rightarrow> {#snd (entry_view e)#}) =
           mset (map snd (dir_view src)) + mset (map snd (dir_view dst)))"
proof -
  note view = atomic_swap_view [OF assms]
  have "bmap (dir_view src)" "bmap (dir_view dst)" using assms(1,2) dir_view_bmap by (auto simp: dir_inv_def)
  note conserved = map_swap_conserves [OF this, of a b mode]
  show ?thesis
  proof (cases r)
    case (Inr out)
    with view have "r' = Inr (map_option entry_view out)" and
      s: "swapped h src src' m1" "swapped h dst dst' m2" by auto
    moreover have "dir_view src' = m1" "dir_view dst' = m2" using s by (simp_all add: swapped_def dir_abs_def)
    ultimately show ?thesis using conserved [of "map_option entry_view out" m1 m2] assms(4)
      by (cases out) (simp_all add: Inr swapped_def)
  qed (use view in simp)
qed

section \<open>Witnesses\<close>

definition tiny_policy :: dataset_dir_policy where
  "tiny_policy = \<lparr>dir_micro_max_entries = 1, dir_micro_max_name_bytes = 100,
     dir_btree_downshift_entries = 0, dir_btree_downshift_name_bytes = 0\<rparr>"

definition sample_commands :: "dir_command list" where
  "sample_commands = [CInsert [98] 12 1 0, CInsert [97] 11 1 0, CRenameOverwrite [98] [99], CSetSubdirs True, CRemove [97]]"

theorem dir_refines_map_witness:
  "length sample_commands \<le> u64_max \<and>
   map entry_view (dir_list (snd (run_commands (dir_step id) sample_commands (dir_new 5 tiny_policy)))) = [([99], 12, 1, 0)] \<and>
   directory_version (snd (run_commands (dir_step id) sample_commands (dir_new 5 tiny_policy))) = 4"
proof -
  have "length sample_commands \<le> u64_max" by (simp add: sample_commands_def u64_max_def)
  moreover have "snd (run_commands name_map_step sample_commands ([], False, 0)) = ([([99], 12, 1, 0)], True, 4)"
    by (simp add: sample_commands_def bmap_del_def Let_def)
  ultimately show ?thesis using dir_refines_map [OF _ refl, of sample_commands _ _ _ id 5 tiny_policy] by simp
qed

definition one_entry :: "byte list \<Rightarrow> 64 word \<Rightarrow> dir_index" where
  "one_entry n ino = snd (run_commands (dir_step id) [CInsert n ino 1 0] (dir_new 5 default_dir_policy))"

lemma one_entry_inv: "dir_inv id (one_entry n ino)"
  unfolding one_entry_def by (rule dir_index.run_inv [OF dir_new_inv(1)])

lemma one_entry_view: "dir_view (one_entry n ino) = [(n, ino, 1, 0)]"
  using dir_index.run_refines [OF dir_new_inv(1), of id "[CInsert n ino 1 0]" 5 default_dir_policy]
  unfolding one_entry_def [symmetric] dir_new_inv(2) by (simp add: dir_abs_def)

theorem atomic_swap_correct_witness:
  "\<exists>r src' dst'. dir_inv id (one_entry [97] 11) \<and> dir_inv id (one_entry [98] 12) \<and>
     atomic_swap id [97] [98] SwapRename (one_entry [97] 11) (one_entry [98] 12) = (r, src', dst') \<and>
     map_sum id (map_option entry_view) r = Inr (Some ([98], 12, 1, 0)) \<and>
     dir_view src' = [] \<and> dir_view dst' = [([98], 11, 1, 0)]"
proof -
  obtain r src' dst' where swap: "atomic_swap id [97] [98] SwapRename (one_entry [97] 11) (one_entry [98] 12) = (r, src', dst')"
    using prod_cases3 by blast
  have "map_swap [97] [98] SwapRename (dir_view (one_entry [97] 11)) (dir_view (one_entry [98] 12)) =
      (Inr (Some ([98], 12, 1, 0)), [], [([98], 11, 1, 0)])"
    by (simp add: one_entry_view map_swap_def bmap_del_def)
  from atomic_swap_correct [OF one_entry_inv one_entry_inv swap this]
  show ?thesis using swap one_entry_inv by (cases r) (auto simp: dir_abs_def)
qed

end
