(* ===== verification/Spec2Isabelle.thy ===== *)
theory Spec2Isabelle
  imports Space_Checkpoint Lock_Deadlock Quorum_Safety Lease_Machine Commit_Group Reserve_Record
    Budget_Domain Reserve_Receipts Erasure_Correct Hlc_Clock
    Bptree_Bulk Bptree_Lazy Dir_Map
begin

text \<open>
  TideFS is a distributed file system written in Rust: a storage pool divided into segments, local
  object stores on it, a transaction-group commit path, replication with quorum writes, cluster
  leases and locks, and ledgers that account for space. This development models the deterministic
  cores of these parts, one theory per component, and proves what each of them promises. Sources
  are named relative to \<open>src/crates/\<close>.

  \<^bold>\<open>Conventions.\<close> A struct is a record, an enum a datatype, a \<open>&mut self\<close> method that
  may fail a function from the state to a pair of a result (\<open>Inl\<close> the error, \<open>Inr\<close> the value) and
  the state it leaves behind. A \<open>u64\<close> or \<open>u32\<close> is a natural number with saturation,
  truncation and wrap-around written out (\<open>sat_add64\<close>, \<open>wrap_add64\<close>, \<open>as_u32\<close>), or a
  64-bit word where the code relies on wrapping; an unchecked addition is that of a release build.
  Bytes are 8-bit words. A \<open>BTreeSet\<close> is the ascending list of its elements and a
  \<open>BTreeMap\<close> the association list with ascending keys. Functions of other packages, BLAKE3
  above all, are arguments of the definitions that call them, with what is relied on as hypothesis.

  \<^bold>\<open>Shared library.\<close>
  \<^item> \<open>Tide_Prelude\<close>: machine integers, ordered sets and maps, sequences of commands
    (\<open>run_commands\<close>) and the locale \<open>guarded_machine\<close>: a step function that keeps an invariant
    keeps it over every sequence of commands; \<open>refined_machine\<close> extends it by an abstract machine
    that gives the same answers. Most components interpret them.
  \<^item> \<open>Le_Bytes\<close>: little-endian integers, slices, and the locale \<open>record_codec\<close> of a record
    format whose decoder reads back what the encoder wrote.

  \<^bold>\<open>Segment free-space allocator\<close> (\<open>tidefs-spacemap-allocator/src/lib.rs\<close>).
  \<^item> \<open>Size_Classes\<close>: the size-class hints (\<open>SizeClassHints\<close>).
  \<^item> \<open>Space_Map\<close>: \<open>SegmentFreeMap\<close> with its sorted free runs and all operations:
    \<open>alloc_after\<close>, \<open>add_free\<close>, \<open>remove_free\<close>, \<open>free_range\<close>, \<open>allocate\<close>, \<open>coalesce\<close>.
  \<^item> \<open>Space_Alloc\<close>: every operation as a change of the set of free segments; the runs stay
    sorted, disjoint and in range, the cached count is the size of that set, and no segment is
    handed out twice. The locale \<open>segment_allocator\<close> is the contract its clients use.
  \<^item> \<open>Space_Checkpoint\<close>: the bitmap checkpoint and the recovery from it; a full checkpoint
    is read back to the same free runs.

  \<^bold>\<open>POSIX byte-range locks\<close> (\<open>tidefs-lock-service/src/posix_lock.rs\<close>).
  \<^item> \<open>Posix_Lock\<close>: ranges, the lock table, test, acquire, release (which removes the
    one lock with exactly the given range and owner) with merging of adjacent locks, the waiters; the locale \<open>lock_compatibility\<close> holds the laws of lock conflicts. Releasing frees
    exactly the released range of one owner, and testing agrees with acquiring.
  \<^item> \<open>Lock_Deadlock\<close>: the depth-first deadlock search. It is modelled with fuel; \<open>length
    edges + 2\<close> is passed, and the search is proved never to run out, because each nested call
    visits a new node and every node reached but the first is the target of an edge. The search
    answers exactly whether the request closes a cycle, so the wait-for graph stays acyclic.

  \<^bold>\<open>Quorum writes\<close> (\<open>tidefs-quorum-write/src/lib.rs\<close>).
  \<^item> \<open>Quorum_Write\<close>: the four phases prepare, transfer, commit and witness, the evaluation, the
    degraded read, the summary and its validation.
  \<^item> \<open>Quorum_Safety\<close>: the locale \<open>quorum_system\<close> and its interpretation on the durability
    modes: the outcome of a write is determined by the targets that acknowledged, two successful
    writes share a target, and after the loss of fewer nodes than acknowledged a degraded read still
    succeeds, with the written value or with an older replica of a target that did not acknowledge.

  \<^bold>\<open>Leases\<close> (\<open>tidefs-lease/src/lease_state_machine.rs\<close>): \<open>Lease_Machine\<close> models the
  life cycle of a lease with the instant as an argument. A lease
  has one holder in its lifetime, and the state after any sequence of operations is characterised by the
  operations that succeeded: when it is revoked, when fenced, and when and for whom it is active.

  \<^bold>\<open>Commit groups\<close> (\<open>tidefs-commit_group/src/state_machine.rs\<close>): \<open>Commit_Group\<close> models
  the single-node commit group with its digest chain and the multi-member group commit. A commit
  goes through seal, begin and complete in this order, and its digest is that of the data on the prior
  digest; a committed group stays committed; from the same first digest, equal chain digests mean equal
  histories unless the hash collides or an input of the chain hashes to that first digest; a group is committed only with the acknowledgements of all members
  and, once they are given in any order, is committed.

  \<^bold>\<open>Space ledgers\<close>.
  \<^item> \<open>Claim_Ledger\<close> (\<open>tidefs-claim-ledger/src/lib.rs\<close>): registration, release and commitment
    of claims; the budget is never exceeded, and the total is exact when identifiers are distinct.
  \<^item> \<open>Reserve_Ledger\<close> (\<open>tidefs-reserve-ledger/src/lib.rs\<close>): the pressure state machine equals
    a memoryless classification; segment reservations are conserved; holders stay within the ceiling.
  \<^item> \<open>Budget_Domain\<close> (same file): admission of claims by pressure and capacity, built on the two
    ledgers; when exactly a claim is admitted.
  \<^item> \<open>Reserve_Record\<close> (\<open>persistence.rs\<close> of the same crate): the 52-byte record; decoding
    accepts exactly the encodings.
  \<^item> \<open>Reserve_Receipts\<close> (\<open>receipt.rs\<close>): the receipt log and the conservation audit, which
    accepts exactly the logs whose balances stay within bounds in every prefix.

  \<^bold>\<open>Erasure coding\<close> (\<open>tidefs-erasure-coding/src/lib.rs\<close>, \<open>tidefs-replication-model/src/\<close>).
  \<^item> \<open>Gf256\<close>: the tables of GF(256) and the operations on them; multiplication is that of
    polynomials modulo the field polynomial, and the type \<open>gf\<close> is an instance of \<open>field\<close>.
  \<^item> \<open>Gf_Matrix\<close>: Gauss-Jordan inversion, correct and complete; a Cauchy matrix has no kernel.
  \<^item> \<open>Replication_Intent\<close>: failure domains and replication intents.
  \<^item> \<open>Erasure_Code\<close>: encoding, reconstruction, the receipt wrappers, single parity, shard groups.
  \<^item> \<open>Erasure_Correct\<close>: any set of shards as large as the number of data shards gives back the
    payload and the lost shards; a stripe survives as many failures as its intent tolerates.

  \<^bold>\<open>Hybrid logical clocks\<close> (\<open>tidefs-clock-timing/src/hlc.rs\<close>): \<open>Hlc_Clock\<close> models the
  clock; along runs of communicating clocks the values follow the causal order of the events, except
  when the wall clock ties with a received value.

  \<^bold>\<open>B+tree\<close> (\<open>tidefs-btree/src/lib.rs\<close>, \<open>range_scan.rs\<close>): the ordered map
  under the indexes of the file system. The node capacities and the hash are parameters; the
  correctness theorems need room for one entry in a leaf and for three children in an internal node.
  \<^item> \<open>Bptree\<close>: all definitions. The loop that adds levels and the iterator are
    \<open>partial_function\<close>s, so that not ending is the value \<open>None\<close>.
  \<^item> \<open>Bptree_Search\<close>: the queries and the lazy iterator on searchable trees.
  \<^item> \<open>Bptree_Build\<close>: bulk construction and when it ends.
  \<^item> \<open>Bptree_Valid\<close>: the invariant, which insertion and construction keep and which implies that
    the validation of the code succeeds.
  \<^item> \<open>Bptree_Map\<close>: the tree refines a sorted association list over every sequence of operations.
  \<^item> \<open>Bptree_Bulk\<close>, \<open>Bptree_Lazy\<close>: the loaders from streams and the lazy deletion.

  \<^bold>\<open>Directory index\<close> (\<open>tidefs-dir-index/src/lib.rs\<close>, the cookies of \<open>format.rs\<close>,
  and the types of \<open>tidefs-types-polymorphic-directory-index-core\<close>): the entries of a directory,
  as a list while it is small and as a B+tree from name hashes to buckets, with a map in name order
  beside it, when it is large.
  \<^item> \<open>Dir_Types\<close>: entries, policy, cookies and the prefetch window.
  \<^item> \<open>Dir_Index\<close>: \<open>DirIndex\<close> with all its operations but those on an object store, and the
    snapshot iterator \<open>DirIndexIter\<close>. Of the encoding, the cookies, the cursors and the prefetch
    window only the definitions are given.
  \<^item> \<open>Ordered_Map\<close>: the contract of an ordered map, the locale \<open>ordered_map\<close> that the B+tree
    interprets, and buckets under the hash of a name.
  \<^item> \<open>Dir_Refine\<close>: the invariant, kept by insertion, deletion and both switches of representation.
  \<^item> \<open>Dir_Map\<close>: a directory refines a map of names over every sequence of operations, whichever
    hashes collide; moving and exchanging entries between directories loses none. \<open>replace\<close>, whose
    count can be wrong after a collision, is not among the operations of that theorem.

  \<^bold>\<open>How the parts interact.\<close> The budget domain calls the claim and the reserve ledger, and
  the audit reads the reserve ledger's floor and ceiling. The erasure coder takes its layout from a
  replication intent. The directory index keeps its buckets in the B+tree. The allocator, the lock table, the
  quorum protocol, the leases and the commit groups are used side by side by the file-system and cluster
  services, which are not modelled; the locales state what those services may rely on.

  \<^bold>\<open>Behaviour recorded as it is.\<close> Some theorems show where the code departs from its
  documentation: a stale size-class hint refuses an allocation, \<open>find_free_run\<close> may return a run
  that is too short, an incremental checkpoint is restored at the wrong place, a
  B+tree with room for two children only builds nodes that its own validation refuses, a degraded read
  may return a stale replica, witness attestations are not counted, and a token
  released twice frees the segments of another holder.

  \<^bold>\<open>Not modelled.\<close> Floating-point statistics of the allocator and of the B+tree (fill
  percentage and the compaction it triggers), the page format, copy-on-write store and log that
  persist the B+tree, formatting for display,
  device, network and kernel I/O, threads and timers, the object stores and file-system services,
  the remaining record formats and planners, and test support.
\<close>

end
